(* ===== verification/Xv6_Prelude.thy ===== *)
theory Xv6_Prelude
  imports Main "HOL-Library.Word" "HOL-Library.Multiset"
begin

text \<open>
  What every component of the development shares: the C integer types as words, the
  outcome type of kernel code (a value or one of the ways it stops), sequencing of
  fallible steps, the constants of \<^verbatim>\<open>param.h\<close>, the sleep channels and the spin locks of
  the kernel, table scans (\<^verbatim>\<open>for(p = table; p < &table[N]; p++)\<close>), and a small theory of
  invariants of step relations.
\<close>

unbundle bit_operations_syntax

section \<open>Integers\<close>

type_synonym u8 = "8 word"
type_synonym u16 = "16 word"
type_synonym u32 = "32 word"

section \<open>Constants (param.h)\<close>

definition NPROC :: nat where "NPROC = 64"
definition NOFILE :: nat where "NOFILE = 16"
definition NFILE :: nat where "NFILE = 100"
definition NINODE :: nat where "NINODE = 50"
definition NDEV :: nat where "NDEV = 10"
definition ROOTDEV :: u32 where "ROOTDEV = 1"
definition MAXOPBLOCKS :: nat where "MAXOPBLOCKS = 10"
definition LOGSIZE :: nat where "LOGSIZE = MAXOPBLOCKS * 3"
definition NBUF :: nat where "NBUF = MAXOPBLOCKS * 3"
definition FSSIZE :: nat where "FSSIZE = 1000"

section \<open>Outcomes of kernel code\<close>

text \<open>
  Channels on which a process sleeps. The code uses addresses; each constructor is one of
  the addresses it sleeps on (\<^verbatim>\<open>&ticks\<close>, a process, \<^verbatim>\<open>&log\<close>, a sleep lock, a buffer, the two
  counters of a pipe, \<^verbatim>\<open>&input.r\<close>). A null channel is \<open>None\<close>.
\<close>

datatype chan =
    Ch_ticks
  | Ch_proc nat
  | Ch_log
  | Ch_inode_lock nat
  | Ch_buf_lock nat
  | Ch_buf nat
  | Ch_nread u32
  | Ch_nwrite u32
  | Ch_input

text \<open>The spin locks of the kernel.\<close>

datatype lock =
    L_kmem
  | L_ptable
  | L_tickslock
  | L_bcache
  | L_ide
  | L_log
  | L_icache
  | L_ftable
  | L_cons
  | L_pipe u32
  | L_buf_lk nat
  | L_inode_lk nat

text \<open>
  The ways kernel code stops without returning: a call of \<^verbatim>\<open>panic\<close>, the use of a null
  pointer, a loop that never ends, an access to an address that is not mapped, and going to
  sleep on a channel (the code after the sleep runs when another thread wakes it up).
\<close>

datatype kerr =
    Panic string
  | NullDeref
  | Loops
  | PageFault
  | Blocked chan

definition bindE :: "'e + 'a \<Rightarrow> ('a \<Rightarrow> 'e + 'b) \<Rightarrow> 'e + 'b" where
  "bindE m f = (case m of Inl e \<Rightarrow> Inl e | Inr x \<Rightarrow> f x)"

lemma bindE_simps [simp]:
  "bindE (Inl e) f = Inl e"
  "bindE (Inr x) f = f x"
  by (simp_all add: bindE_def)

lemma bindE_eq_Inr_iff: "bindE m f = Inr y \<longleftrightarrow> (\<exists>x. m = Inr x \<and> f x = Inr y)"
  by (cases m) auto

lemma bindE_InrE [elim]:
  assumes "bindE m f = Inr y"
  obtains x where "m = Inr x" "f x = Inr y"
  using assms by (auto simp: bindE_eq_Inr_iff)

lemma bindE_cong [fundef_cong]:
  "m = m' \<Longrightarrow> (\<And>x. m' = Inr x \<Longrightarrow> f x = f' x) \<Longrightarrow> bindE m f = bindE m' f'"
  by (cases m') auto

lemma bindE_assoc: "bindE (bindE m f) g = bindE m (\<lambda>x. bindE (f x) g)"
  by (cases m) auto

text \<open>A run of fallible steps, one per element of a list.\<close>

fun foldE :: "('a \<Rightarrow> 's \<Rightarrow> 'e + 's) \<Rightarrow> 'a list \<Rightarrow> 's \<Rightarrow> 'e + 's" where
  "foldE f [] s = Inr s"
| "foldE f (x # xs) s = bindE (f x s) (foldE f xs)"

lemma foldE_append: "foldE f (xs @ ys) s = bindE (foldE f xs s) (foldE f ys)"
  by (induction xs arbitrary: s) (auto simp: bindE_assoc intro!: bindE_cong)

lemma bindE_Inr [simp]: "bindE m Inr = m"
  by (cases m) auto

lemma foldE_snoc: "foldE f (xs @ [x]) s = bindE (foldE f xs s) (f x)"
proof -
  have "foldE f [x] = f x" by (rule ext) (simp add: bindE_Inr [symmetric] del: bindE_Inr, simp add: bindE_def split: sum.splits)
  then show ?thesis by (simp only: foldE_append)
qed

lemma foldE_total:
  assumes "P s" and "\<And>x s. x \<in> set xs \<Longrightarrow> P s \<Longrightarrow> \<exists>s'. f x s = Inr s' \<and> P s'"
  shows "\<exists>s'. foldE f xs s = Inr s' \<and> P s'"
  using assms
proof (induction xs arbitrary: s)
  case Nil
  then show ?case by simp
next
  case (Cons x xs)
  from Cons.prems obtain s1 where "f x s = Inr s1" "P s1" by (meson list.set_intros(1))
  moreover from Cons.IH [OF \<open>P s1\<close>] Cons.prems(2)
  obtain s2 where "foldE f xs s1 = Inr s2" "P s2" by (meson list.set_intros(2))
  ultimately show ?case by simp
qed

lemma foldE_invariant:
  assumes "foldE f xs s = Inr s'" and "P s"
    and "\<And>x s s'. x \<in> set xs \<Longrightarrow> P s \<Longrightarrow> f x s = Inr s' \<Longrightarrow> P s'"
  shows "P s'"
  using assms
proof (induction xs arbitrary: s)
  case Nil
  then show ?case by simp
next
  case (Cons x xs)
  from Cons.prems(1) obtain s1 where "f x s = Inr s1" "foldE f xs s1 = Inr s'" by auto
  with Cons show ?case by (meson list.set_intros)
qed

section \<open>Table scans\<close>

text \<open>
  \<^verbatim>\<open>for(i = i0; i < N; i++) if(P(table[i])) found: ...\<close>: the index of the first entry, from
  the number of the list's head, that satisfies the condition.
\<close>

fun scan :: "('a \<Rightarrow> bool) \<Rightarrow> nat \<Rightarrow> 'a list \<Rightarrow> nat option" where
  "scan P i [] = None"
| "scan P i (x # xs) = (if P x then Some i else scan P (Suc i) xs)"

lemma scan_None_iff: "scan P i xs = None \<longleftrightarrow> (\<forall>x \<in> set xs. \<not> P x)"
  by (induction xs arbitrary: i) auto

lemma scan_Some_shift:
  "scan P i xs = Some j \<longleftrightarrow>
     (i \<le> j \<and> j < i + length xs \<and> P (xs ! (j - i)) \<and> (\<forall>k < j - i. \<not> P (xs ! k)))"
proof (induction xs arbitrary: i)
  case Nil
  then show ?case by simp
next
  case (Cons x xs)
  show ?case
  proof (cases "P x")
    case True
    have "\<not> (\<forall>k < j - i. \<not> P ((x # xs) ! k))" if "i < j"
      using True that by (auto intro!: exI [of _ 0])
    with True show ?thesis by (cases "i = j") auto
  next
    case False
    have eq: "(x # xs) ! (j - i) = xs ! (j - Suc i)" if "Suc i \<le> j"
      using that by (simp add: nth_Cons' Suc_diff_le)
    have all: "(\<forall>k < j - i. \<not> P ((x # xs) ! k)) \<longleftrightarrow> (\<forall>k < j - Suc i. \<not> P (xs ! k))"
      if "Suc i \<le> j"
      using that False by (auto simp: nth_Cons less_diff_conv split: nat.splits)
    show ?thesis
    proof (cases "Suc i \<le> j")
      case True
      with False Cons eq all show ?thesis by auto
    next
      case not: False
      with False Cons show ?thesis by (cases "j = i") auto
    qed
  qed
qed

lemma scan_Some_iff:
  "scan P 0 xs = Some j \<longleftrightarrow> (j < length xs \<and> P (xs ! j) \<and> (\<forall>k < j. \<not> P (xs ! k)))"
  by (simp add: scan_Some_shift)

lemma scan_SomeD:
  assumes "scan P 0 xs = Some j"
  shows "j < length xs" "P (xs ! j)" "\<And>k. k < j \<Longrightarrow> \<not> P (xs ! k)"
  using assms by (auto simp: scan_Some_iff)

lemma scan_exists:
  assumes "k < length xs" and "P (xs ! k)"
  shows "\<exists>j. scan P 0 xs = Some j"
  using assms scan_None_iff [of P 0 xs] by (cases "scan P 0 xs") auto

section \<open>Invariants of step relations\<close>

text \<open>
  The states reachable from an initial state, and the contract under which a predicate holds
  in all of them. Every state machine of the development instantiates it.
\<close>

inductive reach :: "('s \<Rightarrow> bool) \<Rightarrow> ('s \<Rightarrow> 's \<Rightarrow> bool) \<Rightarrow> 's \<Rightarrow> bool"
  for init step where
  reach_init: "init s \<Longrightarrow> reach init step s"
| reach_step: "reach init step s \<Longrightarrow> step s t \<Longrightarrow> reach init step t"

locale invariant_system =
  fixes init :: "'s \<Rightarrow> bool"
    and step :: "'s \<Rightarrow> 's \<Rightarrow> bool"
    and inv :: "'s \<Rightarrow> bool"
  assumes inv_init: "init s \<Longrightarrow> inv s"
    and inv_step: "inv s \<Longrightarrow> step s t \<Longrightarrow> inv t"
begin

lemma reach_inv: "reach init step s \<Longrightarrow> inv s"
  by (induction rule: reach.induct) (auto intro: inv_init inv_step)

end

section \<open>Words\<close>

lemma unat_u32_bound: "unat (x :: u32) < 4294967296"
  by (rule order_less_le_trans [OF unsigned_less]) simp

lemma unat_of_nat_u32: "n < 4294967296 \<Longrightarrow> unat (of_nat n :: u32) = n"
  by (simp add: unat_of_nat)

lemma unat_add_u32: "unat (x :: u32) + unat y < 4294967296 \<Longrightarrow> unat (x + y) = unat x + unat y"
  by (simp add: unat_word_ariths)

lemma unat_diff_u32: "unat (y :: u32) \<le> unat x \<Longrightarrow> unat (x - y) = unat x - unat y"
  by (simp add: unat_sub_if')

lemma and_not_plus_and: "(a AND NOT m) + (a AND m) = (a :: u32)"
proof -
  have "(a AND NOT m) + (a AND m) = (a AND NOT m) OR (a AND m)"
    by (rule disjunctive_add_eq_or) (auto intro: bit_eqI simp: bit_simps)
  also have "\<dots> = a" by (auto intro!: bit_eqI simp: bit_simps)
  finally show ?thesis .
qed

lemma nth_upd: "xs[i := v] ! j = (if i = j \<and> i < length xs then v else xs ! j)"
  by (cases "i < length xs") (auto simp: nth_list_update list_update_beyond)

section \<open>Lists of lists\<close>

lemma concat_updateE:
  assumes "k < length xss"
  obtains A B where "concat xss = A @ xss ! k @ B" "\<forall>ys. concat (xss[k := ys]) = A @ ys @ B"
proof (rule that)
  show "concat xss = concat (take k xss) @ xss ! k @ concat (drop (Suc k) xss)"
    using id_take_nth_drop [OF assms] by (metis concat.simps(2) concat_append)
  show "\<forall>ys. concat (xss[k := ys]) = concat (take k xss) @ ys @ concat (drop (Suc k) xss)"
    using assms by (simp add: upd_conv_take_nth_drop)
qed

lemma nth_concat_in: "k < length xss \<Longrightarrow> x \<in> set (xss ! k) \<Longrightarrow> x \<in> set (concat xss)"
  by (metis UN_I nth_mem set_concat)

lemma distinct_concat_nth:
  assumes "distinct (concat xss)" and "j < length xss" and "k < length xss"
    and "x \<in> set (xss ! j)" and "x \<in> set (xss ! k)"
  shows "j = k"
proof (rule ccontr)
  assume "j \<noteq> k"
  obtain A B where AB: "concat xss = A @ xss ! k @ B" "\<forall>ys. concat (xss[k := ys]) = A @ ys @ B"
    using assms(3) by (rule concat_updateE)
  have "x \<in> set (concat (xss[k := []]))"
    using assms \<open>j \<noteq> k\<close> by (intro nth_concat_in [of j]) auto
  with AB assms(1,5) show False by auto
qed

lemma distinct_concat_each: "distinct (concat xss) \<Longrightarrow> k < length xss \<Longrightarrow> distinct (xss ! k)"
  by (metis concat_updateE distinct_append)

lemma mset_concat_move:
  assumes "f < length xss" and "t < length xss" and "f \<noteq> t" and "xss ! f = as @ bs"
  shows "mset (concat (xss[f := bs, t := xss ! t @ as])) = mset (concat xss)"
proof -
  obtain A B where AB: "concat xss = A @ xss ! f @ B" "\<forall>ys. concat (xss[f := ys]) = A @ ys @ B"
    using assms(1) by (rule concat_updateE)
  have "t < length (xss[f := bs])" using assms(2) by simp
  then obtain C D where CD: "concat (xss[f := bs]) = C @ xss[f := bs] ! t @ D"
    "\<forall>ys. concat (xss[f := bs, t := ys]) = C @ ys @ D" by (rule concat_updateE)
  have "mset (A @ bs @ B) = mset (C @ xss ! t @ D)" using AB CD assms(3) by simp
  with AB(1) CD(2) assms(4) show ?thesis by simp
qed

end
