(* ===== verification/Mem_String.thy ===== *)
theory Mem_String
  imports Xv6_Prelude
begin

text \<open>
  Memory as a function from 32-bit addresses to bytes, the string instructions of
  \<^verbatim>\<open>x86.h\<close> (\<^verbatim>\<open>stosb\<close>, \<^verbatim>\<open>stosl\<close>) and the kernel's string routines of \<^verbatim>\<open>string.c\<close>. Pointers
  are addresses, so overlapping and wrapping arguments behave as in the code. The lemmas
  give each loop its effect on memory as one equation.
\<close>

type_synonym memory = "u32 \<Rightarrow> u8"

section \<open>Loads and stores\<close>

definition store32 :: "u32 \<Rightarrow> u32 \<Rightarrow> memory \<Rightarrow> memory" where
  "store32 a v m = m(a := ucast v, a + 1 := ucast (drop_bit 8 v),
     a + 2 := ucast (drop_bit 16 v), a + 3 := ucast (drop_bit 24 v))"

definition load32 :: "u32 \<Rightarrow> memory \<Rightarrow> u32" where
  "load32 a m = ucast (m a) OR push_bit 8 (ucast (m (a + 1))) OR
     push_bit 16 (ucast (m (a + 2))) OR push_bit 24 (ucast (m (a + 3)))"

definition bytes_at :: "memory \<Rightarrow> u32 \<Rightarrow> nat \<Rightarrow> u8 list" where
  "bytes_at m a n = map (\<lambda>i. m (a + of_nat i)) [0..<n]"

section \<open>x86.h and string.c\<close>

fun stosb :: "u32 \<Rightarrow> u8 \<Rightarrow> nat \<Rightarrow> memory \<Rightarrow> memory" where
  "stosb a d 0 m = m"
| "stosb a d (Suc n) m = stosb (a + 1) d n (m(a := d))"

fun stosl :: "u32 \<Rightarrow> u32 \<Rightarrow> nat \<Rightarrow> memory \<Rightarrow> memory" where
  "stosl a d 0 m = m"
| "stosl a d (Suc n) m = stosl (a + 4) d n (store32 a d m)"

definition memset :: "u32 \<Rightarrow> u32 \<Rightarrow> u32 \<Rightarrow> memory \<Rightarrow> memory" where
  "memset dst c n m =
     (if dst mod 4 = 0 \<and> n mod 4 = 0 then
        (let c = c AND 0xFF in
         stosl dst (push_bit 24 c OR push_bit 16 c OR push_bit 8 c OR c) (unat (n div 4)) m)
      else stosb dst (ucast c) (unat n) m)"

fun memcmp :: "u32 \<Rightarrow> u32 \<Rightarrow> nat \<Rightarrow> memory \<Rightarrow> int" where
  "memcmp s1 s2 0 m = 0"
| "memcmp s1 s2 (Suc n) m =
     (if m s1 \<noteq> m s2 then uint (m s1) - uint (m s2)
      else memcmp (s1 + 1) (s2 + 1) n m)"

text \<open>The two loops of \<^verbatim>\<open>memmove\<close>: upwards, and downwards from the ends.\<close>

fun copy_up :: "u32 \<Rightarrow> u32 \<Rightarrow> nat \<Rightarrow> memory \<Rightarrow> memory" where
  "copy_up d s 0 m = m"
| "copy_up d s (Suc n) m = copy_up (d + 1) (s + 1) n (m(d := m s))"

fun copy_down :: "u32 \<Rightarrow> u32 \<Rightarrow> nat \<Rightarrow> memory \<Rightarrow> memory" where
  "copy_down d s 0 m = m"
| "copy_down d s (Suc n) m = copy_down (d - 1) (s - 1) n (m(d - 1 := m (s - 1)))"

definition memmove :: "u32 \<Rightarrow> u32 \<Rightarrow> u32 \<Rightarrow> memory \<Rightarrow> memory" where
  "memmove dst src n m =
     (if src < dst \<and> src + n > dst then copy_down (dst + n) (src + n) (unat n) m
      else copy_up dst src (unat n) m)"

definition memcpy :: "u32 \<Rightarrow> u32 \<Rightarrow> u32 \<Rightarrow> memory \<Rightarrow> memory" where
  "memcpy dst src n m = memmove dst src n m"

fun strncmp :: "u32 \<Rightarrow> u32 \<Rightarrow> nat \<Rightarrow> memory \<Rightarrow> int" where
  "strncmp p q 0 m = 0"
| "strncmp p q (Suc n) m =
     (if m p \<noteq> 0 \<and> m p = m q then strncmp (p + 1) (q + 1) n m
      else uint (m p) - uint (m q))"

fun strncpy_loop :: "u32 \<Rightarrow> u32 \<Rightarrow> nat \<Rightarrow> memory \<Rightarrow> memory" where
  "strncpy_loop s t 0 m = m"
| "strncpy_loop s t (Suc n) m =
     (if m t \<noteq> 0 then strncpy_loop (s + 1) (t + 1) n (m(s := m t))
      else stosb (s + 1) 0 n (m(s := m t)))"

definition strncpy :: "u32 \<Rightarrow> u32 \<Rightarrow> int \<Rightarrow> memory \<Rightarrow> memory" where
  "strncpy s t n m = strncpy_loop s t (nat n) m"

fun safestrcpy_loop :: "u32 \<Rightarrow> u32 \<Rightarrow> nat \<Rightarrow> memory \<Rightarrow> memory" where
  "safestrcpy_loop s t 0 m = m(s := 0)"
| "safestrcpy_loop s t (Suc n) m =
     (if m t \<noteq> 0 then safestrcpy_loop (s + 1) (t + 1) n (m(s := m t))
      else m(s := m t, s + 1 := 0))"

definition safestrcpy :: "u32 \<Rightarrow> u32 \<Rightarrow> int \<Rightarrow> memory \<Rightarrow> memory" where
  "safestrcpy s t n m = (if n \<le> 0 then m else safestrcpy_loop s t (nat (n - 1)) m)"

text \<open>The loop of \<^verbatim>\<open>strlen\<close> ends only at a zero byte: \<open>None\<close> if there is none.\<close>

partial_function (option) strlen_from :: "u32 \<Rightarrow> nat \<Rightarrow> memory \<Rightarrow> nat option" where
  "strlen_from s n m =
     (if m (s + of_nat n) = 0 then Some n else strlen_from s (Suc n) m)"

definition strlen :: "u32 \<Rightarrow> memory \<Rightarrow> nat option" where
  "strlen s m = strlen_from s 0 m"

text \<open>A NUL-terminated string in memory.\<close>

definition cstr :: "memory \<Rightarrow> u32 \<Rightarrow> u8 list \<Rightarrow> bool" where
  "cstr m s xs \<longleftrightarrow> bytes_at m s (length xs) = xs \<and> 0 \<notin> set xs \<and> m (s + of_nat (length xs)) = 0"

section \<open>Loads and stores: laws\<close>

lemma u32_add_neq [simp]:
  "(a :: u32) + 1 \<noteq> a" "a + 2 \<noteq> a" "a + 3 \<noteq> a" "a \<noteq> a + 1" "a \<noteq> a + 2" "a \<noteq> a + 3"
  by (simp_all add: eq_commute [of a])

lemma load32_store32 [simp]: "load32 a (store32 a v m) = v"
proof (rule bit_word_eqI)
  fix n
  assume n: "n < LENGTH(32)"
  consider "n < 8" | "8 \<le> n" "n < 16" | "16 \<le> n" "n < 24" | "24 \<le> n" by linarith
  then show "bit (load32 a (store32 a v m)) n = bit v n"
    using n by cases (simp_all add: load32_def store32_def bit_simps less_diff_conv2)
qed

lemma bytes_at_length [simp]: "length (bytes_at m a n) = n"
  by (simp add: bytes_at_def)

lemma bytes_at_nth: "i < n \<Longrightarrow> bytes_at m a n ! i = m (a + of_nat i)"
  by (simp add: bytes_at_def)

lemma bytes_at_0 [simp]: "bytes_at m a 0 = []"
  by (simp add: bytes_at_def)

lemma bytes_at_Suc: "bytes_at m a (Suc n) = m a # bytes_at m (a + 1) n"
  by (rule nth_equalityI) (auto simp: bytes_at_nth nth_Cons algebra_simps split: nat.splits)

text \<open>
  Offsets from an address: the byte at \<open>x\<close> is the \<open>unat (x - a)\<close>-th one from \<open>a\<close>, also
  across the end of the address space.
\<close>

lemma unat_offset_Suc: "x \<noteq> (a :: u32) \<Longrightarrow> unat (x - a) = Suc (unat (x - (a + 1)))"
proof -
  assume "x \<noteq> a"
  then have nz: "x - a \<noteq> 0" by simp
  have "unat (x - (a + 1)) = unat (x - a - 1)" by (simp add: algebra_simps)
  also have "\<dots> = unat (x - a) - 1" using nz by (rule unat_minus_one)
  finally show ?thesis using nz by (metis Suc_pred' unat_gt_0)
qed

lemma stosb_fill:
  "n < 4294967296 \<Longrightarrow> stosb a d n m = (\<lambda>x. if unat (x - a) < n then d else m x)"
proof (induction n arbitrary: a m)
  case 0
  then show ?case by simp
next
  case (Suc n)
  show ?case
  proof
    fix x
    show "stosb a d (Suc n) m x = (if unat (x - a) < Suc n then d else m x)"
      using Suc unat_offset_Suc [of x a] by (cases "x = a") auto
  qed
qed

text \<open>Four equal bytes stored as one word are four byte stores.\<close>

definition rep4 :: "u32 \<Rightarrow> u32" where
  "rep4 c = push_bit 24 c OR push_bit 16 c OR push_bit 8 c OR c"

lemma ucast_rep4:
  assumes "k = 0 \<or> k = 8 \<or> k = 16 \<or> k = 24"
  shows "ucast (drop_bit k (rep4 (b AND 0xFF))) = (ucast b :: u8)"
proof (rule bit_word_eqI)
  fix n
  assume "n < LENGTH(8)"
  moreover from this have "bit (0xFF :: u32) n"
    using bit_mask_iff [where ?'a = u32, of 8 n] by (simp add: mask_eq_exp_minus_1)
  ultimately show "bit (ucast (drop_bit k (rep4 (b AND 0xFF))) :: u8) n = bit (ucast b :: u8) n"
    using assms by (elim disjE) (simp_all add: rep4_def bit_simps)
qed

lemma stosl_rep4: "stosl a (rep4 (b AND 0xFF)) n m = stosb a (ucast b) (4 * n) m"
proof (induction n arbitrary: a m)
  case 0
  then show ?case by simp
next
  case (Suc n)
  have four: "(4 :: nat) = Suc (Suc (Suc (Suc 0)))" by simp
  have "store32 a (rep4 (b AND 0xFF)) m = stosb a (ucast b) 4 m"
    using ucast_rep4 [of 0 b] ucast_rep4 [of 8 b] ucast_rep4 [of 16 b] ucast_rep4 [of 24 b]
    by (simp add: store32_def four add.assoc)
  moreover have "stosb a d (4 + k) m = stosb (a + 4) d k (stosb a d 4 m)" for d k
    by (simp add: four add.assoc)
  ultimately show ?case using Suc by simp
qed

lemma memset_fill: "memset dst c n m = (\<lambda>x. if unat (x - dst) < unat n then ucast c else m x)"
proof (cases "dst mod 4 = 0 \<and> n mod 4 = 0")
  case True
  have "unat (n mod 4) = unat n mod 4" by (simp add: unat_mod_distrib)
  with True have "unat n mod 4 = 0" by simp
  then have "4 * (unat n div 4) = unat n" by presburger
  then have "4 * unat (n div 4) = unat n" by (simp add: unat_div_distrib)
  with True show ?thesis
    by (simp add: memset_def Let_def rep4_def [symmetric] stosl_rep4 stosb_fill unat_u32_bound)
next
  case False
  then show ?thesis by (simp only: memset_def if_False stosb_fill [OF unat_u32_bound])
qed

section \<open>memcmp and memmove\<close>

lemma memcmp_bytes:
  "memcmp a b n m = 0 \<longleftrightarrow> bytes_at m a n = bytes_at m b n"
  by (induction n arbitrary: a b) (auto simp: bytes_at_Suc word_uint_eq_iff)

lemma memcmp_first_difference:
  assumes "k < n" and "\<And>i. i < k \<Longrightarrow> m (a + of_nat i) = m (b + of_nat i)"
    and "m (a + of_nat k) \<noteq> m (b + of_nat k)"
  shows "memcmp a b n m = uint (m (a + of_nat k)) - uint (m (b + of_nat k))"
  using assms
proof (induction n arbitrary: a b k)
  case 0
  then show ?case by simp
next
  case (Suc n)
  show ?case
  proof (cases k)
    case 0
    with Suc.prems show ?thesis by simp
  next
    case (Suc j)
    have "m a = m b" using Suc.prems(2) [of 0] Suc by simp
    moreover have "m (a + 1 + of_nat i) = m (b + 1 + of_nat i)" if "i < j" for i
      using Suc.prems(2) [of "Suc i"] Suc that by (simp add: add.assoc)
    ultimately show ?thesis
      using Suc.IH [of j "a + 1" "b + 1"] Suc.prems Suc by (simp add: add.assoc)
  qed
qed

text \<open>
  The upward loop copies correctly when no destination byte is read after it was written,
  the downward loop in the mirrored case.
\<close>

lemma copy_up_spec:
  assumes "n < 4294967296" and "n \<le> unat (d - s) \<or> d = s"
  shows "copy_up d s n m = (\<lambda>x. if unat (x - d) < n then m (s + (x - d)) else m x)"
  using assms
proof (induction n arbitrary: d s m)
  case 0
  then show ?case by simp
next
  case (Suc n)
  let ?m = "m(d := m s)"
  have IH: "copy_up (d + 1) (s + 1) n ?m =
      (\<lambda>x. if unat (x - (d + 1)) < n then ?m (s + 1 + (x - (d + 1))) else ?m x)"
    using Suc.prems by (intro Suc.IH) auto
  show ?case
  proof
    fix x
    show "copy_up d s (Suc n) m x = (if unat (x - d) < Suc n then m (s + (x - d)) else m x)"
    proof (cases "x = d")
      case True
      with IH show ?thesis by simp
    next
      case False
      have "s + (x - d) \<noteq> d" if "unat (x - d) < Suc n"
      proof
        assume "s + (x - d) = d"
        then have "x - d = d - s" by (simp add: algebra_simps)
        with that Suc.prems(2) False show False by auto
      qed
      moreover have "s + 1 + (x - (d + 1)) = s + (x - d)" by simp
      ultimately show ?thesis
        using IH False unat_offset_Suc [OF False] by auto
    qed
  qed
qed

lemma copy_down_spec:
  assumes "n < 4294967296" and "n \<le> unat (s - d) \<or> s = d"
  shows "copy_down (d + of_nat n) (s + of_nat n) n m =
    (\<lambda>x. if unat (x - d) < n then m (s + (x - d)) else m x)"
  using assms
proof (induction n arbitrary: m)
  case 0
  then show ?case by simp
next
  case (Suc n)
  let ?m = "m(d + of_nat n := m (s + of_nat n))"
  have IH: "copy_down (d + of_nat n) (s + of_nat n) n ?m =
      (\<lambda>x. if unat (x - d) < n then ?m (s + (x - d)) else ?m x)"
    using Suc.prems by (intro Suc.IH) auto
  show ?case
  proof
    fix x
    have last: "unat (x - d) = n \<longleftrightarrow> x = d + of_nat n"
    proof -
      have "unat (x - d) = n \<longleftrightarrow> x - d = of_nat n"
        using Suc.prems(1) by (simp add: word_unat_eq_iff unat_of_nat_u32)
      then show ?thesis by (simp add: diff_eq_eq add.commute)
    qed
    have "s + (x - d) \<noteq> d + of_nat n" if "unat (x - d) < n"
    proof
      assume "s + (x - d) = d + of_nat n"
      then have "s - d = of_nat n - (x - d)" by (simp add: algebra_simps)
      moreover have "unat (of_nat n - (x - d)) = n - unat (x - d)"
        using that Suc.prems(1) by (simp add: unat_diff_u32 unat_of_nat_u32)
      ultimately have "unat (s - d) = n - unat (x - d)" by (simp only:)
      with that Suc.prems show False by auto
    qed
    then show "copy_down (d + of_nat (Suc n)) (s + of_nat (Suc n)) (Suc n) m x =
        (if unat (x - d) < Suc n then m (s + (x - d)) else m x)"
      using IH last by (auto simp: less_Suc_eq)
  qed
qed

lemma memmove_spec:
  assumes "unat src + unat n < 4294967296" and "unat dst + unat n \<le> 4294967296"
  shows "memmove dst src n m = (\<lambda>x. if unat (x - dst) < unat n then m (src + (x - dst)) else m x)"
proof (cases "src < dst \<and> src + n > dst")
  case True
  have "unat n \<le> unat (src - dst)"
    using True assms unat_u32_bound [of dst]
    by (simp add: unat_sub_if' word_less_nat_alt)
  with True show ?thesis
    using copy_down_spec [of "unat n" src dst m] by (simp add: memmove_def unat_u32_bound)
next
  case False
  have "unat n \<le> unat (dst - src) \<or> dst = src"
  proof (cases "src < dst")
    case True
    with False assms have "unat src + unat n \<le> unat dst"
      by (simp add: word_less_nat_alt unat_add_u32)
    then show ?thesis by (intro disjI1) (simp add: unat_diff_u32)
  next
    case ge: False
    then show ?thesis
      using assms unat_u32_bound [of src]
      by (cases "dst = src") (auto simp: unat_sub_if' word_less_nat_alt word_unat_eq_iff)
  qed
  with False show ?thesis
    by (auto simp: memmove_def copy_up_spec unat_u32_bound)
qed

lemma bytes_at_memmove:
  assumes "unat src + unat n < 4294967296" and "unat dst + unat n \<le> 4294967296"
  shows "bytes_at (memmove dst src n m) dst (unat n) = bytes_at m src (unat n)"
  using memmove_spec [OF assms]
  by (intro nth_equalityI) (auto simp: bytes_at_nth unat_of_nat_u32 unat_u32_bound order_less_trans)

section \<open>Strings\<close>

lemma cstr_Nil [simp]: "cstr m s [] \<longleftrightarrow> m s = 0"
  by (simp add: cstr_def)

lemma cstr_Cons: "cstr m s (x # xs) \<longleftrightarrow> m s = x \<and> x \<noteq> 0 \<and> cstr m (s + 1) xs"
  by (auto simp: cstr_def bytes_at_Suc add.assoc)

lemma cstr_unique: "cstr m s xs \<Longrightarrow> cstr m s ys \<Longrightarrow> xs = ys"
proof (induction xs arbitrary: s ys)
  case Nil
  then show ?case by (cases ys) (auto simp: cstr_Cons)
next
  case (Cons x xs)
  then show ?case by (cases ys) (auto simp: cstr_Cons)
qed

lemma strlen_from_cstr:
  "cstr m (s + of_nat n) xs \<Longrightarrow> strlen_from s n m = Some (n + length xs)"
proof (induction xs arbitrary: n)
  case Nil
  then show ?case by (subst strlen_from.simps) simp
next
  case (Cons x xs)
  then have "m (s + of_nat n) \<noteq> 0" "cstr m (s + of_nat (Suc n)) xs"
    by (auto simp: cstr_Cons algebra_simps)
  with Cons.IH show ?case by (subst strlen_from.simps) simp
qed

lemma strlen_cstr: "cstr m s xs \<Longrightarrow> strlen s m = Some (length xs)"
  using strlen_from_cstr [of m s 0 xs] by (simp add: strlen_def)

text \<open>
  \<^verbatim>\<open>strncmp\<close> on the bytes as lists: the reference the directory code is stated over. A list
  that runs out stands for its terminating NUL.
\<close>

fun strncmp_list :: "nat \<Rightarrow> u8 list \<Rightarrow> u8 list \<Rightarrow> int" where
  "strncmp_list 0 xs ys = 0"
| "strncmp_list (Suc n) [] [] = 0"
| "strncmp_list (Suc n) (x # xs) [] = uint x"
| "strncmp_list (Suc n) [] (y # ys) = - uint y"
| "strncmp_list (Suc n) (x # xs) (y # ys) =
     (if x \<noteq> 0 \<and> x = y then strncmp_list n xs ys else uint x - uint y)"

lemma strncmp_cstr:
  "cstr m p xs \<Longrightarrow> cstr m q ys \<Longrightarrow> strncmp p q n m = strncmp_list n xs ys"
proof (induction n xs ys arbitrary: p q rule: strncmp_list.induct)
  case (5 n x xs y ys)
  then show ?case by (auto simp: cstr_Cons)
qed (auto simp: cstr_Cons)

lemma strncmp_list_zero_iff:
  "0 \<notin> set xs \<Longrightarrow> 0 \<notin> set ys \<Longrightarrow> strncmp_list n xs ys = 0 \<longleftrightarrow> take n xs = take n ys"
proof (induction n xs ys rule: strncmp_list.induct)
  case (5 n x xs y ys)
  then show ?case by (auto simp: word_uint_eq_iff)
qed (auto simp: word_uint_eq_iff)

section \<open>Overlapping regions\<close>

text \<open>
  C28: \<^verbatim>\<open>memmove\<close> copies the bytes that were at the source before the call, also when source and destination overlap in either direction, and
  changes no byte outside the destination.
\<close>

theorem memmove_overlap:
  assumes "unat src + unat n < 4294967296" "unat dst + unat n \<le> 4294967296"
  shows "bytes_at (memmove dst src n m) dst (unat n) = bytes_at m src (unat n) \<and>
    (\<forall>x. unat x < unat dst \<or> unat dst + unat n \<le> unat x \<longrightarrow> memmove dst src n m x = m x)"
proof -
  have "\<not> unat (x - dst) < unat n" if "unat x < unat dst \<or> unat dst + unat n \<le> unat x" for x
    using that assms(2) unat_u32_bound [of dst] by (auto simp: unat_sub_if')
  then show ?thesis using bytes_at_memmove [OF assms] memmove_spec [OF assms] by simp
qed

theorem memmove_overlap_witness:
  "bytes_at (memmove 12 10 4 (\<lambda>x. ucast x)) 12 4 = [10, 11, 12, 13] \<and> memmove 12 10 4 (\<lambda>x. ucast x) 16 = 16"
  using memmove_overlap [of 10 4 12 "\<lambda>x. ucast x"] by (auto simp: bytes_at_def upt_rec)

end
