(* ===== verification/Machine.thy ===== *)
theory Machine
  imports Mem_String
begin

text \<open>
  The machine state on which all kernel components are stacked, as the CPU that runs the code
  sees it: memory at kernel virtual addresses, the spin locks this CPU holds, its number, the
  physical address of its page directory and its ring-0 stack pointer. Every component
  extends this record by the globals it adds, so that the operations of a lower component
  apply to the states of the higher ones.

  A spin lock is its membership in \<open>held\<close>: code under a lock runs as if alone, which is what
  \<^verbatim>\<open>spinlock.c\<close> provides (theory \<open>Spinlock\<close>: mutual exclusion, and that the real
  \<^verbatim>\<open>acquire\<close> and \<^verbatim>\<open>release\<close> implement the two operations below).
\<close>

record machine =
  mem :: memory
  held :: "lock set"
  cpu_id :: nat
  cr3 :: u32
  esp0 :: u32

definition acquire :: "lock \<Rightarrow> 'a machine_scheme \<Rightarrow> kerr + 'a machine_scheme" where
  "acquire L s = (if L \<in> held s then Inl (Panic ''acquire'')
     else Inr (s\<lparr>held := insert L (held s)\<rparr>))"

definition release :: "lock \<Rightarrow> 'a machine_scheme \<Rightarrow> kerr + 'a machine_scheme" where
  "release L s = (if L \<notin> held s then Inl (Panic ''release'')
     else Inr (s\<lparr>held := held s - {L}\<rparr>))"

definition holding :: "lock \<Rightarrow> 'a machine_scheme \<Rightarrow> bool" where
  "holding L s \<longleftrightarrow> L \<in> held s"

lemma acquire_Inr_iff:
  "acquire L s = Inr t \<longleftrightarrow> L \<notin> held s \<and> t = s\<lparr>held := insert L (held s)\<rparr>"
  by (auto simp: acquire_def)

lemma release_Inr_iff:
  "release L s = Inr t \<longleftrightarrow> L \<in> held s \<and> t = s\<lparr>held := held s - {L}\<rparr>"
  by (auto simp: release_def)

lemma acquire_free [simp]: "L \<notin> held s \<Longrightarrow> acquire L s = Inr (s\<lparr>held := insert L (held s)\<rparr>)"
  by (simp add: acquire_def)

lemma release_held [simp]: "L \<in> held s \<Longrightarrow> release L s = Inr (s\<lparr>held := held s - {L}\<rparr>)"
  by (simp add: release_def)

lemma acquire_held [simp]: "L \<in> held s \<Longrightarrow> acquire L s = Inl (Panic ''acquire'')"
  by (simp add: acquire_def)

text \<open>Byte order of 32-bit stores: a load from a word that the store does not touch.\<close>

lemma load32_cong:
  "m a = m' a \<Longrightarrow> m (a + 1) = m' (a + 1) \<Longrightarrow> m (a + 2) = m' (a + 2) \<Longrightarrow> m (a + 3) = m' (a + 3)
   \<Longrightarrow> load32 a m = load32 a m'"
  by (simp add: load32_def)

end
