(* ===== verification/Spinlock.thy ===== *)
theory Spinlock
  imports Machine
begin

text \<open>
  \<^verbatim>\<open>spinlock.c\<close> in detail: \<^verbatim>\<open>pushcli\<close>, \<^verbatim>\<open>popcli\<close>, \<^verbatim>\<open>holding\<close> and the atomic steps of
  \<^verbatim>\<open>acquire\<close> and \<^verbatim>\<open>release\<close> on several CPUs, interleaved in any order. The lemmas show mutual
  exclusion, that a CPU which holds a lock runs with interrupts off, and that the two
  routines implement the operations of theory \<open>Machine\<close>.
\<close>

section \<open>State\<close>

record cpu =
  ncli :: int
  intena :: bool
  FL_IF :: bool

record spinlock =
  locked :: u32
  lk_cpu :: "nat option"
  pcs :: "u32 list"

text \<open>
  Where a CPU is: running ordinary code, in the \<^verbatim>\<open>xchg\<close> loop of \<^verbatim>\<open>acquire\<close>, after the loop and
  before \<^verbatim>\<open>lk->cpu = mycpu()\<close>, or in \<^verbatim>\<open>release\<close> between \<^verbatim>\<open>lk->cpu = 0\<close> and the store of 0 to
  \<^verbatim>\<open>lk->locked\<close>. The component \<open>inside\<close> records the critical sections a CPU is in: it has returned
  from \<^verbatim>\<open>acquire\<close> and not yet called \<^verbatim>\<open>release\<close>. The code never reads it.
\<close>

datatype phase = Run | Spin lock | Got lock | Rel lock

record spin_state =
  sp_mem :: memory
  cpus :: "nat \<Rightarrow> cpu"
  locks :: "lock \<Rightarrow> spinlock"
  phase :: "nat \<Rightarrow> phase"
  inside :: "nat \<Rightarrow> lock set"

section \<open>Operations\<close>

definition initlock :: "spinlock" where
  "initlock = \<lparr>locked = 0, lk_cpu = None, pcs = replicate 10 0\<rparr>"

definition pushcli :: "nat \<Rightarrow> spin_state \<Rightarrow> spin_state" where
  "pushcli c s =
     (let k = cpus s c;
          eflags = FL_IF k;
          k = k\<lparr>FL_IF := False\<rparr>;
          k = (if ncli k = 0 then k\<lparr>intena := eflags\<rparr> else k)
      in s\<lparr>cpus := (cpus s)(c := k\<lparr>ncli := ncli k + 1\<rparr>)\<rparr>)"

definition popcli :: "nat \<Rightarrow> spin_state \<Rightarrow> kerr + spin_state" where
  "popcli c s =
     (if FL_IF (cpus s c) then Inl (Panic ''popcli - interruptible'')
      else
       (let k = (cpus s c)\<lparr>ncli := ncli (cpus s c) - 1\<rparr> in
        if ncli k < 0 then Inl (Panic ''popcli'')
        else Inr (s\<lparr>cpus := (cpus s)(c :=
          (if ncli k = 0 \<and> intena k then k\<lparr>FL_IF := True\<rparr> else k))\<rparr>)))"

definition holding_cpu :: "nat \<Rightarrow> lock \<Rightarrow> spin_state \<Rightarrow> kerr + bool \<times> spin_state" where
  "holding_cpu c L s =
     (let s = pushcli c s;
          r = (locked (locks s L) \<noteq> 0 \<and> lk_cpu (locks s L) = Some c)
      in bindE (popcli c s) (\<lambda>s. Inr (r, s)))"

text \<open>\<^verbatim>\<open>getcallerpcs\<close>: the return addresses found by following saved frame pointers.\<close>

fun pcs_loop :: "memory \<Rightarrow> nat \<Rightarrow> u32 \<Rightarrow> u32 list" where
  "pcs_loop m 0 ebp = []"
| "pcs_loop m (Suc n) ebp =
     (if ebp = 0 \<or> ebp < 0x80000000 \<or> ebp = 0xffffffff then replicate (Suc n) 0
      else load32 (ebp + 4) m # pcs_loop m n (load32 ebp m))"

definition getcallerpcs :: "u32 \<Rightarrow> memory \<Rightarrow> u32 list" where
  "getcallerpcs v m = pcs_loop m 10 (v - 8)"

text \<open>\<^verbatim>\<open>acquire\<close> in three atomic parts: up to the loop, one \<^verbatim>\<open>xchg\<close>, and what follows the loop.\<close>

definition acquire_begin :: "nat \<Rightarrow> lock \<Rightarrow> spin_state \<Rightarrow> kerr + spin_state" where
  "acquire_begin c L s =
     bindE (holding_cpu c L (pushcli c s)) (\<lambda>(h, s).
       if h then Inl (Panic ''acquire'') else Inr (s\<lparr>phase := (phase s)(c := Spin L)\<rparr>))"

definition acquire_xchg :: "nat \<Rightarrow> lock \<Rightarrow> spin_state \<Rightarrow> spin_state" where
  "acquire_xchg c L s =
     (let old = locked (locks s L);
          s = s\<lparr>locks := (locks s)(L := (locks s L)\<lparr>locked := 1\<rparr>)\<rparr>
      in if old \<noteq> 0 then s else s\<lparr>phase := (phase s)(c := Got L)\<rparr>)"

definition acquire_end :: "nat \<Rightarrow> lock \<Rightarrow> u32 \<Rightarrow> spin_state \<Rightarrow> spin_state" where
  "acquire_end c L lkp s =
     s\<lparr>locks := (locks s)(L := (locks s L)\<lparr>lk_cpu := Some c, pcs := getcallerpcs lkp (sp_mem s)\<rparr>),
       phase := (phase s)(c := Run),
       inside := (inside s)(c := insert L (inside s c))\<rparr>"

text \<open>\<^verbatim>\<open>release\<close> in two: clearing the owner, and the store that opens the lock with \<^verbatim>\<open>popcli\<close>.\<close>

definition release_begin :: "nat \<Rightarrow> lock \<Rightarrow> spin_state \<Rightarrow> kerr + spin_state" where
  "release_begin c L s =
     bindE (holding_cpu c L s) (\<lambda>(h, s).
       if \<not> h then Inl (Panic ''release'')
       else Inr (s\<lparr>locks := (locks s)(L := (locks s L)\<lparr>pcs := (pcs (locks s L))[0 := 0], lk_cpu := None\<rparr>),
                   phase := (phase s)(c := Rel L),
                   inside := (inside s)(c := inside s c - {L})\<rparr>))"

definition release_end :: "nat \<Rightarrow> lock \<Rightarrow> spin_state \<Rightarrow> kerr + spin_state" where
  "release_end c L s =
     popcli c (s\<lparr>locks := (locks s)(L := (locks s L)\<lparr>locked := 0\<rparr>),
                 phase := (phase s)(c := Run)\<rparr>)"

section \<open>Interleaved steps\<close>

definition spin_init :: "spin_state \<Rightarrow> bool" where
  "spin_init s \<longleftrightarrow> (\<forall>c. phase s c = Run \<and> inside s c = {} \<and> ncli (cpus s c) = 0) \<and>
     (\<forall>L. locks s L = initlock)"

text \<open>
  One atomic step of some CPU. Besides the parts of the two routines a CPU may run
  \<^verbatim>\<open>sti\<close> or \<^verbatim>\<open>cli\<close> when it is in no critical section, and nested \<^verbatim>\<open>pushcli\<close>/\<^verbatim>\<open>popcli\<close> pairs
  (\<^verbatim>\<open>myproc\<close>) leave no trace.
\<close>

inductive spin_step :: "spin_state \<Rightarrow> spin_state \<Rightarrow> bool" where
  st_acquire: "phase s c = Run \<Longrightarrow> acquire_begin c L s = Inr t \<Longrightarrow> spin_step s t"
| st_xchg: "phase s c = Spin L \<Longrightarrow> spin_step s (acquire_xchg c L s)"
| st_acquired: "phase s c = Got L \<Longrightarrow> spin_step s (acquire_end c L lkp s)"
| st_release: "phase s c = Run \<Longrightarrow> release_begin c L s = Inr t \<Longrightarrow> spin_step s t"
| st_released: "phase s c = Rel L \<Longrightarrow> release_end c L s = Inr t \<Longrightarrow> spin_step s t"
| st_flag: "phase s c = Run \<Longrightarrow> ncli (cpus s c) = 0 \<Longrightarrow>
    spin_step s (s\<lparr>cpus := (cpus s)(c := (cpus s c)\<lparr>FL_IF := b\<rparr>)\<rparr>)"

section \<open>Invariant\<close>

text \<open>The locks a CPU has closed: those of its critical sections and the one it is passing.\<close>

definition owns :: "spin_state \<Rightarrow> nat \<Rightarrow> lock set" where
  "owns s c = inside s c \<union> (case phase s c of Got L \<Rightarrow> {L} | Rel L \<Rightarrow> {L} | _ \<Rightarrow> {})"

text \<open>What a CPU counts: its critical sections and the routine it is in.\<close>

definition depth :: "spin_state \<Rightarrow> nat \<Rightarrow> nat" where
  "depth s c = card (inside s c) + (if phase s c = Run then 0 else 1)"

definition spin_inv :: "spin_state \<Rightarrow> bool" where
  "spin_inv s \<longleftrightarrow>
     (\<forall>c. finite (inside s c) \<and> ncli (cpus s c) = int (depth s c) \<and>
        (0 < depth s c \<longrightarrow> \<not> FL_IF (cpus s c)) \<and>
        (\<forall>L. L \<in> inside s c \<longrightarrow> phase s c \<noteq> Spin L \<and> phase s c \<noteq> Got L \<and> phase s c \<noteq> Rel L)) \<and>
     (\<forall>L. (locked (locks s L) \<noteq> 0 \<longleftrightarrow> (\<exists>c. L \<in> owns s c)) \<and>
        (\<forall>c. lk_cpu (locks s L) = Some c \<longleftrightarrow> L \<in> inside s c)) \<and>
     (\<forall>c d L. L \<in> owns s c \<and> L \<in> owns s d \<longrightarrow> c = d)"

lemma spin_invD:
  assumes "spin_inv s"
  shows "finite (inside s c)" "ncli (cpus s c) = int (depth s c)"
    "0 < depth s c \<Longrightarrow> \<not> FL_IF (cpus s c)"
    "L \<in> inside s c \<Longrightarrow> phase s c \<noteq> Spin L \<and> phase s c \<noteq> Got L \<and> phase s c \<noteq> Rel L"
    "locked (locks s L) \<noteq> 0 \<longleftrightarrow> (\<exists>c. L \<in> owns s c)"
    "lk_cpu (locks s L) = Some c \<longleftrightarrow> L \<in> inside s c"
    "L \<in> owns s c \<Longrightarrow> L \<in> owns s d \<Longrightarrow> c = d"
  using assms unfolding spin_inv_def by blast+

lemma spin_inv_init: "spin_init s \<Longrightarrow> spin_inv s"
  by (auto simp: spin_init_def spin_inv_def owns_def depth_def initlock_def)

lemma pushcli_sel [simp]:
  "locks (pushcli c s) = locks s" "phase (pushcli c s) = phase s" "inside (pushcli c s) = inside s"
  "sp_mem (pushcli c s) = sp_mem s"
  "ncli (cpus (pushcli c s) d) = ncli (cpus s d) + (if d = c then 1 else 0)"
  "FL_IF (cpus (pushcli c s) d) = (FL_IF (cpus s d) \<and> d \<noteq> c)"
  "d \<noteq> c \<Longrightarrow> cpus (pushcli c s) d = cpus s d"
  by (auto simp: pushcli_def Let_def)

lemma cpu_flag_id [simp]: "FL_IF k = b \<Longrightarrow> k\<lparr>FL_IF := b\<rparr> = k"
  by (cases k) simp

lemma popcli_pushcli:
  "0 \<le> ncli (cpus s c) \<Longrightarrow> popcli c (pushcli c s) =
     Inr (s\<lparr>cpus := (cpus s)(c := (cpus s c)
       \<lparr>intena := (if ncli (cpus s c) = 0 then FL_IF (cpus s c) else intena (cpus s c)),
        FL_IF := (if ncli (cpus s c) = 0 then FL_IF (cpus s c) else False)\<rparr>)\<rparr>)"
  by (auto simp: popcli_def pushcli_def Let_def)

lemma spin_state_cpus_id [simp]: "s\<lparr>cpus := (cpus s)(c := cpus s c)\<rparr> = s"
  by simp

text \<open>Inside a \<^verbatim>\<open>pushcli\<close>, \<^verbatim>\<open>holding\<close> changes nothing.\<close>

lemma holding_nested:
  assumes "0 < ncli (cpus s c)" and "\<not> FL_IF (cpus s c)"
  shows "holding_cpu c L s = Inr (locked (locks s L) \<noteq> 0 \<and> lk_cpu (locks s L) = Some c, s)"
proof -
  have "popcli c (pushcli c s) = Inr s"
    using assms popcli_pushcli [of s c] by simp
  then show ?thesis by (simp add: holding_cpu_def Let_def)
qed

lemma holding_inv:
  assumes "spin_inv s" and "0 < ncli (cpus s c)"
  shows "holding_cpu c L s = Inr (L \<in> inside s c, s)"
proof -
  have "\<not> FL_IF (cpus s c)" using assms spin_invD(2,3) [of s c] by simp
  moreover have "(locked (locks s L) \<noteq> 0 \<and> lk_cpu (locks s L) = Some c) = (L \<in> inside s c)"
    using spin_invD(5,6) [OF assms(1), of L] by (auto simp: owns_def)
  ultimately show ?thesis using holding_nested assms(2) by simp
qed

lemma acquire_begin_inv:
  assumes "spin_inv s"
  shows "acquire_begin c L s =
    (if L \<in> inside s c then Inl (Panic ''acquire'')
     else Inr ((pushcli c s)\<lparr>phase := (phase s)(c := Spin L)\<rparr>))"
proof -
  have "(locked (locks s L) \<noteq> 0 \<and> lk_cpu (locks s L) = Some c) = (L \<in> inside s c)"
    using spin_invD(5,6) [OF assms, of L] by (auto simp: owns_def)
  moreover have "0 \<le> ncli (cpus s c)" using spin_invD(2) [OF assms] by simp
  ultimately show ?thesis
    by (simp add: acquire_begin_def holding_nested)
qed

lemma release_begin_inv:
  assumes "spin_inv s" and "release_begin c L s = Inr t" and "phase s c = Run"
  shows "L \<in> inside s c"
    "t = s\<lparr>locks := (locks s)(L := (locks s L)\<lparr>pcs := (pcs (locks s L))[0 := 0], lk_cpu := None\<rparr>),
           phase := (phase s)(c := Rel L), inside := (inside s)(c := inside s c - {L})\<rparr>"
proof -
  have nn: "0 \<le> ncli (cpus s c)" using spin_invD(2) [OF assms(1)] by simp
  show *: "L \<in> inside s c"
    using assms(2) nn spin_invD(5,6) [OF assms(1), of L]
    by (auto simp: release_begin_def holding_cpu_def popcli_pushcli Let_def split: if_splits)
  then have "0 < ncli (cpus s c)"
    using spin_invD(1,2) [OF assms(1), of c] by (auto simp: depth_def card_gt_0_iff)
  then show "t = s\<lparr>locks := (locks s)(L := (locks s L)\<lparr>pcs := (pcs (locks s L))[0 := 0], lk_cpu := None\<rparr>),
           phase := (phase s)(c := Rel L), inside := (inside s)(c := inside s c - {L})\<rparr>"
    using assms(2) * by (simp add: release_begin_def holding_inv [OF assms(1)])
qed

section \<open>The invariant is kept\<close>

lemma owns_upd:
  "owns (s\<lparr>phase := (phase s)(c := ph)\<rparr>) d =
     (if d = c then inside s c \<union> (case ph of Got L \<Rightarrow> {L} | Rel L \<Rightarrow> {L} | _ \<Rightarrow> {}) else owns s d)"
  by (simp add: owns_def)

lemma spin_inv_acquire:
  assumes "spin_inv s" and "phase s c = Run" and "acquire_begin c L s = Inr t"
  shows "spin_inv t"
proof -
  have L: "L \<notin> inside s c" and t: "t = (pushcli c s)\<lparr>phase := (phase s)(c := Spin L)\<rparr>"
    using assms(3) by (simp_all add: acquire_begin_inv [OF assms(1)] split: if_splits)
  have owns: "owns t = owns s" using assms(2) by (intro ext) (auto simp: t owns_def)
  show ?thesis
    unfolding spin_inv_def owns
    using assms(2) L spin_invD [OF assms(1)] by (auto simp: t depth_def)
qed

lemma spin_inv_xchg:
  assumes "spin_inv s" and "phase s c = Spin L"
  shows "spin_inv (acquire_xchg c L s)"
proof (cases "locked (locks s L) = 0")
  case True
  have free: "\<forall>d. L \<notin> owns s d" using True spin_invD(5) [OF assms(1)] by blast
  have owns: "owns (acquire_xchg c L s) d = (if d = c then insert L (owns s c) else owns s d)" for d
    using True assms(2) by (auto simp: acquire_xchg_def owns_def)
  have lk: "locked (locks (acquire_xchg c L s) M) \<noteq> 0 \<longleftrightarrow> M = L \<or> locked (locks s M) \<noteq> 0"
    "lk_cpu (locks (acquire_xchg c L s) M) = lk_cpu (locks s M)" for M
    by (auto simp: acquire_xchg_def Let_def)
  have cpu: "cpus (acquire_xchg c L s) = cpus s" "inside (acquire_xchg c L s) = inside s"
    "phase (acquire_xchg c L s) = (phase s)(c := Got L)"
    using True by (auto simp: acquire_xchg_def Let_def)
  have "L \<notin> inside s c" using free by (auto simp: owns_def)
  moreover have "depth (acquire_xchg c L s) d = depth s d" for d
    using assms(2) by (simp add: depth_def cpu)
  ultimately show ?thesis
    unfolding spin_inv_def owns lk cpu using assms(2) free spin_invD [OF assms(1)]
    by (auto split: if_splits) metis
next
  case False
  then have "owns (acquire_xchg c L s) = owns s" "depth (acquire_xchg c L s) = depth s"
    by (auto simp: acquire_xchg_def Let_def owns_def depth_def)
  with False show ?thesis
    unfolding spin_inv_def using spin_invD [OF assms(1)]
    by (auto simp: acquire_xchg_def Let_def)
qed

lemma spin_inv_acquired:
  assumes "spin_inv s" and "phase s c = Got L"
  shows "spin_inv (acquire_end c L lkp s)"
proof -
  have mine: "L \<in> owns s c" using assms(2) by (simp add: owns_def)
  then have "L \<notin> inside s d" for d
    using spin_invD(7) [OF assms(1) mine, of d] spin_invD(4) [OF assms(1), of L c] assms(2)
    by (auto simp: owns_def)
  note out = this
  have owns: "owns (acquire_end c L lkp s) = owns s"
    using assms(2) by (intro ext) (auto simp: owns_def acquire_end_def)
  have "depth (acquire_end c L lkp s) d = depth s d" for d
    using assms out spin_invD(1) [OF assms(1), of c] by (auto simp: depth_def acquire_end_def)
  then show ?thesis
    unfolding spin_inv_def owns using assms(2) out spin_invD [OF assms(1)]
    by (auto simp: acquire_end_def)
qed

lemma spin_inv_release:
  assumes "spin_inv s" and "phase s c = Run" and "release_begin c L s = Inr t"
  shows "spin_inv t"
proof -
  note r = release_begin_inv [OF assms(1,3,2)]
  have out: "L \<notin> inside s d" if "d \<noteq> c" for d
    using spin_invD(7) [OF assms(1), of L c d] r(1) that by (auto simp: owns_def)
  have owns: "owns t = owns s" using assms(2) r by (intro ext) (auto simp: owns_def)
  have "card (inside s c) = Suc (card (inside s c - {L}))"
    using spin_invD(1) [OF assms(1)] r(1) by (rule card.remove)
  then have "depth t d = depth s d" for d
    using assms(2) by (auto simp: depth_def r(2))
  then show ?thesis
    unfolding spin_inv_def owns using assms(2) r(1) out spin_invD [OF assms(1)]
    by (auto simp: r(2))
qed

lemma spin_inv_released:
  assumes "spin_inv s" and "phase s c = Rel L" and "release_end c L s = Inr t"
  shows "spin_inv t"
proof -
  have mine: "L \<in> owns s c" using assms(2) by (simp add: owns_def)
  then have only: "L \<notin> owns s d" if "d \<noteq> c" for d
    using spin_invD(7) [OF assms(1) mine, of d] that by auto
  have out: "L \<notin> inside s d" for d
    using only [of d] spin_invD(4) [OF assms(1), of L c] assms(2) by (auto simp: owns_def)
  have n: "ncli (cpus s c) = int (card (inside s c)) + 1"
    using spin_invD(2) [OF assms(1), of c] assms(2) by (simp add: depth_def)
  have t: "inside t = inside s" "phase t = (phase s)(c := Run)"
    "ncli (cpus t d) = ncli (cpus s d) - (if d = c then 1 else 0)"
    "d \<noteq> c \<Longrightarrow> cpus t d = cpus s d"
    "inside s c \<noteq> {} \<Longrightarrow> \<not> FL_IF (cpus t c)"
    "locks t = (locks s)(L := (locks s L)\<lparr>locked := 0\<rparr>)" for d
    using assms(3) n spin_invD(1) [OF assms(1), of c]
    by (auto simp: release_end_def popcli_def Let_def card_gt_0_iff split: if_splits)
  have owns: "owns t d = (if d = c then owns s c - {L} else owns s d)" for d
    using assms(2) out by (auto simp: owns_def t)
  have depth: "depth t d = (if d = c then card (inside s c) else depth s d)" for d
    by (auto simp: depth_def t)
  show ?thesis
    unfolding spin_inv_def owns
    using assms(2) n out only depth spin_invD [OF assms(1)] t
    by (auto simp: card_gt_0_iff split: if_splits) metis
qed

lemma spin_inv_flag:
  assumes "spin_inv s" and "phase s c = Run" and "ncli (cpus s c) = 0"
  shows "spin_inv (s\<lparr>cpus := (cpus s)(c := (cpus s c)\<lparr>FL_IF := b\<rparr>)\<rparr>)"
proof -
  let ?t = "s\<lparr>cpus := (cpus s)(c := (cpus s c)\<lparr>FL_IF := b\<rparr>)\<rparr>"
  have "owns ?t = owns s" "depth ?t = depth s" by (auto simp: owns_def depth_def)
  then show ?thesis
    unfolding spin_inv_def using assms(3) spin_invD [OF assms(1)] by auto
qed

lemmas spin_inv_steps = spin_inv_acquire spin_inv_xchg spin_inv_acquired spin_inv_release
  spin_inv_released spin_inv_flag

interpretation spin: invariant_system spin_init spin_step spin_inv
proof unfold_locales
  show "spin_inv s" if "spin_init s" for s using that by (rule spin_inv_init)
  show "spin_inv t" if "spin_inv s" "spin_step s t" for s t
    using that(2,1) by cases (auto intro: spin_inv_steps)
qed

text \<open>
  C4: Mutual exclusion. In every state that any number of CPUs can reach through the steps
  of acquire and release, no lock is in the critical section of two CPUs.
\<close>

theorem spin_mutual_exclusion:
  assumes "reach spin_init spin_step s" and "L \<in> inside s c" and "L \<in> inside s d"
  shows "c = d"
  using spin_invD(7) [OF spin.reach_inv [OF assms(1)], of L c d] assms(2,3)
  by (auto simp: owns_def)

text \<open>
  C22: A CPU that is inside a critical section, or in acquire or release, runs with
  interrupts off and its pushcli depth is the number of those sections: an interrupt handler
  cannot spin on a lock that its own CPU holds.
\<close>

theorem spin_interrupts_off:
  assumes "reach spin_init spin_step s" and "inside s c \<noteq> {} \<or> phase s c \<noteq> Run"
  shows "\<not> FL_IF (cpus s c) \<and>
    ncli (cpus s c) = int (card (inside s c)) + (if phase s c = Run then 0 else 1)"
  using spin_invD(1-3) [OF spin.reach_inv [OF assms(1)], of c] assms(2)
  by (auto simp: depth_def card_gt_0_iff)

text \<open>A run: CPU 0 takes a lock, CPU 1 starts to spin on it.\<close>

definition spin_boot :: spin_state where
  "spin_boot = \<lparr>sp_mem = (\<lambda>_. 0), cpus = (\<lambda>_. \<lparr>ncli = 0, intena = False, FL_IF = True\<rparr>),
     locks = (\<lambda>_. initlock), phase = (\<lambda>_. Run), inside = (\<lambda>_. {})\<rparr>"

definition spin_run :: spin_state where
  "spin_run = acquire_end 0 L_kmem 0 (acquire_xchg 0 L_kmem
     ((pushcli 0 spin_boot)\<lparr>phase := (\<lambda>_. Run)(0 := Spin L_kmem)\<rparr>))"

lemma spin_run_reach: "reach spin_init spin_step spin_run"
proof -
  let ?s = "(pushcli 0 spin_boot)\<lparr>phase := (\<lambda>_. Run)(0 := Spin L_kmem)\<rparr>"
  have r0: "reach spin_init spin_step spin_boot"
    by (rule reach_init) (simp add: spin_init_def spin_boot_def)
  have "acquire_begin 0 L_kmem spin_boot = Inr ?s"
    using acquire_begin_inv [OF spin.reach_inv [OF r0], of 0 L_kmem] by (simp add: spin_boot_def)
  with r0 have "reach spin_init spin_step ?s"
    by (elim reach_step) (rule st_acquire [of _ 0], auto simp: spin_boot_def)
  then have "reach spin_init spin_step (acquire_xchg 0 L_kmem ?s)"
    by (rule reach_step) (rule st_xchg, simp)
  then show ?thesis
    unfolding spin_run_def
    by (rule reach_step) (rule st_acquired, simp add: acquire_xchg_def spin_boot_def initlock_def)
qed

lemma spin_run_inside: "inside spin_run 0 = {L_kmem}"
  by (simp add: spin_run_def acquire_end_def acquire_xchg_def Let_def spin_boot_def initlock_def)

lemma spin_run_phase: "phase spin_run 0 = Run"
  by (simp add: spin_run_def acquire_end_def)

theorem spin_mutual_exclusion_witness:
  "reach spin_init spin_step spin_run \<and> L_kmem \<in> inside spin_run 0 \<and> L_kmem \<notin> inside spin_run 1"
  using spin_mutual_exclusion [OF spin_run_reach, of L_kmem 0 1] spin_run_reach spin_run_inside by auto

theorem spin_interrupts_off_witness:
  "reach spin_init spin_step spin_run \<and> \<not> FL_IF (cpus spin_run 0) \<and> ncli (cpus spin_run 0) = 1"
  using spin_interrupts_off [OF spin_run_reach, of 0] spin_run_reach spin_run_inside spin_run_phase
  by simp

section \<open>The abstract operations\<close>

text \<open>The whole routine on a CPU whose lock is not contended (spinning for ever otherwise).\<close>

definition acquire_cpu :: "nat \<Rightarrow> lock \<Rightarrow> u32 \<Rightarrow> spin_state \<Rightarrow> kerr + spin_state" where
  "acquire_cpu c L lkp s =
     bindE (acquire_begin c L s) (\<lambda>s.
       if locked (locks s L) \<noteq> 0 then Inl Loops
       else Inr (acquire_end c L lkp (acquire_xchg c L s)))"

definition release_cpu :: "nat \<Rightarrow> lock \<Rightarrow> spin_state \<Rightarrow> kerr + spin_state" where
  "release_cpu c L s = bindE (release_begin c L s) (release_end c L)"

text \<open>A machine state shows the locks CPU \<open>c\<close> holds in the detailed state.\<close>

definition lock_view :: "nat \<Rightarrow> spin_state \<Rightarrow> 'a machine_scheme \<Rightarrow> bool" where
  "lock_view c s k \<longleftrightarrow> held k = inside s c"

lemma acquire_refines:
  assumes "spin_inv s" and "phase s c = Run" and "lock_view c s k"
    and "\<And>d. d \<noteq> c \<Longrightarrow> L \<notin> owns s d"
  shows "(\<exists>e. acquire_cpu c L lkp s = Inl e \<and> acquire L k = Inl e) \<or>
    (\<exists>t k'. acquire_cpu c L lkp s = Inr t \<and> acquire L k = Inr k' \<and>
       spin_inv t \<and> phase t c = Run \<and> lock_view c t k')"
proof (cases "L \<in> inside s c")
  case True
  with assms show ?thesis
    by (simp add: acquire_cpu_def acquire_begin_inv lock_view_def)
next
  case False
  let ?s = "(pushcli c s)\<lparr>phase := (phase s)(c := Spin L)\<rparr>"
  let ?t = "acquire_end c L lkp (acquire_xchg c L ?s)"
  have b: "acquire_begin c L s = Inr ?s" using assms(1) False by (simp add: acquire_begin_inv)
  have "L \<notin> owns s d" for d using assms(2,4) False by (cases "d = c") (auto simp: owns_def)
  then have free: "locked (locks s L) = 0" using spin_invD(5) [OF assms(1)] by blast
  have inv: "spin_inv ?s" using spin_inv_acquire [OF assms(1,2) b] .
  have ph: "phase (acquire_xchg c L ?s) c = Got L" using free by (simp add: acquire_xchg_def)
  have "spin_inv ?t" using spin_inv_acquired [OF spin_inv_xchg [OF inv] ph] by simp
  then show ?thesis
    using False assms(3) free b
    by (simp add: acquire_cpu_def lock_view_def acquire_end_def acquire_xchg_def)
qed

lemma release_refines:
  assumes "spin_inv s" and "phase s c = Run" and "lock_view c s k" and "L \<in> inside s c"
  shows "\<exists>t k'. release_cpu c L s = Inr t \<and> release L k = Inr k' \<and>
       spin_inv t \<and> phase t c = Run \<and> lock_view c t k' \<and>
       (ncli (cpus t c) = 0 \<longrightarrow> FL_IF (cpus t c) = intena (cpus s c))"
proof -
  have pos: "0 < ncli (cpus s c)"
    using spin_invD(1,2) [OF assms(1), of c] assms(4) by (auto simp: depth_def card_gt_0_iff)
  then have nif: "\<not> FL_IF (cpus s c)" using spin_invD(2,3) [OF assms(1), of c] by simp
  obtain s1 where s1: "release_begin c L s = Inr s1"
    using assms(4) pos by (simp add: release_begin_def holding_inv [OF assms(1)])
  note r = release_begin_inv [OF assms(1) s1 assms(2)]
  obtain t where t: "release_end c L s1 = Inr t"
    using pos nif by (auto simp: release_end_def popcli_def Let_def r(2))
  have "spin_inv t"
    using spin_inv_released [OF spin_inv_release [OF assms(1,2) s1] _ t] by (simp add: r(2))
  moreover have "phase t c = Run" "inside t c = inside s c - {L}"
    "ncli (cpus t c) = 0 \<longrightarrow> FL_IF (cpus t c) = intena (cpus s c)"
    using t nif by (auto simp: release_end_def popcli_def Let_def r(2) split: if_splits)
  ultimately show ?thesis
    using assms(3,4) s1 t by (auto simp: release_cpu_def lock_view_def)
qed

end
