(* ===== verification/Kalloc.thy ===== *)
theory Kalloc
  imports Machine
begin

text \<open>
  The physical page allocator of \<^verbatim>\<open>kalloc.c\<close> with the address arithmetic of \<^verbatim>\<open>memlayout.h\<close>
  and \<^verbatim>\<open>mmu.h\<close>. The free list is threaded through the free pages themselves, as in the code;
  \<open>kmem_inv\<close> ties it to the list of the free pages. The allocator's contract is the locale
  \<open>page_allocator\<close>, over which the code that uses pages is reasoned about.
\<close>

section \<open>Addresses (memlayout.h, mmu.h)\<close>

definition EXTMEM :: u32 where "EXTMEM = 0x100000"
definition PHYSTOP :: u32 where "PHYSTOP = 0xE000000"
definition DEVSPACE :: u32 where "DEVSPACE = 0xFE000000"
definition KERNBASE :: u32 where "KERNBASE = 0x80000000"
definition KERNLINK :: u32 where "KERNLINK = KERNBASE + EXTMEM"
definition PGSIZE :: u32 where "PGSIZE = 4096"

definition V2P :: "u32 \<Rightarrow> u32" where "V2P a = a - KERNBASE"
definition P2V :: "u32 \<Rightarrow> u32" where "P2V a = a + KERNBASE"

definition PGROUNDUP :: "u32 \<Rightarrow> u32" where
  "PGROUNDUP sz = (sz + PGSIZE - 1) AND NOT (PGSIZE - 1)"

definition PGROUNDDOWN :: "u32 \<Rightarrow> u32" where
  "PGROUNDDOWN a = a AND NOT (PGSIZE - 1)"

lemmas addr_defs = EXTMEM_def PHYSTOP_def DEVSPACE_def KERNBASE_def KERNLINK_def PGSIZE_def
  V2P_def P2V_def

lemma V2P_P2V [simp]: "V2P (P2V a) = a" "P2V (V2P a) = a"
  by (simp_all add: V2P_def P2V_def)

section \<open>The allocator\<close>

text \<open>\<open>kend\<close> is the linker's \<^verbatim>\<open>end\<close>, the first address after the kernel; nothing writes it.\<close>

record kmem = machine +
  use_lock :: bool
  freelist :: u32
  kend :: u32

definition kmem_acquire :: "'a kmem_scheme \<Rightarrow> kerr + 'a kmem_scheme" where
  "kmem_acquire s = (if use_lock s then acquire L_kmem s else Inr s)"

definition kmem_release :: "'a kmem_scheme \<Rightarrow> kerr + 'a kmem_scheme" where
  "kmem_release s = (if use_lock s then release L_kmem s else Inr s)"

definition kfree :: "u32 \<Rightarrow> 'a kmem_scheme \<Rightarrow> kerr + 'a kmem_scheme" where
  "kfree v s =
     (if v mod PGSIZE \<noteq> 0 \<or> v < kend s \<or> V2P v \<ge> PHYSTOP then Inl (Panic ''kfree'')
      else
        bindE (kmem_acquire (s\<lparr>mem := memset v 1 PGSIZE (mem s)\<rparr>)) (\<lambda>s.
        kmem_release (s\<lparr>mem := store32 v (freelist s) (mem s), freelist := v\<rparr>)))"

definition kalloc :: "'a kmem_scheme \<Rightarrow> kerr + u32 \<times> 'a kmem_scheme" where
  "kalloc s =
     bindE (kmem_acquire s) (\<lambda>s.
       let r = freelist s;
           s = (if r \<noteq> 0 then s\<lparr>freelist := load32 r (mem s)\<rparr> else s)
       in bindE (kmem_release s) (\<lambda>s. Inr (r, s)))"

lemma kfree_Inr_page: "kfree v s = Inr t \<Longrightarrow> v mod PGSIZE = 0 \<and> kend s \<le> v \<and> V2P v < PHYSTOP"
  by (auto simp: kfree_def split: if_splits)

lemma V2P_less_PHYSTOP: "V2P v < PHYSTOP \<longleftrightarrow> 0x80000000 \<le> unat v \<and> unat v < 0x8E000000"
  using unat_u32_bound [of v]
  by (simp add: addr_defs word_less_nat_alt unat_sub_if' word_le_nat_alt) arith

function freerange_loop :: "u32 \<Rightarrow> u32 \<Rightarrow> 'a kmem_scheme \<Rightarrow> kerr + 'a kmem_scheme" where
  "freerange_loop p vend s =
     (if p + PGSIZE \<le> vend then bindE (kfree p s) (freerange_loop (p + PGSIZE) vend)
      else Inr s)"
  by pat_completeness auto
termination
proof (relation "measure (\<lambda>(p, _, _). 0x8E000000 + 4096 - unat p)", simp, clarsimp)
  fix p vend :: u32 and s t :: "'a kmem_scheme"
  assume "kfree p s = Inr t"
  then have "unat p < 0x8E000000" using kfree_Inr_page V2P_less_PHYSTOP by blast
  moreover from this have "unat (p + PGSIZE) = unat p + 4096"
    by (simp add: PGSIZE_def unat_add_u32)
  ultimately show "2382368768 - unat (p + PGSIZE) < 2382368768 - unat p" by simp
qed

declare freerange_loop.simps [simp del]

definition freerange :: "u32 \<Rightarrow> u32 \<Rightarrow> 'a kmem_scheme \<Rightarrow> kerr + 'a kmem_scheme" where
  "freerange vstart vend s = freerange_loop (PGROUNDUP vstart) vend s"

definition kinit1 :: "u32 \<Rightarrow> u32 \<Rightarrow> 'a kmem_scheme \<Rightarrow> kerr + 'a kmem_scheme" where
  "kinit1 vstart vend s = freerange vstart vend (s\<lparr>use_lock := False\<rparr>)"

definition kinit2 :: "u32 \<Rightarrow> u32 \<Rightarrow> 'a kmem_scheme \<Rightarrow> kerr + 'a kmem_scheme" where
  "kinit2 vstart vend s =
     bindE (freerange vstart vend s) (\<lambda>s. Inr (s\<lparr>use_lock := True\<rparr>))"

section \<open>Pages\<close>

definition in_page :: "u32 \<Rightarrow> u32 \<Rightarrow> bool" where
  "in_page v x \<longleftrightarrow> unat (x - v) < 4096"

definition valid_page :: "u32 \<Rightarrow> u32 \<Rightarrow> bool" where
  "valid_page e v \<longleftrightarrow> v mod PGSIZE = 0 \<and> e \<le> v \<and> V2P v < PHYSTOP"

lemma page_aligned_unat: "v mod PGSIZE = 0 \<longleftrightarrow> unat v mod 4096 = 0"
  by (simp add: PGSIZE_def word_unat_eq_iff unat_mod_distrib)

lemma page_alignedE:
  assumes "v mod PGSIZE = 0"
  obtains q where "unat v = 4096 * q" "q \<le> 1048575"
proof -
  obtain q where "unat v = 4096 * q"
    using assms by (auto simp: page_aligned_unat mod_eq_0_iff_dvd)
  then show thesis using that unat_u32_bound [of v] by simp
qed

lemma valid_page_nz [simp]: "valid_page e v \<Longrightarrow> v \<noteq> 0"
  by (auto simp: valid_page_def V2P_less_PHYSTOP)

lemma page_plus_unat:
  assumes "v mod PGSIZE = 0" and "k < 4096"
  shows "unat (v + of_nat k) = unat v + k"
proof -
  have "unat v + k < 4294967296"
    using assms(1) by (rule page_alignedE) (use assms(2) in simp)
  then show ?thesis using assms(2) by (simp add: unat_add_u32 unat_of_nat_u32)
qed

lemma pages_disjoint:
  assumes "p mod PGSIZE = 0" and "v mod PGSIZE = 0" and "p \<noteq> v" and "in_page p x"
  shows "\<not> in_page v x"
proof
  assume "in_page v x"
  have "unat x = unat p + unat (x - p)" "unat x = unat v + unat (x - v)"
    using page_plus_unat [OF assms(1), of "unat (x - p)"] assms(4)
      page_plus_unat [OF assms(2), of "unat (x - v)"] \<open>in_page v x\<close>
    by (simp_all add: in_page_def)
  then have "unat p + unat (x - p) = unat v + unat (x - v)" by simp
  moreover obtain a where "unat p = 4096 * a" using assms(1) by (rule page_alignedE)
  moreover obtain b where "unat v = 4096 * b" using assms(2) by (rule page_alignedE)
  ultimately have "unat p = unat v"
    using assms(4) \<open>in_page v x\<close> unfolding in_page_def
    by (cases a b rule: linorder_cases) simp_all
  with assms(3) show False by (simp add: word_unat_eq_iff)
qed

lemma in_page_offsets [simp]: "in_page v v" "in_page v (v + 1)" "in_page v (v + 2)" "in_page v (v + 3)"
  by (simp_all add: in_page_def)

text \<open>What a store into page \<open>v\<close> leaves alone.\<close>

definition same_outside :: "u32 \<Rightarrow> memory \<Rightarrow> memory \<Rightarrow> bool" where
  "same_outside v m m' \<longleftrightarrow> (\<forall>x. \<not> in_page v x \<longrightarrow> m' x = m x)"

lemma same_outside_load32:
  assumes "same_outside v m m'" and "p mod PGSIZE = 0" and "v mod PGSIZE = 0" and "p \<noteq> v"
  shows "load32 p m' = load32 p m"
  using assms pages_disjoint [OF assms(2-4)]
  by (intro load32_cong) (auto simp: same_outside_def)

section \<open>The free list\<close>

fun free_chain :: "memory \<Rightarrow> u32 \<Rightarrow> u32 list \<Rightarrow> bool" where
  "free_chain m r [] \<longleftrightarrow> r = 0"
| "free_chain m r (p # ps) \<longleftrightarrow> r = p \<and> p \<noteq> 0 \<and> free_chain m (load32 p m) ps"

text \<open>The allocator's lock is free whenever the allocator is called with locking on.\<close>

definition kmem_ok :: "'a kmem_scheme \<Rightarrow> bool" where
  "kmem_ok s \<longleftrightarrow> (use_lock s \<longrightarrow> L_kmem \<notin> held s)"

definition kmem_inv :: "'a kmem_scheme \<Rightarrow> u32 list \<Rightarrow> bool" where
  "kmem_inv s ps \<longleftrightarrow> kmem_ok s \<and> free_chain (mem s) (freelist s) ps \<and> distinct ps \<and>
     list_all (valid_page (kend s)) ps"

lemma kalloc_eq:
  "kmem_ok s \<Longrightarrow> kalloc s = Inr (freelist s,
     if freelist s \<noteq> 0 then s\<lparr>freelist := load32 (freelist s) (mem s)\<rparr> else s)"
  by (auto simp: kalloc_def kmem_acquire_def kmem_release_def kmem_ok_def Let_def)

lemma kfree_eq:
  "kmem_ok s \<Longrightarrow> valid_page (kend s) v \<Longrightarrow> kfree v s =
     Inr (s\<lparr>mem := store32 v (freelist s) (memset v 1 PGSIZE (mem s)), freelist := v\<rparr>)"
  by (auto simp: kfree_def kmem_acquire_def kmem_release_def kmem_ok_def valid_page_def)

lemma kfree_invalid: "\<not> valid_page (kend s) v \<Longrightarrow> kfree v s = Inl (Panic ''kfree'')"
  unfolding kfree_def valid_page_def by (simp only: not_less not_le de_Morgan_conj) (simp add: not_le)

lemma same_outside_free: "same_outside v m (store32 v w (memset v c PGSIZE m))"
  by (auto simp: same_outside_def in_page_def store32_def memset_fill PGSIZE_def)

lemma free_chain_same_outside:
  assumes "same_outside v m m'" and "v mod PGSIZE = 0" and "v \<notin> set ps"
    and "list_all (valid_page e) ps" and "free_chain m r ps"
  shows "free_chain m' r ps"
  using assms
proof (induction ps arbitrary: r)
  case Nil
  then show ?case by simp
next
  case (Cons p ps)
  then have "load32 p m' = load32 p m"
    by (intro same_outside_load32 [OF Cons.prems(1)]) (auto simp: valid_page_def)
  with Cons show ?case by simp
qed

lemma kfree_inv:
  assumes "kmem_inv s ps" and "valid_page (kend s) v" and "v \<notin> set ps"
  shows "\<exists>t. kfree v s = Inr t \<and> kmem_inv t (v # ps) \<and> same_outside v (mem s) (mem t) \<and> kend t = kend s"
proof -
  let ?m = "store32 v (freelist s) (memset v 1 PGSIZE (mem s))"
  have "free_chain ?m (freelist s) ps"
    using free_chain_same_outside [OF same_outside_free, of v ps "kend s" "mem s" "freelist s"] assms
    by (simp add: kmem_inv_def valid_page_def)
  then show ?thesis
    using assms same_outside_free
    by (simp add: kmem_inv_def kfree_eq kmem_ok_def)
qed

lemma kalloc_inv_Cons:
  assumes "kmem_inv s (p # ps)"
  shows "\<exists>t. kalloc s = Inr (p, t) \<and> kmem_inv t ps \<and> mem t = mem s \<and> kend t = kend s"
  using assms by (auto simp: kmem_inv_def kalloc_eq kmem_ok_def)

lemma kalloc_inv_Nil: "kmem_inv s [] \<Longrightarrow> kalloc s = Inr (0, s)"
  by (simp add: kmem_inv_def kalloc_eq)

text \<open>The allocator changes memory and the head of the free list, nothing else.\<close>

definition kframe :: "'a kmem_scheme \<Rightarrow> 'a kmem_scheme \<Rightarrow> bool" where
  "kframe s t \<longleftrightarrow> t = s\<lparr>mem := mem t, freelist := freelist t\<rparr>"

lemma kframe_refl [simp]: "kframe s s"
  by (simp add: kframe_def)

lemma kframe_mem [simp]: "kframe s (s\<lparr>mem := m\<rparr>)" "kframe s (s\<lparr>mem := m, freelist := r\<rparr>)"
  "kframe s (s\<lparr>freelist := r\<rparr>)"
  by (simp_all add: kframe_def)

lemma kframe_trans [trans]: "kframe s t \<Longrightarrow> kframe t u \<Longrightarrow> kframe s u"
  unfolding kframe_def by (cases s, cases t, cases u) simp

lemma kframe_mem_iff [simp]: "kframe (s\<lparr>mem := m\<rparr>) t \<longleftrightarrow> kframe s t"
  unfolding kframe_def by (cases s, cases t) simp

lemma kframe_upd_mem [simp]: "kframe s (t\<lparr>mem := m\<rparr>) \<longleftrightarrow> kframe s t"
  unfolding kframe_def by (cases s, cases t) simp

lemma kfree_frame: "kfree v s = Inr t \<Longrightarrow> kframe s t"
  by (auto simp: kfree_def kmem_acquire_def kmem_release_def acquire_def release_def
      split: if_splits)

lemma kalloc_frame: "kalloc s = Inr (r, t) \<Longrightarrow> kframe s t"
  by (auto simp: kalloc_def kmem_acquire_def kmem_release_def acquire_def release_def Let_def
      split: if_splits)

section \<open>The contract of a page allocator\<close>

locale page_allocator =
  fixes alloc :: "'s \<Rightarrow> kerr + u32 \<times> 's"
    and free :: "u32 \<Rightarrow> 's \<Rightarrow> kerr + 's"
    and inv :: "'s \<Rightarrow> u32 list \<Rightarrow> bool"
    and page :: "'s \<Rightarrow> u32 \<Rightarrow> bool"
  assumes alloc_Cons: "inv s (p # ps) \<Longrightarrow> \<exists>t. alloc s = Inr (p, t) \<and> inv t ps \<and> page t = page s"
    and alloc_Nil: "inv s [] \<Longrightarrow> alloc s = Inr (0, s)"
    and free_page: "inv s ps \<Longrightarrow> page s v \<Longrightarrow> v \<notin> set ps \<Longrightarrow>
      \<exists>t. free v s = Inr t \<and> inv t (v # ps) \<and> page t = page s"
    and inv_pages: "inv s ps \<Longrightarrow> distinct ps \<and> list_all (page s) ps"
    and page_nz: "page s v \<Longrightarrow> v \<noteq> 0"
begin

text \<open>
  A client and the allocator together: the pages the client has and the allocator's state.
  The client takes a page, or gives back one that it has.
\<close>

inductive client :: "u32 list \<times> 's \<Rightarrow> u32 list \<times> 's \<Rightarrow> bool" where
  take_page: "alloc s = Inr (p, t) \<Longrightarrow> p \<noteq> 0 \<Longrightarrow> client (us, s) (p # us, t)"
| no_page: "alloc s = Inr (0, t) \<Longrightarrow> client (us, s) (us, t)"
| give_back: "v \<in> set us \<Longrightarrow> free v s = Inr t \<Longrightarrow> client (us, s) (remove1 v us, t)"

definition consistent :: "u32 set \<Rightarrow> u32 list \<times> 's \<Rightarrow> bool" where
  "consistent U = (\<lambda>(us, s). \<exists>ps. inv s ps \<and> distinct (us @ ps) \<and>
     set us \<union> set ps = U \<and> list_all (page s) us)"

lemma consistent_step: "client x y \<Longrightarrow> consistent U x \<Longrightarrow> consistent U y"
proof (induction rule: client.induct)
  case (take_page s p t us)
  then obtain ps where ps: "inv s ps" "distinct (us @ ps)" "set us \<union> set ps = U"
    "list_all (page s) us" by (auto simp: consistent_def)
  show ?case
  proof (cases ps)
    case Nil
    with ps take_page show ?thesis using alloc_Nil [of s] by auto
  next
    case (Cons q qs)
    with ps take_page alloc_Cons [of s q qs] inv_pages [OF ps(1)]
    show ?thesis by (auto simp: consistent_def intro!: exI [of _ qs])
  qed
next
  case (no_page s t us)
  then obtain ps where ps: "inv s ps" "distinct (us @ ps)" "set us \<union> set ps = U"
    "list_all (page s) us" by (auto simp: consistent_def)
  show ?case
  proof (cases ps)
    case Nil
    with ps no_page show ?thesis using alloc_Nil [of s] by (auto simp: consistent_def)
  next
    case (Cons q qs)
    with ps no_page alloc_Cons [of s q qs] inv_pages [OF ps(1)] page_nz [of s q]
    show ?thesis by auto
  qed
next
  case (give_back v us s t)
  then obtain ps where ps: "inv s ps" "distinct (us @ ps)" "set us \<union> set ps = U"
    "list_all (page s) us" by (auto simp: consistent_def)
  then have "page s v" "v \<notin> set ps" using give_back(1) by (auto simp: list_all_iff)
  then have "inv t (v # ps)" "page t = page s" using free_page [OF ps(1), of v] give_back(2) by auto
  with ps give_back(1) show ?case
    by (auto simp: consistent_def list_all_iff intro!: exI [of _ "v # ps"] dest: in_set_remove1 [THEN iffD1])
qed

lemma client_consistent: "client\<^sup>*\<^sup>* x y \<Longrightarrow> consistent U x \<Longrightarrow> consistent U y"
  by (induction rule: rtranclp_induct) (auto intro: consistent_step)

lemma client_pages:
  assumes "client\<^sup>*\<^sup>* ([], s) (us, t)" and "inv s ps"
  shows "\<exists>qs. inv t qs \<and> distinct (us @ qs) \<and> set us \<union> set qs = set ps"
proof -
  have "consistent (set ps) ([], s)" using assms(2) inv_pages by (auto simp: consistent_def)
  from client_consistent [OF assms(1) this] show ?thesis by (auto simp: consistent_def)
qed

end

interpretation kalloc: page_allocator kalloc kfree kmem_inv "\<lambda>s. valid_page (kend s)"
proof unfold_locales
  show "\<exists>t. kalloc s = Inr (p, t) \<and> kmem_inv t ps \<and> valid_page (kend t) = valid_page (kend s)"
    if "kmem_inv s (p # ps)" for s :: "'a kmem_scheme" and p ps
    using kalloc_inv_Cons [OF that] by auto
  show "\<exists>t. kfree v s = Inr t \<and> kmem_inv t (v # ps) \<and> valid_page (kend t) = valid_page (kend s)"
    if "kmem_inv s ps" "valid_page (kend s) v" "v \<notin> set ps" for s :: "'a kmem_scheme" and ps v
    using kfree_inv [OF that] by auto
qed (auto simp: kalloc_inv_Nil kmem_inv_def)

section \<open>Initialisation\<close>

text \<open>The \<open>n\<close> pages from \<open>p\<close> on.\<close>

fun page_run :: "u32 \<Rightarrow> nat \<Rightarrow> u32 list" where
  "page_run p 0 = []"
| "page_run p (Suc n) = p # page_run (p + PGSIZE) n"

lemma page_run_unat:
  assumes "unat p + 4096 * n < 4294967296"
  shows "map unat (page_run p n) = map (\<lambda>i. unat p + 4096 * i) [0..<n]"
  using assms
proof (induction n arbitrary: p)
  case 0
  then show ?case by simp
next
  case (Suc n)
  then have "unat (p + PGSIZE) = unat p + 4096" by (simp add: PGSIZE_def unat_add_u32)
  with Suc have "map unat (page_run (p + PGSIZE) n) = map (\<lambda>i. unat p + 4096 * Suc i) [0..<n]"
    by (simp add: add.assoc)
  then show ?case by (simp add: map_upt_Suc del: upt_Suc)
qed

lemma page_run_later:
  assumes "unat p + 4096 * n < 4294967296" and "q \<in> set (page_run p n)"
  shows "unat p \<le> unat q"
proof -
  from assms(2) have "unat q \<in> set (map unat (page_run p n))" by simp
  with page_run_unat [OF assms(1)] show ?thesis by auto
qed

lemma freerange_loop_pages:
  assumes "kmem_inv s ps" and "p mod PGSIZE = 0" and "kend s \<le> p" and "0x80000000 \<le> unat p"
    and "unat vend \<le> 0x8E000000"
    and "unat p + 4096 * n \<le> unat vend" and "unat vend < unat p + 4096 * n + 4096"
    and "set (page_run p n) \<inter> set ps = {}"
  shows "\<exists>t. freerange_loop p vend s = Inr t \<and> kmem_inv t (rev (page_run p n) @ ps) \<and> kend t = kend s"
  using assms
proof (induction n arbitrary: p s ps)
  case 0
  then have "unat (p + PGSIZE) = unat p + 4096" by (simp add: PGSIZE_def unat_add_u32)
  with 0 show ?case by (subst freerange_loop.simps) (simp add: word_le_nat_alt)
next
  case (Suc n)
  have up: "unat (p + PGSIZE) = unat p + 4096" using Suc.prems by (simp add: PGSIZE_def unat_add_u32)
  have "valid_page (kend s) p"
    using Suc.prems by (simp add: valid_page_def V2P_less_PHYSTOP)
  then obtain t where t: "kfree p s = Inr t" "kmem_inv t (p # ps)" "kend t = kend s"
    using kfree_inv [OF Suc.prems(1), of p] Suc.prems(8) by auto
  have "p \<notin> set (page_run (p + PGSIZE) n)"
    using page_run_later [of "p + PGSIZE" n p] Suc.prems(5,6) up by auto
  moreover have "kend s \<le> p + PGSIZE" "(p + PGSIZE) mod PGSIZE = 0"
    using Suc.prems(2,3) up by (simp_all add: word_le_nat_alt page_aligned_unat mod_add_eq [symmetric])
  ultimately have "\<exists>u. freerange_loop (p + PGSIZE) vend t = Inr u \<and>
      kmem_inv u (rev (page_run (p + PGSIZE) n) @ p # ps) \<and> kend u = kend t"
    using Suc.prems t up by (intro Suc.IH) auto
  then show ?case
    using t Suc.prems(6) up by (subst freerange_loop.simps) (simp add: word_le_nat_alt)
qed

end
