(* ===== verification/VM.thy ===== *)
theory VM
  imports Kalloc
begin

text \<open>
  Two-level page tables (\<^verbatim>\<open>vm.c\<close>, with the macros of \<^verbatim>\<open>mmu.h\<close>). Directories and tables are pages
  of memory that the kernel reads and writes at their kernel virtual addresses; a table entry
  is located by its address, 0 for the null pointer. Loops over a range of virtual addresses
  stop with \<^const>\<open>Loops\<close> where the C loop would pass the end of the address space.
\<close>

section \<open>Page table entries (mmu.h)\<close>

definition PTE_P :: u32 where "PTE_P = 1"
definition PTE_W :: u32 where "PTE_W = 2"
definition PTE_U :: u32 where "PTE_U = 4"

definition PDX :: "u32 \<Rightarrow> u32" where "PDX va = drop_bit 22 va AND 0x3FF"
definition PTX :: "u32 \<Rightarrow> u32" where "PTX va = drop_bit 12 va AND 0x3FF"
definition PTE_ADDR :: "u32 \<Rightarrow> u32" where "PTE_ADDR pte = pte AND NOT 0xFFF"
definition PTE_FLAGS :: "u32 \<Rightarrow> u32" where "PTE_FLAGS pte = pte AND 0xFFF"
definition PGADDR :: "u32 \<Rightarrow> u32 \<Rightarrow> u32 \<Rightarrow> u32" where
  "PGADDR d t ofs = push_bit 22 d OR push_bit 12 t OR ofs"

definition NPDENTRIES :: nat where "NPDENTRIES = 1024"
definition KSTACKSIZE :: u32 where "KSTACKSIZE = 4096"

section \<open>State\<close>

text \<open>\<open>kdata\<close> is the linker's \<^verbatim>\<open>data\<close>, the start of the kernel's data; nothing writes it.\<close>

record vm = kmem +
  kpgdir :: u32
  kdata :: u32

abbreviation store :: "u32 \<Rightarrow> u32 \<Rightarrow> 'a machine_scheme \<Rightarrow> 'a machine_scheme" where
  "store a v s \<equiv> s\<lparr>mem := store32 a v (mem s)\<rparr>"

abbreviation load :: "u32 \<Rightarrow> 'a machine_scheme \<Rightarrow> u32" where
  "load a s \<equiv> load32 a (mem s)"

section \<open>Operations\<close>

definition walkpgdir :: "u32 \<Rightarrow> u32 \<Rightarrow> bool \<Rightarrow> 'a kmem_scheme \<Rightarrow> kerr + u32 \<times> 'a kmem_scheme" where
  "walkpgdir pgdir va alloc s =
     (let pde = pgdir + 4 * PDX va in
      if load pde s AND PTE_P \<noteq> 0 then Inr (P2V (PTE_ADDR (load pde s)) + 4 * PTX va, s)
      else if \<not> alloc then Inr (0, s)
      else bindE (kalloc s) (\<lambda>(pgtab, s).
        if pgtab = 0 then Inr (0, s)
        else
          (let s = s\<lparr>mem := memset pgtab 0 PGSIZE (mem s)\<rparr>;
               s = store pde (V2P pgtab OR PTE_P OR PTE_W OR PTE_U) s
           in Inr (pgtab + 4 * PTX va, s))))"

function mappages_loop ::
  "u32 \<Rightarrow> u32 \<Rightarrow> u32 \<Rightarrow> u32 \<Rightarrow> u32 \<Rightarrow> 'a kmem_scheme \<Rightarrow> kerr + int \<times> 'a kmem_scheme" where
  "mappages_loop pgdir a lastp pa perm s =
     bindE (walkpgdir pgdir a True s) (\<lambda>(pte, s).
       if pte = 0 then Inr (-1, s)
       else if load pte s AND PTE_P \<noteq> 0 then Inl (Panic ''remap'')
       else
         (let s = store pte (pa OR perm OR PTE_P) s in
          if a = lastp then Inr (0, s)
          else if lastp - a < PGSIZE then Inl Loops
          else mappages_loop pgdir (a + PGSIZE) lastp (pa + PGSIZE) perm s))"
  by pat_completeness auto
termination
proof (relation "measure (\<lambda>(_, a, lastp, _, _, _). unat (lastp - a))", simp, clarsimp)
  fix a lastp :: u32
  assume "\<not> lastp - a < PGSIZE"
  then have "unat PGSIZE \<le> unat (lastp - a)" by (simp add: word_less_nat_alt)
  then have "unat (lastp - a - PGSIZE) = unat (lastp - a) - unat PGSIZE" by (rule unat_diff_u32)
  moreover have "0 < unat PGSIZE" by (simp add: PGSIZE_def)
  ultimately show "unat (lastp - (a + PGSIZE)) < unat (lastp - a)"
    using \<open>unat PGSIZE \<le> unat (lastp - a)\<close> by (simp add: diff_diff_eq)
qed

declare mappages_loop.simps [simp del]

definition mappages ::
  "u32 \<Rightarrow> u32 \<Rightarrow> u32 \<Rightarrow> u32 \<Rightarrow> u32 \<Rightarrow> 'a kmem_scheme \<Rightarrow> kerr + int \<times> 'a kmem_scheme" where
  "mappages pgdir va sz pa perm s =
     mappages_loop pgdir (PGROUNDDOWN va) (PGROUNDDOWN (va + sz - 1)) pa perm s"

function deallocuvm_loop :: "u32 \<Rightarrow> u32 \<Rightarrow> u32 \<Rightarrow> 'a kmem_scheme \<Rightarrow> kerr + 'a kmem_scheme" where
  "deallocuvm_loop pgdir a oldsz s =
     (if \<not> a < oldsz then Inr s
      else bindE (walkpgdir pgdir a False s) (\<lambda>(pte, s).
        let a' = (if pte = 0 then PGADDR (PDX a + 1) 0 0 else a + PGSIZE) in
        bindE
          (if pte \<noteq> 0 \<and> load pte s AND PTE_P \<noteq> 0 then
             (if PTE_ADDR (load pte s) = 0 then Inl (Panic ''kfree'')
              else bindE (kfree (P2V (PTE_ADDR (load pte s))) s) (\<lambda>s. Inr (store pte 0 s)))
           else Inr s)
          (\<lambda>s. if a' \<le> a then Inl Loops else deallocuvm_loop pgdir a' oldsz s)))"
  by pat_completeness auto
termination
  by (relation "measure (\<lambda>(_, a, oldsz, _). unat oldsz - unat a)")
    (auto simp: Let_def word_less_nat_alt word_le_nat_alt)

declare deallocuvm_loop.simps [simp del]

definition deallocuvm :: "u32 \<Rightarrow> u32 \<Rightarrow> u32 \<Rightarrow> 'a kmem_scheme \<Rightarrow> kerr + u32 \<times> 'a kmem_scheme" where
  "deallocuvm pgdir oldsz newsz s =
     (if newsz \<ge> oldsz then Inr (oldsz, s)
      else bindE (deallocuvm_loop pgdir (PGROUNDUP newsz) oldsz s) (\<lambda>s. Inr (newsz, s)))"

text \<open>The loop of \<^verbatim>\<open>freevm\<close> over the directory frees the page tables it finds there.\<close>

definition freevm_entry :: "u32 \<Rightarrow> nat \<Rightarrow> 'a kmem_scheme \<Rightarrow> kerr + 'a kmem_scheme" where
  "freevm_entry pgdir i s =
     (let pde = load (pgdir + 4 * of_nat i) s in
      if pde AND PTE_P \<noteq> 0 then kfree (P2V (PTE_ADDR pde)) s else Inr s)"

definition freevm :: "u32 \<Rightarrow> 'a kmem_scheme \<Rightarrow> kerr + 'a kmem_scheme" where
  "freevm pgdir s =
     (if pgdir = 0 then Inl (Panic ''freevm: no pgdir'')
      else bindE (deallocuvm pgdir KERNBASE 0 s) (\<lambda>(_, s).
           bindE (foldE (freevm_entry pgdir) [0..<NPDENTRIES] s) (kfree pgdir)))"

record kmap_entry =
  virt :: u32
  phys_start :: u32
  phys_end :: u32
  perm :: u32

definition kmap :: "u32 \<Rightarrow> kmap_entry list" where
  "kmap data =
    [\<lparr>virt = KERNBASE, phys_start = 0, phys_end = EXTMEM, perm = PTE_W\<rparr>,
     \<lparr>virt = KERNLINK, phys_start = V2P KERNLINK, phys_end = V2P data, perm = 0\<rparr>,
     \<lparr>virt = data, phys_start = V2P data, phys_end = PHYSTOP, perm = PTE_W\<rparr>,
     \<lparr>virt = DEVSPACE, phys_start = DEVSPACE, phys_end = 0, perm = PTE_W\<rparr>]"

fun setupkvm_loop :: "u32 \<Rightarrow> kmap_entry list \<Rightarrow> 'a kmem_scheme \<Rightarrow> kerr + u32 \<times> 'a kmem_scheme" where
  "setupkvm_loop pgdir [] s = Inr (pgdir, s)"
| "setupkvm_loop pgdir (k # ks) s =
     bindE (mappages pgdir (virt k) (phys_end k - phys_start k) (phys_start k) (perm k) s) (\<lambda>(r, s).
       if r < 0 then bindE (freevm pgdir s) (\<lambda>s. Inr (0, s))
       else setupkvm_loop pgdir ks s)"

definition setupkvm :: "'a vm_scheme \<Rightarrow> kerr + u32 \<times> 'a vm_scheme" where
  "setupkvm s =
     bindE (kalloc s) (\<lambda>(pgdir, s).
       if pgdir = 0 then Inr (0, s)
       else
        (let s = s\<lparr>mem := memset pgdir 0 PGSIZE (mem s)\<rparr> in
         if P2V PHYSTOP > DEVSPACE then Inl (Panic ''PHYSTOP too high'')
         else setupkvm_loop pgdir (kmap (kdata s)) s))"

definition switchkvm :: "'a vm_scheme \<Rightarrow> 'a vm_scheme" where
  "switchkvm s = s\<lparr>cr3 := V2P (kpgdir s)\<rparr>"

definition kvmalloc :: "'a vm_scheme \<Rightarrow> kerr + 'a vm_scheme" where
  "kvmalloc s = bindE (setupkvm s) (\<lambda>(d, s). Inr (switchkvm (s\<lparr>kpgdir := d\<rparr>)))"

text \<open>\<^verbatim>\<open>inituvm\<close> does not test the result of \<^verbatim>\<open>kalloc\<close> or \<^verbatim>\<open>mappages\<close>; \<open>init\<close> is a kernel address.\<close>

definition inituvm :: "u32 \<Rightarrow> u32 \<Rightarrow> u32 \<Rightarrow> 'a kmem_scheme \<Rightarrow> kerr + 'a kmem_scheme" where
  "inituvm pgdir init sz s =
     (if sz \<ge> PGSIZE then Inl (Panic ''inituvm: more than a page'')
      else bindE (kalloc s) (\<lambda>(p, s).
        if p = 0 then Inl NullDeref
        else
          bindE (mappages pgdir 0 PGSIZE (V2P p) (PTE_W OR PTE_U)
                   (s\<lparr>mem := memset p 0 PGSIZE (mem s)\<rparr>)) (\<lambda>(_, s).
          Inr (s\<lparr>mem := memmove p init sz (mem s)\<rparr>))))"

function allocuvm_loop ::
  "u32 \<Rightarrow> u32 \<Rightarrow> u32 \<Rightarrow> u32 \<Rightarrow> 'a kmem_scheme \<Rightarrow> kerr + u32 \<times> 'a kmem_scheme" where
  "allocuvm_loop pgdir a oldsz newsz s =
     (if \<not> a < newsz then Inr (newsz, s)
      else bindE (kalloc s) (\<lambda>(p, s).
        if p = 0 then bindE (deallocuvm pgdir newsz oldsz s) (\<lambda>(_, s). Inr (0, s))
        else
          bindE (mappages pgdir a PGSIZE (V2P p) (PTE_W OR PTE_U)
                   (s\<lparr>mem := memset p 0 PGSIZE (mem s)\<rparr>)) (\<lambda>(r, s).
            if r < 0 then
              bindE (deallocuvm pgdir newsz oldsz s) (\<lambda>(_, s).
              bindE (kfree p s) (\<lambda>s. Inr (0, s)))
            else if a + PGSIZE \<le> a then Inl Loops
            else allocuvm_loop pgdir (a + PGSIZE) oldsz newsz s)))"
  by pat_completeness auto
termination
  by (relation "measure (\<lambda>(_, a, _, newsz, _). unat newsz - unat a)")
    (auto simp: word_less_nat_alt word_le_nat_alt)

declare allocuvm_loop.simps [simp del]

definition allocuvm :: "u32 \<Rightarrow> u32 \<Rightarrow> u32 \<Rightarrow> 'a kmem_scheme \<Rightarrow> kerr + u32 \<times> 'a kmem_scheme" where
  "allocuvm pgdir oldsz newsz s =
     (if newsz \<ge> KERNBASE then Inr (0, s)
      else if newsz < oldsz then Inr (oldsz, s)
      else allocuvm_loop pgdir (PGROUNDUP oldsz) oldsz newsz s)"

definition clearpteu :: "u32 \<Rightarrow> u32 \<Rightarrow> 'a kmem_scheme \<Rightarrow> kerr + 'a kmem_scheme" where
  "clearpteu pgdir uva s =
     bindE (walkpgdir pgdir uva False s) (\<lambda>(pte, s).
       if pte = 0 then Inl (Panic ''clearpteu'')
       else Inr (store pte (load pte s AND NOT PTE_U) s))"

text \<open>\<^verbatim>\<open>copyuvm\<close>: the loop returns whether it reached the end; \<^verbatim>\<open>bad\<close> frees the copy.\<close>

function copyuvm_loop ::
  "u32 \<Rightarrow> u32 \<Rightarrow> u32 \<Rightarrow> u32 \<Rightarrow> 'a kmem_scheme \<Rightarrow> kerr + bool \<times> 'a kmem_scheme" where
  "copyuvm_loop pgdir d i sz s =
     (if \<not> i < sz then Inr (True, s)
      else bindE (walkpgdir pgdir i False s) (\<lambda>(pte, s).
        if pte = 0 then Inl (Panic ''copyuvm: pte should exist'')
        else if load pte s AND PTE_P = 0 then Inl (Panic ''copyuvm: page not present'')
        else
         (let pa = PTE_ADDR (load pte s);
              flags = PTE_FLAGS (load pte s)
          in bindE (kalloc s) (\<lambda>(p, s).
             if p = 0 then Inr (False, s)
             else
               bindE (mappages d i PGSIZE (V2P p) flags
                        (s\<lparr>mem := memmove p (P2V pa) PGSIZE (mem s)\<rparr>)) (\<lambda>(r, s).
                 if r < 0 then bindE (kfree p s) (\<lambda>s. Inr (False, s))
                 else if i + PGSIZE \<le> i then Inl Loops
                 else copyuvm_loop pgdir d (i + PGSIZE) sz s)))))"
  by pat_completeness auto
termination
  by (relation "measure (\<lambda>(_, _, i, sz, _). unat sz - unat i)")
    (auto simp: word_less_nat_alt word_le_nat_alt)

declare copyuvm_loop.simps [simp del]

definition copyuvm :: "u32 \<Rightarrow> u32 \<Rightarrow> 'a vm_scheme \<Rightarrow> kerr + u32 \<times> 'a vm_scheme" where
  "copyuvm pgdir sz s =
     bindE (setupkvm s) (\<lambda>(d, s).
       if d = 0 then Inr (0, s)
       else bindE (copyuvm_loop pgdir d 0 sz s) (\<lambda>(done, s).
         if done then Inr (d, s) else bindE (freevm d s) (\<lambda>s. Inr (0, s))))"

text \<open>\<^verbatim>\<open>uva2ka\<close> reads through the pointer it gets from \<^verbatim>\<open>walkpgdir\<close> without testing it.\<close>

definition uva2ka :: "u32 \<Rightarrow> u32 \<Rightarrow> 'a kmem_scheme \<Rightarrow> kerr + u32" where
  "uva2ka pgdir uva s =
     bindE (walkpgdir pgdir uva False s) (\<lambda>(pte, s).
       if pte = 0 then Inl NullDeref
       else if load pte s AND PTE_P = 0 then Inr 0
       else if load pte s AND PTE_U = 0 then Inr 0
       else Inr (P2V (PTE_ADDR (load pte s))))"

text \<open>Every round but the last copies at least a byte, so the length decreases.\<close>

definition copyout_count :: "u32 \<Rightarrow> u32 \<Rightarrow> u32" where
  "copyout_count va len =
     (let n = PGSIZE - (va - PGROUNDDOWN va) in if n > len then len else n)"

lemma va_minus_rounddown: "va - PGROUNDDOWN va = va AND 0xFFF"
proof -
  have "PGROUNDDOWN va + (va AND 0xFFF) = va"
    using and_not_plus_and [of va "0xFFF"] by (simp add: PGROUNDDOWN_def PGSIZE_def)
  then show ?thesis by (metis add_diff_cancel_left')
qed

lemma page_offset_less: "unat (va AND 0xFFF :: u32) < 4096"
  using word_and_le1 [of va "0xFFF"] by (simp add: word_le_nat_alt)

lemma copyout_count_pos: "0 < len \<Longrightarrow> 0 < copyout_count va len"
  using page_offset_less [of va]
  by (auto simp: copyout_count_def va_minus_rounddown Let_def PGSIZE_def word_less_nat_alt unat_diff_u32)

lemma copyout_count_le: "copyout_count va len \<le> len"
  by (auto simp: copyout_count_def Let_def)

function copyout :: "u32 \<Rightarrow> u32 \<Rightarrow> u32 \<Rightarrow> u32 \<Rightarrow> 'a kmem_scheme \<Rightarrow> kerr + int \<times> 'a kmem_scheme" where
  "copyout pgdir va buf len s =
     (if \<not> 0 < len then Inr (0, s)
      else
       (let va0 = PGROUNDDOWN va in
        bindE (uva2ka pgdir va0 s) (\<lambda>pa0.
          if pa0 = 0 then Inr (-1, s)
          else
           (let n = copyout_count va len in
            copyout pgdir (va0 + PGSIZE) (buf + n) (len - n)
              (s\<lparr>mem := memmove (pa0 + (va - va0)) buf n (mem s)\<rparr>)))))"
  by pat_completeness auto
termination
proof (relation "measure (\<lambda>(_, _, _, len, _). unat len)", simp, clarsimp)
  fix va len :: u32
  assume "0 < len"
  then show "unat (len - copyout_count va len) < unat len"
    using copyout_count_pos [of len va] copyout_count_le [of va len]
    by (simp add: unat_diff_u32 word_le_nat_alt word_less_nat_alt)
qed

declare copyout.simps [simp del]

section \<open>What the operations leave alone\<close>

lemma walkpgdir_frame: "walkpgdir pgdir va al s = Inr (pte, t) \<Longrightarrow> kframe s t"
  by (auto simp: walkpgdir_def Let_def dest!: kalloc_frame elim!: bindE_InrE split: if_splits)

lemma walkpgdir_noalloc: "walkpgdir pgdir va False s = Inr (pte, t) \<Longrightarrow> t = s"
  by (auto simp: walkpgdir_def Let_def split: if_splits)

lemma mappages_loop_frame: "mappages_loop pgdir a l pa pm s = Inr (r, t) \<Longrightarrow> kframe s t"
proof (induction pgdir a l pa pm s rule: mappages_loop.induct)
  case (1 pgdir a l pa pm s)
  from 1(2) obtain pte s1 where w: "walkpgdir pgdir a True s = Inr (pte, s1)"
    by (subst (asm) mappages_loop.simps) auto
  note f = walkpgdir_frame [OF w]
  have IH: "kframe s t" if "pte \<noteq> 0" "load pte s1 AND PTE_P = 0" "a \<noteq> l" "\<not> l - a < PGSIZE"
    "mappages_loop pgdir (a + PGSIZE) l (pa + PGSIZE) pm (store pte (pa OR pm OR PTE_P) s1) = Inr (r, t)"
    using 1(1) [OF w refl that(1) _ refl that(3,4,5)] that(2) f by (auto intro: kframe_trans)
  from 1(2) w f show ?case
    by (subst (asm) mappages_loop.simps) (auto simp: Let_def split: if_splits intro: IH)
qed

lemma mappages_frame: "mappages pgdir va sz pa pm s = Inr (r, t) \<Longrightarrow> kframe s t"
  by (simp add: mappages_def mappages_loop_frame)

lemma deallocuvm_loop_frame: "deallocuvm_loop pgdir a oldsz s = Inr t \<Longrightarrow> kframe s t"
proof (induction pgdir a oldsz s rule: deallocuvm_loop.induct)
  case (1 pgdir a oldsz s)
  show ?case
  proof (cases "a < oldsz")
    case False
    with 1(2) show ?thesis by (subst (asm) deallocuvm_loop.simps) simp
  next
    case True
    with 1(2) obtain pte s0 where w0: "walkpgdir pgdir a False s = Inr (pte, s0)"
      by (subst (asm) deallocuvm_loop.simps) auto
    then have w: "walkpgdir pgdir a False s = Inr (pte, s)" using walkpgdir_noalloc [OF w0] by simp
    let ?a = "if pte = 0 then PGADDR (PDX a + 1) 0 0 else a + PGSIZE"
    let ?m = "if pte \<noteq> 0 \<and> load pte s AND PTE_P \<noteq> 0 then
             (if PTE_ADDR (load pte s) = 0 then Inl (Panic ''kfree'')
              else bindE (kfree (P2V (PTE_ADDR (load pte s))) s) (\<lambda>s. Inr (store pte 0 s)))
           else Inr s"
    from 1(2) True w obtain s1 where s1: "?m = Inr s1" "\<not> ?a \<le> a" "deallocuvm_loop pgdir ?a oldsz s1 = Inr t"
      by (subst (asm) deallocuvm_loop.simps) (auto simp: Let_def elim!: bindE_InrE split: if_splits)
    have "kframe s s1" using s1(1) by (auto dest!: kfree_frame elim!: bindE_InrE split: if_splits)
    moreover have "kframe s1 t" using 1(1) [OF _ w refl refl s1(1) s1(2) s1(3)] True by simp
    ultimately show ?thesis by (rule kframe_trans)
  qed
qed

lemma deallocuvm_frame: "deallocuvm pgdir oldsz newsz s = Inr (r, t) \<Longrightarrow> kframe s t"
  by (auto simp: deallocuvm_def dest!: deallocuvm_loop_frame elim!: bindE_InrE split: if_splits)

lemma freevm_frame: "freevm pgdir s = Inr t \<Longrightarrow> kframe s t"
proof -
  assume a: "freevm pgdir s = Inr t"
  then obtain r s1 s2 where s: "deallocuvm pgdir KERNBASE 0 s = Inr (r, s1)"
    "foldE (freevm_entry pgdir) [0..<NPDENTRIES] s1 = Inr s2" "kfree pgdir s2 = Inr t"
    by (auto simp: freevm_def elim!: bindE_InrE split: if_splits)
  have "kframe s s2"
    using deallocuvm_frame [OF s(1)]
    by (rule foldE_invariant [OF s(2)])
      (auto simp: freevm_entry_def Let_def dest!: kfree_frame intro: kframe_trans split: if_splits)
  with kfree_frame [OF s(3)] show ?thesis by (rule kframe_trans [rotated])
qed

lemma setupkvm_loop_frame: "setupkvm_loop d ks s = Inr (r, t) \<Longrightarrow> kframe s t"
proof (induction ks arbitrary: s)
  case Nil
  then show ?case by simp
next
  case (Cons k ks)
  then obtain x s1 where m: "mappages d (virt k) (phys_end k - phys_start k) (phys_start k) (perm k) s = Inr (x, s1)"
    by auto
  with Cons.prems have "kframe s1 t"
    by (auto dest!: freevm_frame Cons.IH elim!: bindE_InrE split: if_splits)
  with mappages_frame [OF m] show ?case by (rule kframe_trans)
qed

lemma setupkvm_frame: "setupkvm s = Inr (r, t) \<Longrightarrow> kframe s t"
proof -
  assume a: "setupkvm s = Inr (r, t)"
  then obtain d s1 where k: "kalloc s = Inr (d, s1)" by (auto simp: setupkvm_def)
  with a have "kframe s1 t"
    by (auto simp: setupkvm_def Let_def dest!: setupkvm_loop_frame split: if_splits)
  with kalloc_frame [OF k] show ?thesis by (rule kframe_trans)
qed

lemma allocuvm_loop_frame: "allocuvm_loop pgdir a oldsz newsz s = Inr (r, t) \<Longrightarrow> kframe s t"
proof (induction pgdir a oldsz newsz s rule: allocuvm_loop.induct)
  case (1 pgdir a oldsz newsz s)
  show ?case
  proof (cases "a < newsz")
    case False
    with 1(2) show ?thesis by (subst (asm) allocuvm_loop.simps) simp
  next
    case True
    with 1(2) obtain p s1 where k: "kalloc s = Inr (p, s1)" by (subst (asm) allocuvm_loop.simps) auto
    have "kframe s1 t"
    proof (cases "p = 0")
      case zero: True
      with 1(2) True k show ?thesis
        by (subst (asm) allocuvm_loop.simps) (auto dest!: deallocuvm_frame elim!: bindE_InrE)
    next
      case nz: False
      with 1(2) True k obtain x s2 where m: "mappages pgdir a PGSIZE (V2P p) (PTE_W OR PTE_U)
          (s1\<lparr>mem := memset p 0 PGSIZE (mem s1)\<rparr>) = Inr (x, s2)"
        by (subst (asm) allocuvm_loop.simps) auto
      have "kframe s2 t" if "\<not> x < 0" "\<not> a + PGSIZE \<le> a"
        "allocuvm_loop pgdir (a + PGSIZE) oldsz newsz s2 = Inr (r, t)"
        using 1(1) [OF _ k refl nz m refl that] True by simp
      with 1(2) True k nz m have "kframe s2 t"
        by (subst (asm) allocuvm_loop.simps)
          (auto dest!: deallocuvm_frame kfree_frame elim!: bindE_InrE intro: kframe_trans split: if_splits)
      with mappages_frame [OF m] show ?thesis by (auto intro: kframe_trans)
    qed
    with kalloc_frame [OF k] show ?thesis by (rule kframe_trans)
  qed
qed

lemma allocuvm_frame: "allocuvm pgdir oldsz newsz s = Inr (r, t) \<Longrightarrow> kframe s t"
  by (auto simp: allocuvm_def dest!: allocuvm_loop_frame split: if_splits)

lemma copyuvm_loop_frame: "copyuvm_loop pgdir d i sz s = Inr (r, t) \<Longrightarrow> kframe s t"
proof (induction pgdir d i sz s rule: copyuvm_loop.induct)
  case (1 pgdir d i sz s)
  show ?case
  proof (cases "i < sz")
    case False
    with 1(2) show ?thesis by (subst (asm) copyuvm_loop.simps) simp
  next
    case True
    with 1(2) obtain pte s0 where w0: "walkpgdir pgdir i False s = Inr (pte, s0)"
      by (subst (asm) copyuvm_loop.simps) auto
    then have w: "walkpgdir pgdir i False s = Inr (pte, s)" using walkpgdir_noalloc [OF w0] by simp
    with 1(2) True obtain p s1 where k: "pte \<noteq> 0" "load pte s AND PTE_P \<noteq> 0" "kalloc s = Inr (p, s1)"
      by (subst (asm) copyuvm_loop.simps) (auto simp: Let_def split: if_splits)
    have "kframe s1 t"
    proof (cases "p = 0")
      case zero: True
      with 1(2) True w k show ?thesis
        by (subst (asm) copyuvm_loop.simps) (auto simp: Let_def)
    next
      case nz: False
      with 1(2) True w k obtain x s2 where m: "mappages d i PGSIZE (V2P p) (PTE_FLAGS (load pte s))
          (s1\<lparr>mem := memmove p (P2V (PTE_ADDR (load pte s))) PGSIZE (mem s1)\<rparr>) = Inr (x, s2)"
        by (subst (asm) copyuvm_loop.simps) (auto simp: Let_def)
      have "kframe s2 t" if "\<not> x < 0" "\<not> i + PGSIZE \<le> i" "copyuvm_loop pgdir d (i + PGSIZE) sz s2 = Inr (r, t)"
        using 1(1) [OF _ w refl k(1,2) refl refl k(3) refl nz m refl that] True by simp
      with 1(2) True w k nz m have "kframe s2 t"
        by (subst (asm) copyuvm_loop.simps)
          (auto simp: Let_def dest!: kfree_frame elim!: bindE_InrE split: if_splits)
      with mappages_frame [OF m] show ?thesis by (auto intro: kframe_trans)
    qed
    with kalloc_frame [OF k(3)] show ?thesis by (rule kframe_trans)
  qed
qed

lemma copyuvm_frame: "copyuvm pgdir sz s = Inr (r, t) \<Longrightarrow> kframe s t"
proof -
  assume a: "copyuvm pgdir sz s = Inr (r, t)"
  then obtain d s1 where k: "setupkvm s = Inr (d, s1)" by (auto simp: copyuvm_def)
  with a have "kframe s1 t"
    by (auto simp: copyuvm_def dest!: copyuvm_loop_frame freevm_frame elim!: bindE_InrE
        intro: kframe_trans split: if_splits)
  with setupkvm_frame [OF k] show ?thesis by (rule kframe_trans)
qed

end
