(* ===== verification/Proc_State.thy ===== *)
theory Proc_State
  imports VM
begin

text \<open>
  The process table and the other globals of \<^verbatim>\<open>proc.c\<close> and \<^verbatim>\<open>proc.h\<close>. A pointer to a process
  is its index in the table, a pointer to a queue node its index in \<^verbatim>\<open>surplus_nodes\<close>, null is
  \<open>None\<close>. Counters that grow without bound (\<^verbatim>\<open>run_time\<close>, \<^verbatim>\<open>num_run\<close>, the times) are 32-bit words;
  \<^verbatim>\<open>int\<close> fields that the code keeps in a small range (\<^verbatim>\<open>queue\<close>, \<^verbatim>\<open>cur_timeslices\<close>,
  \<^verbatim>\<open>priority\<close>) are integers.
\<close>

datatype procstate = UNUSED | EMBRYO | SLEEPING | RUNNABLE | RUNNING | ZOMBIE

definition NUM_QUEUES :: nat where "NUM_QUEUES = 5"
definition AGE_LIMIT :: u32 where "AGE_LIMIT = 30"
definition TIMESLICE :: "int \<Rightarrow> int" where "TIMESLICE i = push_bit (nat i) 1"

record proc =
  p_sz :: u32
  p_pgdir :: u32
  p_kstack :: u32
  p_state :: procstate
  p_pid :: u32
  p_parent :: "nat option"
  p_tf :: u32
  p_context :: u32
  p_chan :: "chan option"
  p_killed :: bool
  p_ofile :: "nat option list"
  p_cwd :: "nat option"
  p_name :: "u8 list"
  p_start_time :: u32
  p_end_time :: u32
  p_run_time :: u32
  p_priority :: int
  p_timeslices :: u32
  p_age_time :: u32
  p_cur_timeslices :: int
  p_queue :: int
  p_punish :: bool
  p_num_run :: u32
  p_ticks :: "u32 list"

record node =
  nd_next :: "nat option"
  nd_p :: "nat option"
  nd_use :: bool

text \<open>The build-time choice \<^verbatim>\<open>SCHEDULER\<close>.\<close>

datatype sched_kind = SCHED_RR | SCHED_FCFS | SCHED_PBS | SCHED_MLFQ

text \<open>
  The kernel's globals for processes. The addresses of \<^verbatim>\<open>forkret\<close> and \<^verbatim>\<open>trapret\<close> are fixed by the linker;
  \<open>cpu_proc\<close> is the field \<^verbatim>\<open>proc\<close> of each CPU.
\<close>

record pstate = vm +
  SCHEDULER :: sched_kind
  forkret_addr :: u32
  trapret_addr :: u32
  ticks :: u32
  procs :: "proc list"
  initproc :: "nat option"
  nextpid :: u32
  queues :: "nat option list"
  surplus_nodes :: "node list"
  cpu_proc :: "nat \<Rightarrow> nat option"

definition upd_proc :: "nat \<Rightarrow> (proc \<Rightarrow> proc) \<Rightarrow> 'a pstate_scheme \<Rightarrow> 'a pstate_scheme" where
  "upd_proc i f s = s\<lparr>procs := (procs s)[i := f (procs s ! i)]\<rparr>"

definition myproc :: "'a pstate_scheme \<Rightarrow> nat option" where
  "myproc s = cpu_proc s (cpu_id s)"

definition set_myproc :: "nat option \<Rightarrow> 'a pstate_scheme \<Rightarrow> 'a pstate_scheme" where
  "set_myproc p s = s\<lparr>cpu_proc := (cpu_proc s)(cpu_id s := p)\<rparr>"

lemma myproc_simps [simp]:
  "myproc (s\<lparr>held := h\<rparr>) = myproc s" "myproc (s\<lparr>mem := m\<rparr>) = myproc s"
  "myproc (s\<lparr>ticks := tk\<rparr>) = myproc s" "myproc (s\<lparr>nextpid := n\<rparr>) = myproc s"
  by (simp_all add: myproc_def)

lemma upd_proc_simps [simp]:
  "procs (upd_proc i f s) = (procs s)[i := f (procs s ! i)]"
  "held (upd_proc i f s) = held s" "cpu_id (upd_proc i f s) = cpu_id s"
  "mem (upd_proc i f s) = mem s" "ticks (upd_proc i f s) = ticks s"
  "queues (upd_proc i f s) = queues s" "surplus_nodes (upd_proc i f s) = surplus_nodes s"
  "cpu_proc (upd_proc i f s) = cpu_proc s" "SCHEDULER (upd_proc i f s) = SCHEDULER s"
  "initproc (upd_proc i f s) = initproc s" "nextpid (upd_proc i f s) = nextpid s"
  "myproc (upd_proc i f s) = myproc s"
  by (simp_all add: upd_proc_def myproc_def)

lemma set_myproc_simps [simp]:
  "procs (set_myproc p s) = procs s"
  "held (set_myproc p s) = held s" "cpu_id (set_myproc p s) = cpu_id s"
  "mem (set_myproc p s) = mem s" "ticks (set_myproc p s) = ticks s"
  "queues (set_myproc p s) = queues s" "surplus_nodes (set_myproc p s) = surplus_nodes s"
  "cpu_proc (set_myproc p s) = (cpu_proc s)(cpu_id s := p)" "SCHEDULER (set_myproc p s) = SCHEDULER s"
  "initproc (set_myproc p s) = initproc s" "nextpid (set_myproc p s) = nextpid s"
  by (simp_all add: set_myproc_def)

end
