(* ===== verification/Sched_Queue.thy ===== *)
theory Sched_Queue
  imports Proc_State
begin

text \<open>
  \<^verbatim>\<open>queue.c\<close>: the ready queues of the multilevel feedback scheduler, singly linked lists of nodes
  that come from the array \<^verbatim>\<open>surplus_nodes\<close>. The operations work on the node array, following
  \<^verbatim>\<open>next\<close> indices as the code follows pointers; a walk that never meets the end of a list is
  \<open>None\<close>. The second half relates them to operations on lists of processes: \<open>multi_queue\<close> is the
  contract of a bank of FIFO queues, and the node array implements it.
\<close>

section \<open>Operations\<close>

definition q_alloc :: "node list \<Rightarrow> nat option \<times> node list" where
  "q_alloc ns = (case scan (\<lambda>n. \<not> nd_use n) 0 ns of
       None \<Rightarrow> (None, ns)
     | Some i \<Rightarrow> (Some i, ns[i := (ns ! i)\<lparr>nd_use := True\<rparr>]))"

definition q_free :: "nat \<Rightarrow> node list \<Rightarrow> node list" where
  "q_free i ns = ns[i := (ns ! i)\<lparr>nd_use := False\<rparr>]"

text \<open>The loop \<^verbatim>\<open>while (cur->next != 0) cur = cur->next\<close>.\<close>

partial_function (option) list_end :: "node list \<Rightarrow> nat \<Rightarrow> nat option" where
  "list_end ns cur = (case nd_next (ns ! cur) of None \<Rightarrow> Some cur | Some n \<Rightarrow> list_end ns n)"

definition push :: "nat option \<Rightarrow> nat \<Rightarrow> node list \<Rightarrow> kerr + nat option \<times> node list" where
  "push head p ns =
     (case q_alloc ns of
        (None, _) \<Rightarrow> Inl NullDeref
      | (Some new, ns) \<Rightarrow>
         (let ns = ns[new := (ns ! new)\<lparr>nd_p := Some p, nd_next := None\<rparr>] in
          case head of
            None \<Rightarrow> Inr (Some new, ns)
          | Some h \<Rightarrow> (case list_end ns h of
                None \<Rightarrow> Inl Loops
              | Some cur \<Rightarrow> Inr (Some h, ns[cur := (ns ! cur)\<lparr>nd_next := Some new\<rparr>]))))"

definition pop :: "nat option \<Rightarrow> node list \<Rightarrow> nat option \<times> node list" where
  "pop head ns = (case head of None \<Rightarrow> (None, ns) | Some h \<Rightarrow> (nd_next (ns ! h), q_free h ns))"

partial_function (option) length_from :: "node list \<Rightarrow> nat option \<Rightarrow> nat \<Rightarrow> nat option" where
  "length_from ns head cnt =
     (case head of None \<Rightarrow> Some cnt | Some h \<Rightarrow> length_from ns (nd_next (ns ! h)) (cnt + 1))"

definition length_q :: "node list \<Rightarrow> nat option \<Rightarrow> nat option" where
  "length_q ns head = length_from ns head 0"

text \<open>
  The first loop of \<^verbatim>\<open>split\<close>: \<^verbatim>\<open>ticks\<close> is unsigned, so the waiting time \<^verbatim>\<open>ticks - age_time\<close> and the
  comparison with the threshold are unsigned too.
\<close>

partial_function (option) split_loop ::
  "u32 \<Rightarrow> u32 \<Rightarrow> node list \<Rightarrow> nat option \<Rightarrow> nat option \<Rightarrow> int \<Rightarrow> proc list
   \<Rightarrow> (kerr + nat option \<times> nat option \<times> int \<times> proc list) option" where
  "split_loop tk thr ns cur prev cnt ps =
     (case cur of
        None \<Rightarrow> Some (Inr (cur, prev, cnt, ps))
      | Some c \<Rightarrow> (case nd_p (ns ! c) of
            None \<Rightarrow> Some (Inl NullDeref)
          | Some i \<Rightarrow>
              (if tk - p_age_time (ps ! i) > thr then
                 split_loop tk thr ns (nd_next (ns ! c)) cur (cnt + 1)
                   (ps[i := (ps ! i)\<lparr>p_queue := p_queue (ps ! i) - 1, p_age_time := tk\<rparr>])
               else Some (Inr (cur, prev, cnt, ps)))))"

text \<open>
  \<^verbatim>\<open>split(&queues[from], &queues[to], threshold)\<close>; a null argument is \<open>None\<close>.
\<close>

definition split_q ::
  "nat option \<Rightarrow> nat option \<Rightarrow> u32 \<Rightarrow> 'a pstate_scheme \<Rightarrow> kerr + int \<times> 'a pstate_scheme" where
  "split_q from to threshold s =
     (case (from, to) of
        (Some f, Some t) \<Rightarrow>
          (if queues s ! f = None then Inr (0, s)
           else
            (case split_loop (ticks s) threshold (surplus_nodes s) (queues s ! f) None 0 (procs s) of
               None \<Rightarrow> Inl Loops
             | Some (Inl e) \<Rightarrow> Inl e
             | Some (Inr (cur, prev, cnt, ps)) \<Rightarrow>
                (case prev of
                   None \<Rightarrow> Inr (0, s\<lparr>procs := ps\<rparr>)
                 | Some pr \<Rightarrow>
                    (case queues s ! t of
                       Some th \<Rightarrow>
                        (case list_end (surplus_nodes s) th of
                           None \<Rightarrow> Inl Loops
                         | Some te \<Rightarrow>
                            (let ns = surplus_nodes s;
                                 ns = ns[pr := (ns ! pr)\<lparr>nd_next := None\<rparr>];
                                 ns = ns[te := (ns ! te)\<lparr>nd_next := queues s ! f\<rparr>]
                             in Inr (cnt, s\<lparr>procs := ps, surplus_nodes := ns,
                                              queues := (queues s)[f := cur]\<rparr>)))
                     | None \<Rightarrow>
                        (let ns = surplus_nodes s;
                             ns = ns[pr := (ns ! pr)\<lparr>nd_next := None\<rparr>]
                         in Inr (cnt, s\<lparr>procs := ps, surplus_nodes := ns,
                                          queues := (queues s)[t := queues s ! f, f := cur]\<rparr>))))))
      | _ \<Rightarrow> Inr (-1, s))"

section \<open>Linked lists in the node array\<close>

text \<open>Following \<^verbatim>\<open>next\<close> from \<open>h\<close> visits the nodes \<open>is\<close> and leads to \<open>e\<close>.\<close>

fun lseg :: "node list \<Rightarrow> nat option \<Rightarrow> nat list \<Rightarrow> nat option \<Rightarrow> bool" where
  "lseg ns h [] e \<longleftrightarrow> h = e"
| "lseg ns h (i # is) e \<longleftrightarrow> h = Some i \<and> i < length ns \<and> lseg ns (nd_next (ns ! i)) is e"

abbreviation chain :: "node list \<Rightarrow> nat option \<Rightarrow> nat list \<Rightarrow> bool" where
  "chain ns h is \<equiv> lseg ns h is None"

lemma lseg_bound: "lseg ns h is e \<Longrightarrow> i \<in> set is \<Longrightarrow> i < length ns"
  by (induction "is" arbitrary: h) auto

lemma lseg_append: "lseg ns h (is @ js) e \<longleftrightarrow> (\<exists>m. lseg ns h is m \<and> lseg ns m js e)"
  by (induction "is" arbitrary: h) auto

lemma lseg_frame:
  "lseg ns h is e \<Longrightarrow> length ns' = length ns \<Longrightarrow> (\<And>i. i \<in> set is \<Longrightarrow> nd_next (ns' ! i) = nd_next (ns ! i))
   \<Longrightarrow> lseg ns' h is e"
  by (induction "is" arbitrary: h) auto

lemma lseg_head: "lseg ns h is e \<Longrightarrow> is \<noteq> [] \<Longrightarrow> h = Some (hd is)"
  by (cases "is") auto

text \<open>Redirecting the last node of a segment.\<close>

lemma lseg_set_last:
  assumes "lseg ns h is e" and "is \<noteq> []" and "distinct is"
  shows "lseg (ns[last is := (ns ! last is)\<lparr>nd_next := e'\<rparr>]) h is e'"
proof -
  obtain js l where "is": "is = js @ [l]" using assms(2) by (cases "is" rule: rev_cases) auto
  with assms have "lseg ns h js (Some l)" "l < length ns" "l \<notin> set js" by (auto simp: lseg_append)
  then have "lseg (ns[l := (ns ! l)\<lparr>nd_next := e'\<rparr>]) h js (Some l)"
    by (elim lseg_frame) (auto simp: nth_upd)
  with \<open>l < length ns\<close> show ?thesis by (auto simp: "is" lseg_append)
qed

lemma list_end_chain: "chain ns (Some h) is \<Longrightarrow> list_end ns h = Some (last is)"
proof (induction "is" arbitrary: h)
  case Nil
  then show ?case by simp
next
  case (Cons i "is")
  then show ?case by (cases "is") (auto simp: list_end.simps [of ns i])
qed

lemma length_from_chain: "chain ns h is \<Longrightarrow> length_from ns h n = Some (n + length is)"
proof (induction "is" arbitrary: h n)
  case Nil
  then show ?case by (simp add: length_from.simps)
next
  case (Cons i "is")
  then show ?case by (subst length_from.simps) auto
qed

lemma length_q_chain: "chain ns h is \<Longrightarrow> length_q ns h = Some (length is)"
  by (simp add: length_q_def length_from_chain)

section \<open>The bank of queues\<close>

text \<open>
  The nodes of the queues: queue \<open>k\<close> is the chain \<open>iss ! k\<close>, no node is in two places, and the
  nodes in use are exactly those in a queue.
\<close>

definition qnodes :: "node list \<Rightarrow> nat option list \<Rightarrow> nat list list \<Rightarrow> bool" where
  "qnodes ns hs iss \<longleftrightarrow> length iss = length hs \<and>
     (\<forall>k < length hs. chain ns (hs ! k) (iss ! k)) \<and> distinct (concat iss) \<and>
     (\<forall>i < length ns. nd_use (ns ! i) \<longleftrightarrow> i \<in> set (concat iss))"

definition nprocs :: "node list \<Rightarrow> nat list \<Rightarrow> nat option list" where
  "nprocs ns is = map (\<lambda>i. nd_p (ns ! i)) is"

text \<open>The queues as lists of processes.\<close>

definition qrep :: "node list \<Rightarrow> nat option list \<Rightarrow> nat list list \<Rightarrow> bool" where
  "qrep ns hs qs \<longleftrightarrow> (\<exists>iss. qnodes ns hs iss \<and> map (nprocs ns) iss = map (map Some) qs)"

lemma qnodes_bound:
  assumes "qnodes ns hs iss" and "i \<in> set (concat iss)"
  shows "i < length ns"
proof -
  obtain "is" where "is \<in> set iss" "i \<in> set is" using assms(2) by auto
  then obtain k where "k < length iss" "i \<in> set (iss ! k)" by (metis in_set_conv_nth)
  with assms(1) show ?thesis by (auto simp: qnodes_def intro: lseg_bound)
qed

lemma qnodes_used: "qnodes ns hs iss \<Longrightarrow> length (concat iss) \<le> length ns"
proof -
  assume q: "qnodes ns hs iss"
  then have "set (concat iss) \<subseteq> {..<length ns}" using qnodes_bound by blast
  then have "card (set (concat iss)) \<le> card {..<length ns}" by (intro card_mono) simp_all
  moreover have "distinct (concat iss)" using q by (simp add: qnodes_def)
  ultimately show ?thesis by (simp only: distinct_card card_lessThan)
qed

lemma q_alloc_free:
  assumes "qnodes ns hs iss" and "length (concat iss) < length ns"
  shows "\<exists>new. q_alloc ns = (Some new, ns[new := (ns ! new)\<lparr>nd_use := True\<rparr>]) \<and>
    new < length ns \<and> new \<notin> set (concat iss)"
proof -
  have "\<exists>i < length ns. \<not> nd_use (ns ! i)"
  proof (rule ccontr)
    assume "\<not> ?thesis"
    then have "{..<length ns} \<subseteq> set (concat iss)" using assms(1) by (auto simp: qnodes_def)
    then have "card {..<length ns} \<le> card (set (concat iss))" by (intro card_mono) simp_all
    also have "\<dots> \<le> length (concat iss)" by (rule card_length)
    finally show False using assms(2) by simp
  qed
  then obtain i where "i < length ns" "\<not> nd_use (ns ! i)" by blast
  from scan_exists [of i ns "\<lambda>n. \<not> nd_use n", OF this]
  obtain j where "scan (\<lambda>n. \<not> nd_use n) 0 ns = Some j" by blast
  then show ?thesis
    using assms(1) by (auto simp: q_alloc_def qnodes_def dest: scan_SomeD)
qed

lemma qnodesD:
  assumes "qnodes ns hs iss"
  shows "length iss = length hs" "k < length hs \<Longrightarrow> chain ns (hs ! k) (iss ! k)"
    "distinct (concat iss)" "i < length ns \<Longrightarrow> nd_use (ns ! i) \<longleftrightarrow> i \<in> set (concat iss)"
  using assms by (simp_all add: qnodes_def)

text \<open>A chain is not affected by a change of nodes outside it.\<close>

lemma chain_upd_other: "chain ns h is \<Longrightarrow> i \<notin> set is \<Longrightarrow> chain (ns[i := n]) h is"
  by (erule lseg_frame) (auto intro: arg_cong [OF nth_list_update_neq])

lemma nprocs_upd_other: "i \<notin> set is \<Longrightarrow> nprocs (ns[i := n]) is = nprocs ns is"
  by (auto simp: nprocs_def intro: arg_cong [OF nth_list_update_neq])

lemma nprocs_upd_next: "nprocs (ns[i := (ns ! i)\<lparr>nd_next := e\<rparr>]) is = nprocs ns is"
  by (cases "i < length ns") (auto simp: nprocs_def nth_upd)

lemma push_chain:
  fixes p :: nat
  assumes "chain ns h is" and "distinct is" and "q_alloc ns = (Some new, ns')"
    and "ns' = ns[new := (ns ! new)\<lparr>nd_use := True\<rparr>]" and "new < length ns" and "new \<notin> set is"
    and ns1_def: "ns1 = ns[new := \<lparr>nd_next = None, nd_p = Some p, nd_use = True\<rparr>]"
    and ns2_def: "ns2 = (if is = [] then ns1 else ns1[last is := (ns1 ! last is)\<lparr>nd_next := Some new\<rparr>])"
  shows "push h p ns = Inr (Some (hd (is @ [new])), ns2) \<and> chain ns2 (Some (hd (is @ [new]))) (is @ [new])"
proof -
  have ns1: "ns'[new := (ns' ! new)\<lparr>nd_p := Some p, nd_next := None\<rparr>] = ns1"
    using assms(4,5) by (cases "ns ! new") (simp add: ns1_def)
  have c1: "chain ns1 h is" unfolding ns1_def using assms(1,6) by (rule chain_upd_other)
  show ?thesis
  proof (cases "is = []")
    case True
    with assms(1,3,5) ns1 show ?thesis by (simp add: push_def ns2_def) (simp add: ns1_def)
  next
    case False
    then have h: "h = Some (hd is)" using assms(1) lseg_head by blast
    have le: "list_end ns1 (hd is) = Some (last is)" using c1 h list_end_chain by simp
    have "lseg ns2 h is (Some new)"
      using lseg_set_last [OF c1 False assms(2)] False by (simp add: ns2_def)
    moreover have "nd_next (ns2 ! new) = None"
      using assms(5,6) False by (auto simp: ns2_def ns1_def nth_upd)
    ultimately have "chain ns2 h (is @ [new])"
      using assms(5) by (auto simp: lseg_append ns2_def ns1_def)
    with False h assms(3) ns1 le show ?thesis by (simp add: push_def ns2_def Let_def)
  qed
qed

lemma push_qnodes:
  assumes q: "qnodes ns hs iss" and room: "length (concat iss) < length ns" and k: "k < length hs"
  shows "\<exists>new h ns'. push (hs ! k) p ns = Inr (h, ns') \<and>
    qnodes ns' (hs[k := h]) (iss[k := iss ! k @ [new]]) \<and> length ns' = length ns \<and>
    nd_p (ns' ! new) = Some p \<and> new \<notin> set (concat iss) \<and>
    (\<forall>i \<in> set (concat iss). nd_p (ns' ! i) = nd_p (ns ! i))"
proof -
  obtain new where new: "q_alloc ns = (Some new, ns[new := (ns ! new)\<lparr>nd_use := True\<rparr>])"
    "new < length ns" "new \<notin> set (concat iss)" using q_alloc_free [OF q room] by (elim exE conjE)
  have kk: "k < length iss" using k q by (simp add: qnodes_def)
  obtain A B where AB: "concat iss = A @ iss ! k @ B" "\<forall>ys. concat (iss[k := ys]) = A @ ys @ B"
    using kk by (rule concat_updateE)
  let ?is = "iss ! k"
  define ns1 where "ns1 = ns[new := \<lparr>nd_next = None, nd_p = Some p, nd_use = True\<rparr>]"
  define ns2 where "ns2 = (if ?is = [] then ns1 else ns1[last ?is := (ns1 ! last ?is)\<lparr>nd_next := Some new\<rparr>])"
  have nis: "new \<notin> set ?is" using nth_concat_in [OF kk, of new] new(3) by blast
  note push = push_chain [OF qnodesD(2) [OF q k] distinct_concat_each [OF qnodesD(3) [OF q] kk]
      new(1) refl new(2) nis ns1_def ns2_def]
  have len: "length ns2 = length ns" by (simp add: ns1_def ns2_def)
  have lastin: "?is \<noteq> [] \<Longrightarrow> last ?is \<in> set ?is" by simp
  have other: "chain ns2 (hs ! j) (iss ! j)" if "j < length hs" "j \<noteq> k" for j
  proof -
    have jj: "j < length iss" using that q by (simp add: qnodes_def)
    have "new \<notin> set (iss ! j)" using nth_concat_in [OF jj, of new] new(3) by blast
    moreover have "last ?is \<notin> set (iss ! j)" if "?is \<noteq> []"
      using distinct_concat_nth [OF qnodesD(3) [OF q] jj kk, of "last ?is"] \<open>j \<noteq> k\<close> that by auto
    ultimately show ?thesis
      using qnodesD(2) [OF q that(1)] by (auto simp: ns2_def ns1_def intro!: chain_upd_other)
  qed
  have use: "nd_use (ns2 ! i) = (i = new \<or> nd_use (ns ! i))" if "i < length ns" for i
    using that by (auto simp: ns2_def ns1_def nth_upd)
  have dist: "distinct (concat (iss[k := ?is @ [new]]))"
    using qnodesD(3) [OF q] new(3) AB by auto
  have "qnodes ns2 (hs[k := Some (hd (?is @ [new]))]) (iss[k := ?is @ [new]])"
    unfolding qnodes_def
  proof (intro conjI allI impI dist)
    show "length (iss[k := ?is @ [new]]) = length (hs[k := Some (hd (?is @ [new]))])"
      using qnodesD(1) [OF q] by simp
    show "chain ns2 (hs[k := Some (hd (?is @ [new]))] ! j) (iss[k := ?is @ [new]] ! j)"
      if "j < length (hs[k := Some (hd (?is @ [new]))])" for j
      using that push other [of j] kk by (cases "j = k") auto
    show "nd_use (ns2 ! i) = (i \<in> set (concat (iss[k := ?is @ [new]])))" if "i < length ns2" for i
      using use [of i] that AB len qnodesD(4) [OF q, of i] by auto
  qed
  moreover have "nd_p (ns2 ! new) = Some p" "\<forall>i \<in> set (concat iss). nd_p (ns2 ! i) = nd_p (ns ! i)"
    using new by (auto simp: ns2_def ns1_def nth_upd)
  ultimately show ?thesis using push len new(3) by blast
qed

lemma pop_qnodes:
  assumes q: "qnodes ns hs iss" and k: "k < length hs" and i: "iss ! k = i # is"
  shows "\<exists>h ns'. pop (hs ! k) ns = (h, ns') \<and> qnodes ns' (hs[k := h]) (iss[k := is]) \<and>
    length ns' = length ns \<and> (\<forall>j. nd_p (ns' ! j) = nd_p (ns ! j))"
proof -
  have kk: "k < length iss" using k q by (simp add: qnodes_def)
  obtain A B where AB: "concat iss = A @ iss ! k @ B" "\<forall>ys. concat (iss[k := ys]) = A @ ys @ B"
    using kk by (rule concat_updateE)
  have c: "hs ! k = Some i" "i < length ns" "chain ns (nd_next (ns ! i)) is"
    using qnodesD(2) [OF q k] i by auto
  let ?ns = "q_free i ns"
  have fr: "chain ?ns h js" if "chain ns h js" for h js
    using that by (elim lseg_frame) (auto simp: q_free_def nth_upd)
  have "qnodes ?ns (hs[k := nd_next (ns ! i)]) (iss[k := is])"
    unfolding qnodes_def
  proof (intro conjI allI impI)
    show "length (iss[k := is]) = length (hs[k := nd_next (ns ! i)])"
      using qnodesD(1) [OF q] by simp
    show "chain ?ns (hs[k := nd_next (ns ! i)] ! j) (iss[k := is] ! j)"
      if "j < length (hs[k := nd_next (ns ! i)])" for j
      using that c kk fr qnodesD(2) [OF q, of j] by (cases "j = k") auto
    show "distinct (concat (iss[k := is]))" using AB i qnodesD(3) [OF q] by auto
    show "nd_use (?ns ! j) = (j \<in> set (concat (iss[k := is])))" if "j < length ?ns" for j
      using that AB i c qnodesD(3) [OF q] qnodesD(4) [OF q, of j] by (auto simp: q_free_def nth_upd)
  qed
  with c show ?thesis by (auto simp: pop_def q_free_def nth_upd)
qed

section \<open>Aging\<close>

text \<open>\<open>f\<close> applied to the entries with indices in \<open>js\<close>.\<close>

definition upd_all :: "('a \<Rightarrow> 'a) \<Rightarrow> nat list \<Rightarrow> 'a list \<Rightarrow> 'a list" where
  "upd_all f js xs = map (\<lambda>j. if j \<in> set js then f (xs ! j) else xs ! j) [0..<length xs]"

lemma upd_all_length [simp]: "length (upd_all f js xs) = length xs"
  by (simp add: upd_all_def)

lemma upd_all_nth: "j < length xs \<Longrightarrow> upd_all f js xs ! j = (if j \<in> set js then f (xs ! j) else xs ! j)"
  by (simp add: upd_all_def)

lemma upd_all_Nil [simp]: "upd_all f [] xs = xs"
  by (simp add: upd_all_def map_nth)

lemma upd_all_Cons:
  "j \<notin> set js \<Longrightarrow> j < length xs \<Longrightarrow> upd_all f js (xs[j := f (xs ! j)]) = upd_all f (j # js) xs"
  by (rule nth_equalityI) (auto simp: upd_all_nth nth_upd)

definition overdue :: "u32 \<Rightarrow> u32 \<Rightarrow> proc \<Rightarrow> bool" where
  "overdue tk thr p \<longleftrightarrow> tk - p_age_time p > thr"

definition aged :: "u32 \<Rightarrow> proc \<Rightarrow> proc" where
  "aged tk p = p\<lparr>p_queue := p_queue p - 1, p_age_time := tk\<rparr>"

text \<open>The processes at the front of a queue that have waited too long.\<close>

definition due_prefix :: "u32 \<Rightarrow> u32 \<Rightarrow> proc list \<Rightarrow> nat list \<Rightarrow> nat list" where
  "due_prefix tk thr ps js = takeWhile (\<lambda>j. overdue tk thr (ps ! j)) js"

lemma split_loop_chain:
  assumes "chain ns cur is" and "nprocs ns is = map Some js" and "distinct js"
    and "set js \<subseteq> {..<length ps}"
    and as_def: "as = due_prefix tk thr ps js"
  shows "split_loop tk thr ns cur prev cnt ps =
    Some (Inr (if length as < length is then Some (is ! length as) else None,
               if as = [] then prev else Some (is ! (length as - 1)),
               cnt + int (length as), upd_all (aged tk) as ps))"
  using assms(1-4) unfolding as_def due_prefix_def
proof (induction "is" arbitrary: cur prev cnt js ps)
  case Nil
  then show ?case by (subst split_loop.simps) (simp add: nprocs_def)
next
  case (Cons i "is")
  then obtain j js' where js: "js = j # js'" "nd_p (ns ! i) = Some j" "nprocs ns is = map Some js'"
    by (auto simp: nprocs_def Cons_eq_map_conv)
  have cur: "cur = Some i" "chain ns (nd_next (ns ! i)) is" using Cons.prems(1) by auto
  have j: "j \<notin> set js'" "j < length ps" using Cons.prems(3,4) js by auto
  show ?case
  proof (cases "overdue tk thr (ps ! j)")
    case True
    let ?ps = "ps[j := aged tk (ps ! j)]"
    have tw: "takeWhile (\<lambda>k. overdue tk thr (?ps ! k)) js' = takeWhile (\<lambda>k. overdue tk thr (ps ! k)) js'"
      using j by (intro takeWhile_cong) (auto simp: nth_upd)
    have "set js' \<subseteq> {..<length ?ps}" "distinct js'" using Cons.prems(3,4) js by auto
    note IH = Cons.IH [OF cur(2) js(3) this(2) this(1), of "Some i" "cnt + 1", unfolded tw]
    have "j \<notin> set (takeWhile (\<lambda>k. overdue tk thr (ps ! k)) js')"
      using j(1) by (meson set_takeWhileD)
    with j have "upd_all (aged tk) (takeWhile (\<lambda>k. overdue tk thr (ps ! k)) js') ?ps =
        upd_all (aged tk) (j # takeWhile (\<lambda>k. overdue tk thr (ps ! k)) js') ps"
      by (intro upd_all_Cons)
    moreover have "split_loop tk thr ns cur prev cnt ps =
        split_loop tk thr ns (nd_next (ns ! i)) (Some i) (cnt + 1) ?ps"
      using True js cur by (subst split_loop.simps) (simp add: overdue_def aged_def)
    ultimately show ?thesis
      using IH True js by (auto simp: nth_Cons split: nat.splits)
  next
    case False
    with js cur show ?thesis by (subst split_loop.simps) (simp add: overdue_def)
  qed
qed

lemma move_qnodes:
  assumes q: "qnodes ns hs iss" and ft: "f < length hs" "t < length hs" "f \<noteq> t"
    and as: "iss ! f = as @ bs" "as \<noteq> []"
    and ns1_def: "ns1 = ns[last as := (ns ! last as)\<lparr>nd_next := None\<rparr>]"
    and ns2_def: "ns2 = (if iss ! t = [] then ns1
      else ns1[last (iss ! t) := (ns1 ! last (iss ! t))\<lparr>nd_next := hs ! f\<rparr>])"
    and h_def: "h = (if bs = [] then None else Some (hd bs))"
    and hs_def: "hs' = (if iss ! t = [] then hs[t := hs ! f, f := h] else hs[f := h])"
  shows "qnodes ns2 hs' (iss[f := bs, t := iss ! t @ as])"
proof -
  have ff: "f < length iss" and tt: "t < length iss" using ft q by (simp_all add: qnodes_def)
  note dist = qnodesD(3) [OF q]
  have disj: "x \<notin> set (iss ! j)" if "x \<in> set (iss ! k)" "j \<noteq> k" "j < length iss" "k < length iss" for x j k
    using distinct_concat_nth [OF dist that(3,4), of x] that(1,2) by blast
  have la: "last as \<in> set (iss ! f)" "last as \<notin> set bs" "distinct as"
    using as last_in_set [OF as(2)] distinct_concat_each [OF dist ff] by (auto simp: disjoint_iff)
  have lt: "last (iss ! t) \<in> set (iss ! t)" if "iss ! t \<noteq> []" using that by simp
  obtain m where m: "lseg ns (hs ! f) as m" "chain ns m bs"
    using qnodesD(2) [OF q ft(1)] as(1) by (auto simp: lseg_append)
  have mh: "m = h" using m(2) lseg_head by (auto simp: h_def)
  have ch_as: "chain ns1 (hs ! f) as"
    using lseg_set_last [OF m(1) as(2) la(3)] by (simp add: ns1_def)
  have ch_other: "chain ns2 e js" if "chain ns e js" "last as \<notin> set js"
    "iss ! t \<noteq> [] \<Longrightarrow> last (iss ! t) \<notin> set js" for e js
    using that by (auto simp: ns2_def ns1_def intro!: chain_upd_other)
  have ch_t: "chain ns2 (hs' ! t) (iss ! t @ as)"
  proof (cases "iss ! t = []")
    case True
    with ch_as ft show ?thesis by (simp add: ns2_def hs_def)
  next
    case False
    have "chain ns1 (hs ! t) (iss ! t)"
      unfolding ns1_def using qnodesD(2) [OF q ft(2)] disj [OF la(1), of t] ft(3) tt ff
      by (intro chain_upd_other) auto
    then have "lseg ns2 (hs ! t) (iss ! t) (hs ! f)"
      using lseg_set_last [OF _ False distinct_concat_each [OF dist tt]] False by (simp add: ns2_def)
    moreover have "last (iss ! t) \<notin> set as" using disj [OF lt [OF False], of f] ft(3) ff tt as(1) by auto
    then have "chain ns2 (hs ! f) as"
      using ch_as False by (auto simp: ns2_def intro!: chain_upd_other)
    ultimately show ?thesis using False ft by (auto simp: lseg_append hs_def)
  qed
  have "chain ns2 (hs' ! k) (iss[f := bs, t := iss ! t @ as] ! k)" if k: "k < length hs" for k
  proof -
    have kk: "k < length iss" using k q by (simp add: qnodes_def)
    consider "k = t" | "k = f" | "k \<noteq> t" "k \<noteq> f" by blast
    then show ?thesis
    proof cases
      case 1
      with ch_t tt ft show ?thesis by simp
    next
      case 2
      have "last (iss ! t) \<notin> set bs" if "iss ! t \<noteq> []"
        using disj [OF lt [OF that], of f] ft(3) ff tt as(1) by auto
      with 2 m(2) mh la(2) ft ff ch_other show ?thesis by (simp add: hs_def)
    next
      case 3
      have "chain ns2 (hs ! k) (iss ! k)"
        using disj [OF la(1), of k] disj [OF lt, of k] 3 kk ff tt
        by (intro ch_other qnodesD(2) [OF q k]) auto
      with 3 show ?thesis by (simp add: hs_def)
    qed
  qed
  moreover have ms: "mset (concat (iss[f := bs, t := iss ! t @ as])) = mset (concat iss)"
    using ff tt ft(3) as(1) by (rule mset_concat_move)
  moreover have "nd_use (ns2 ! i) = nd_use (ns ! i)" for i
    by (auto simp: ns2_def ns1_def nth_upd)
  moreover have "length ns2 = length ns" "length hs' = length hs" by (simp_all add: ns1_def ns2_def hs_def)
  ultimately show ?thesis
    using qnodesD(1,4) [OF q] dist mset_eq_setD [OF ms] mset_eq_imp_distinct_iff [OF ms]
    by (simp add: qnodes_def del: set_concat)
qed

section \<open>Queues of processes\<close>

lemma qrepE:
  assumes "qrep ns hs qs"
  obtains iss where "qnodes ns hs iss" "length qs = length hs" "length iss = length hs"
    "\<And>k. k < length hs \<Longrightarrow> nprocs ns (iss ! k) = map Some (qs ! k)"
    "\<And>k. k < length hs \<Longrightarrow> length (iss ! k) = length (qs ! k)"
proof -
  obtain iss where q: "qnodes ns hs iss" "map (nprocs ns) iss = map (map Some) qs"
    using assms by (auto simp: qrep_def)
  then have len: "length iss = length hs" "length qs = length hs"
    by (auto simp: qnodes_def dest: map_eq_imp_length_eq)
  have p: "nprocs ns (iss ! k) = map Some (qs ! k)" if "k < length hs" for k
    using q(2) that len by (metis nth_map)
  then have "length (iss ! k) = length (qs ! k)" if "k < length hs" for k
    using that by (metis length_map nprocs_def)
  with p len q(1) that show thesis by blast
qed

lemma qrepI:
  assumes "qnodes ns hs iss" and "length qs = length hs"
    and "\<And>k. k < length hs \<Longrightarrow> nprocs ns (iss ! k) = map Some (qs ! k)"
  shows "qrep ns hs qs"
  using assms by (auto simp: qrep_def qnodes_def intro!: exI [of _ iss] nth_equalityI)

lemma length_concat_eq:
  "length xss = length yss \<Longrightarrow> (\<And>k. k < length xss \<Longrightarrow> length (xss ! k) = length (yss ! k)) \<Longrightarrow>
   length (concat xss) = length (concat yss)"
  by (simp add: length_concat) (metis length_map map_equality_iff)

lemma nprocs_cong: "(\<And>i. i \<in> set is \<Longrightarrow> nd_p (ns' ! i) = nd_p (ns ! i)) \<Longrightarrow> nprocs ns' is = nprocs ns is"
  by (simp add: nprocs_def)

lemma push_qrep:
  assumes "qrep ns hs qs" and "length (concat qs) < length ns" and "k < length hs"
  shows "\<exists>h ns'. push (hs ! k) p ns = Inr (h, ns') \<and> qrep ns' (hs[k := h]) (qs[k := qs ! k @ [p]]) \<and>
    length ns' = length ns"
proof -
  obtain iss where i: "qnodes ns hs iss" "length qs = length hs" "length iss = length hs"
    "\<And>k. k < length hs \<Longrightarrow> nprocs ns (iss ! k) = map Some (qs ! k)"
    "\<And>k. k < length hs \<Longrightarrow> length (iss ! k) = length (qs ! k)" using assms(1) by (rule qrepE) blast
  have "length (concat iss) = length (concat qs)" using i by (intro length_concat_eq) auto
  then obtain new h ns' where n: "push (hs ! k) p ns = Inr (h, ns')"
    "qnodes ns' (hs[k := h]) (iss[k := iss ! k @ [new]])" "length ns' = length ns"
    "nd_p (ns' ! new) = Some p" "\<forall>i \<in> set (concat iss). nd_p (ns' ! i) = nd_p (ns ! i)"
    using push_qnodes [OF i(1) _ assms(3), of p] assms(2) by auto
  have "nprocs ns' (iss ! j) = map Some (qs ! j)" if "j < length hs" for j
    using that i(3,4) n(5) nth_concat_in by (metis nprocs_cong)
  then have "qrep ns' (hs[k := h]) (qs[k := qs ! k @ [p]])"
    using i n(4) assms(3) by (intro qrepI [OF n(2)]) (auto simp: nth_upd nprocs_def)
  with n show ?thesis by blast
qed

lemma pop_qrep:
  assumes "qrep ns hs qs" and "k < length hs" and "qs ! k = p # ps"
  shows "\<exists>n h ns'. hs ! k = Some n \<and> nd_p (ns ! n) = Some p \<and> pop (hs ! k) ns = (h, ns') \<and>
    qrep ns' (hs[k := h]) (qs[k := ps]) \<and> length ns' = length ns"
proof -
  obtain iss where i: "qnodes ns hs iss" "length qs = length hs" "length iss = length hs"
    "\<And>k. k < length hs \<Longrightarrow> nprocs ns (iss ! k) = map Some (qs ! k)" using assms(1) by (rule qrepE) blast
  obtain n "is" where n: "iss ! k = n # is" "nd_p (ns ! n) = Some p" "nprocs ns is = map Some ps"
    using i(4) [OF assms(2)] assms(3) by (auto simp: nprocs_def map_eq_Cons_conv)
  obtain h ns' where h: "pop (hs ! k) ns = (h, ns')" "qnodes ns' (hs[k := h]) (iss[k := is])"
    "length ns' = length ns" "\<forall>j. nd_p (ns' ! j) = nd_p (ns ! j)"
    using pop_qnodes [OF i(1) assms(2) n(1)] by blast
  have "nprocs ns' js = nprocs ns js" for js using h(4) by (simp add: nprocs_def)
  then have "qrep ns' (hs[k := h]) (qs[k := ps])"
    using i n(3) assms(2) by (intro qrepI [OF h(2)]) (auto simp: nth_upd)
  moreover have "hs ! k = Some n" using qnodesD(2) [OF i(1) assms(2)] n(1) by simp
  ultimately show ?thesis using h n(2) by blast
qed

lemma length_qrep:
  assumes "qrep ns hs qs" and "k < length hs"
  shows "length_q ns (hs ! k) = Some (length (qs ! k))"
proof -
  obtain iss where "qnodes ns hs iss" "length (iss ! k) = length (qs ! k)"
    using assms by (elim qrepE) blast
  with assms(2) show ?thesis using length_q_chain qnodesD(2) by metis
qed

lemma qrep_head_None:
  assumes "qrep ns hs qs" and "k < length hs"
  shows "hs ! k = None \<longleftrightarrow> qs ! k = []"
proof -
  obtain iss where i: "qnodes ns hs iss" "length (iss ! k) = length (qs ! k)"
    using assms by (elim qrepE) blast
  have "chain ns (hs ! k) (iss ! k)" using i(1) assms(2) by (rule qnodesD)
  with i(2) show ?thesis by (cases "iss ! k") auto
qed

lemma due_prefix_drop: "due_prefix tk thr ps js @ drop (length (due_prefix tk thr ps js)) js = js"
  by (metis append_eq_conv_conj due_prefix_def takeWhile_dropWhile_id)

lemma nprocs_take: "nprocs ns (take n is) = take n (nprocs ns is)"
  and nprocs_drop: "nprocs ns (drop n is) = drop n (nprocs ns is)"
  by (simp_all add: nprocs_def take_map drop_map)

text \<open>
  \<^verbatim>\<open>split\<close> moves the longest front segment of overdue processes to the end of the other queue,
  and stamps and promotes exactly these processes.
\<close>

lemma split_q_rep:
  assumes rep: "qrep (surplus_nodes s) (queues s) qs"
    and ft: "f < length (queues s)" "t < length (queues s)" "f \<noteq> t"
    and dist: "distinct (qs ! f)" "set (qs ! f) \<subseteq> {..<length (procs s)}"
    and as_def: "as = due_prefix (ticks s) thr (procs s) (qs ! f)"
  shows "\<exists>ns hs. split_q (Some f) (Some t) thr s = Inr (int (length as),
      s\<lparr>procs := upd_all (aged (ticks s)) as (procs s), surplus_nodes := ns, queues := hs\<rparr>) \<and>
    qrep ns hs (qs[f := drop (length as) (qs ! f), t := qs ! t @ as]) \<and>
    length ns = length (surplus_nodes s) \<and> length hs = length (queues s)"
proof -
  let ?ns = "surplus_nodes s" and ?hs = "queues s"
  obtain iss where i: "qnodes ?ns ?hs iss" "length qs = length ?hs" "length iss = length ?hs"
    "\<And>k. k < length ?hs \<Longrightarrow> nprocs ?ns (iss ! k) = map Some (qs ! k)"
    "\<And>k. k < length ?hs \<Longrightarrow> length (iss ! k) = length (qs ! k)" using rep by (rule qrepE) blast
  have split: "qs ! f = as @ drop (length as) (qs ! f)" by (simp add: as_def due_prefix_drop)
  have loop: "split_loop (ticks s) thr ?ns (?hs ! f) None 0 (procs s) =
      Some (Inr (if length as < length (iss ! f) then Some (iss ! f ! length as) else None,
        if as = [] then None else Some (iss ! f ! (length as - 1)), int (length as),
        upd_all (aged (ticks s)) as (procs s)))"
    using split_loop_chain [OF qnodesD(2) [OF i(1) ft(1)] i(4) [OF ft(1)] dist as_def, of None 0] by simp
  show ?thesis
  proof (cases "as = []")
    case True
    have "qs[f := qs ! f, t := qs ! t] = qs" by simp
    with True loop rep show ?thesis
      by (auto simp: split_q_def qrep_head_None [OF rep ft(1)] intro!: exI [of _ ?ns] exI [of _ ?hs])
  next
    case False
    let ?a = "take (length as) (iss ! f)" and ?b = "drop (length as) (iss ! f)"
    have le: "length as \<le> length (iss ! f)" using split i(5) [OF ft(1)] by (metis length_append le_add1)
    have a: "iss ! f = ?a @ ?b" "?a \<noteq> []" using False le by auto
    have lasta: "last ?a = iss ! f ! (length as - 1)"
      using False le by (subst last_conv_nth [OF a(2)]) (simp add: min_def)
    define ns1 where "ns1 = ?ns[last ?a := (?ns ! last ?a)\<lparr>nd_next := None\<rparr>]"
    define ns2 where "ns2 = (if iss ! t = [] then ns1
      else ns1[last (iss ! t) := (ns1 ! last (iss ! t))\<lparr>nd_next := ?hs ! f\<rparr>])"
    define h where "h = (if ?b = [] then None else Some (hd ?b))"
    define hs where "hs = (if iss ! t = [] then ?hs[t := ?hs ! f, f := h] else ?hs[f := h])"
    have q: "qnodes ns2 hs (iss[f := ?b, t := iss ! t @ ?a])"
      by (rule move_qnodes [OF i(1) ft a ns1_def ns2_def h_def hs_def])
    have h: "h = (if length as < length (iss ! f) then Some (iss ! f ! length as) else None)"
      by (auto simp: h_def hd_drop_conv_nth)
    have np: "nprocs ns2 js = nprocs ?ns js" for js
      by (simp add: ns2_def ns1_def nprocs_upd_next)
    have "qrep ns2 hs (qs[f := drop (length as) (qs ! f), t := qs ! t @ as])"
    proof (rule qrepI [OF q])
      show "length (qs[f := drop (length as) (qs ! f), t := qs ! t @ as]) = length hs"
        using i(2) by (simp add: hs_def)
      show "nprocs ns2 (iss[f := ?b, t := iss ! t @ ?a] ! k) =
          map Some (qs[f := drop (length as) (qs ! f), t := qs ! t @ as] ! k)" if "k < length hs" for k
      proof -
        have "take (length as) (qs ! f) = as" using split by (metis append_eq_conv_conj)
        moreover have "nprocs ?ns (js @ js') = nprocs ?ns js @ nprocs ?ns js'" for js js'
          by (simp add: nprocs_def)
        ultimately show ?thesis
          using that ft i by (auto simp: np hs_def nth_upd nprocs_take nprocs_drop take_map drop_map split: if_splits)
      qed
    qed
    moreover have "split_q (Some f) (Some t) thr s = Inr (int (length as),
        s\<lparr>procs := upd_all (aged (ticks s)) as (procs s), surplus_nodes := ns2, queues := hs\<rparr>)"
    proof (cases "iss ! t")
      case Nil
      then have "?hs ! t = None" using qnodesD(2) [OF i(1) ft(2)] by simp
      moreover have "?hs ! f \<noteq> None" using a qnodesD(2) [OF i(1) ft(1)] by (cases "iss ! f") auto
      ultimately show ?thesis
        using Nil False loop lasta h by (simp add: split_q_def ns2_def ns1_def hs_def Let_def)
    next
      case (Cons th rest)
      then have "?hs ! t = Some th" "list_end ?ns th = Some (last (iss ! t))"
        using qnodesD(2) [OF i(1) ft(2)] list_end_chain [of ?ns th "iss ! t"] by auto
      moreover have "?hs ! f \<noteq> None" using a qnodesD(2) [OF i(1) ft(1)] by (cases "iss ! f") auto
      ultimately show ?thesis
        using Cons False loop lasta h by (simp add: split_q_def ns2_def ns1_def hs_def Let_def)
    qed
    moreover have "length ns2 = length ?ns" "length hs = length ?hs" by (simp_all add: ns2_def ns1_def hs_def)
    ultimately show ?thesis by blast
  qed
qed

section \<open>The contract\<close>

text \<open>
  What the scheduler relies on: a bank of \<open>nq\<close> FIFO queues with room for \<open>cap\<close> entries in all.
  \<open>frame\<close> is the rest of the state, which the operations leave alone.
\<close>

locale multi_queue =
  fixes rep :: "'s \<Rightarrow> nat list list \<Rightarrow> bool"
    and enq :: "int \<Rightarrow> nat \<Rightarrow> 's \<Rightarrow> kerr + 's"
    and deq :: "nat \<Rightarrow> 's \<Rightarrow> kerr + nat option \<times> 's"
    and len :: "nat \<Rightarrow> 's \<Rightarrow> nat option"
    and frame :: "'s \<Rightarrow> 's"
    and nq :: nat and cap :: nat
  assumes rep_len: "rep s qs \<Longrightarrow> length qs = nq"
    and enq_rep: "rep s qs \<Longrightarrow> 0 \<le> k \<Longrightarrow> nat k < nq \<Longrightarrow> length (concat qs) < cap \<Longrightarrow>
      \<exists>t. enq k p s = Inr t \<and> rep t (qs[nat k := qs ! nat k @ [p]]) \<and> frame t = frame s"
    and deq_rep: "rep s qs \<Longrightarrow> i < nq \<Longrightarrow> qs ! i = p # ps \<Longrightarrow>
      \<exists>t. deq i s = Inr (Some p, t) \<and> rep t (qs[i := ps]) \<and> frame t = frame s"
    and len_rep: "rep s qs \<Longrightarrow> i < nq \<Longrightarrow> len i s = Some (length (qs ! i))"

text \<open>
  The scheduler's loop \<^verbatim>\<open>for (i = 0; i < NUM_QUEUES; i++)\<close>: the first queue that is not empty
  gives the process, for any implementation of the queues.
\<close>

fun first_nonempty ::
  "(nat \<Rightarrow> 's \<Rightarrow> nat option) \<Rightarrow> (nat \<Rightarrow> 's \<Rightarrow> kerr + nat option \<times> 's) \<Rightarrow> nat list \<Rightarrow> 's
   \<Rightarrow> kerr + nat option \<times> 's" where
  "first_nonempty len deq [] s = Inr (None, s)"
| "first_nonempty len deq (i # is) s =
     (case len i s of
        None \<Rightarrow> Inl Loops
      | Some n \<Rightarrow> if n = 0 then first_nonempty len deq is s else deq i s)"

context multi_queue
begin

lemma first_nonempty_empty:
  assumes "rep s qs" and "\<And>k. k \<in> set is \<Longrightarrow> k < nq \<and> qs ! k = []"
  shows "first_nonempty len deq is s = Inr (None, s)"
  using assms(2) by (induction "is") (auto simp: len_rep [OF assms(1)])

lemma first_nonempty_found:
  assumes "rep s qs" and "k < nq" and "\<And>j. j < k \<Longrightarrow> qs ! j = []" and "qs ! k = p # ps"
  shows "\<exists>t. first_nonempty len deq [0..<nq] s = Inr (Some p, t) \<and> rep t (qs[k := ps]) \<and> frame t = frame s"
proof -
  have "first_nonempty len deq (map (\<lambda>j. j) [i..<nq]) s = deq k s" if "i \<le> k" for i
    using that
  proof (induction "k - i" arbitrary: i)
    case 0
    then have "i = k" by simp
    with assms len_rep [OF assms(1,2)] show ?case by (simp add: upt_conv_Cons)
  next
    case (Suc d)
    then have "i < k" "d = k - Suc i" by auto
    with Suc assms(2,3) len_rep [OF assms(1), of i] show ?case by (simp add: upt_conv_Cons)
  qed
  from this [of 0] deq_rep [OF assms(1,2,4)] show ?thesis by auto
qed

end

section \<open>The queues implement the contract\<close>

text \<open>The two uses the kernel makes of the list operations on \<^verbatim>\<open>queues[k]\<close>.\<close>

definition enqueue :: "int \<Rightarrow> nat \<Rightarrow> 'a pstate_scheme \<Rightarrow> kerr + 'a pstate_scheme" where
  "enqueue k p s =
     (if k < 0 \<or> int NUM_QUEUES \<le> k then Inl PageFault
      else bindE (push (queues s ! nat k) p (surplus_nodes s)) (\<lambda>(h, ns).
        Inr (s\<lparr>queues := (queues s)[nat k := h], surplus_nodes := ns\<rparr>)))"

definition dequeue :: "nat \<Rightarrow> 'a pstate_scheme \<Rightarrow> kerr + nat option \<times> 'a pstate_scheme" where
  "dequeue k s =
     (case queues s ! k of
        None \<Rightarrow> Inl NullDeref
      | Some n \<Rightarrow>
         (let p = nd_p (surplus_nodes s ! n);
              (h, ns) = pop (queues s ! k) (surplus_nodes s)
          in Inr (p, s\<lparr>queues := (queues s)[k := h], surplus_nodes := ns\<rparr>)))"

definition qbank :: "'a pstate_scheme \<Rightarrow> nat list list \<Rightarrow> bool" where
  "qbank s qs \<longleftrightarrow> qrep (surplus_nodes s) (queues s) qs \<and> length (queues s) = NUM_QUEUES \<and>
     length (surplus_nodes s) = NPROC"

definition qframe :: "'a pstate_scheme \<Rightarrow> 'a pstate_scheme" where
  "qframe s = s\<lparr>queues := [], surplus_nodes := []\<rparr>"

lemma qframe_eq_iff: "qframe t = qframe s \<longleftrightarrow> t = s\<lparr>queues := queues t, surplus_nodes := surplus_nodes t\<rparr>"
  by (cases s, cases t) (auto simp: qframe_def)

lemma qbank_length: "qbank s qs \<Longrightarrow> length qs = NUM_QUEUES"
  by (auto simp: qbank_def elim: qrepE)

interpretation mlq: multi_queue qbank enqueue dequeue "\<lambda>k s. length_q (surplus_nodes s) (queues s ! k)"
  qframe NUM_QUEUES NPROC
proof unfold_locales
  fix s :: "'a pstate_scheme" and qs
  assume q: "qbank s qs"
  then show "length qs = NUM_QUEUES" by (rule qbank_length)
  show "\<exists>t. enqueue k p s = Inr t \<and> qbank t (qs[nat k := qs ! nat k @ [p]]) \<and> qframe t = qframe s"
    if "0 \<le> k" "nat k < NUM_QUEUES" "length (concat qs) < NPROC" for k p
    using push_qrep [of "surplus_nodes s" "queues s" qs "nat k" p] q that
    by (auto simp: qbank_def enqueue_def qframe_def)
  show "\<exists>t. dequeue k s = Inr (Some p, t) \<and> qbank t (qs[k := ps]) \<and> qframe t = qframe s"
    if "k < NUM_QUEUES" "qs ! k = p # ps" for k p ps
    using pop_qrep [of "surplus_nodes s" "queues s" qs k p ps] q that
    by (auto simp: qbank_def dequeue_def qframe_def)
  show "length_q (surplus_nodes s) (queues s ! k) = Some (length (qs ! k))" if "k < NUM_QUEUES" for k
    using length_qrep [of "surplus_nodes s" "queues s" qs k] q that by (simp add: qbank_def)
qed

end
