(* ===== verification/Proc_Table.thy ===== *)
theory Proc_Table
  imports Sched_Queue
begin

text \<open>
  The operations of \<^verbatim>\<open>proc.c\<close> on the process table, except those that touch open files (theory \<open>Sys_Proc\<close>)
  and the scheduler itself (theory \<open>Scheduler\<close>). A routine that gives up the CPU is modelled up to the
  point where \<^verbatim>\<open>sched\<close> switches to the scheduler: its result is the state that the scheduler
  finds, with \<^verbatim>\<open>ptable.lock\<close> held. What the routine does when it is resumed is a definition of its own.
\<close>

section \<open>Initialisation and allocation\<close>

definition pinit :: "'a pstate_scheme \<Rightarrow> kerr + 'a pstate_scheme" where
  "pinit s =
     (if SCHEDULER s = SCHED_MLFQ then
        bindE (acquire L_ptable s) (\<lambda>s.
        release L_ptable (s\<lparr>queues := replicate NUM_QUEUES None,
          surplus_nodes := map (\<lambda>n. n\<lparr>nd_use := False\<rparr>) (surplus_nodes s)\<rparr>))
      else Inr s)"

text \<open>Sizes of \<^verbatim>\<open>struct trapframe\<close> and \<^verbatim>\<open>struct context\<close>, and the offset of \<^verbatim>\<open>eip\<close> in the latter.\<close>

definition TF_SIZE :: u32 where "TF_SIZE = 76"
definition CONTEXT_SIZE :: u32 where "CONTEXT_SIZE = 20"
definition CONTEXT_EIP :: u32 where "CONTEXT_EIP = 16"

definition allocproc :: "'a pstate_scheme \<Rightarrow> kerr + nat option \<times> 'a pstate_scheme" where
  "allocproc s =
     bindE (acquire L_ptable s) (\<lambda>s.
       case scan (\<lambda>p. p_state p = UNUSED) 0 (procs s) of
         None \<Rightarrow> bindE (release L_ptable s) (\<lambda>s. Inr (None, s))
       | Some i \<Rightarrow>
           bindE (release L_ptable
               (upd_proc i (\<lambda>p. p\<lparr>p_state := EMBRYO, p_pid := nextpid s,
                   p_start_time := ticks s, p_run_time := 0, p_end_time := 0,
                   p_priority := 60, p_timeslices := 0,
                   p_age_time := ticks s, p_cur_timeslices := 0, p_punish := False, p_queue := 0,
                   p_ticks := replicate NUM_QUEUES 0, p_num_run := 0\<rparr>)
                 (s\<lparr>nextpid := nextpid s + 1\<rparr>))) (\<lambda>s.
           bindE (kalloc s) (\<lambda>(k, s).
             if k = 0 then Inr (None, upd_proc i (\<lambda>p. p\<lparr>p_kstack := 0, p_state := UNUSED\<rparr>) s)
             else
              (let tf = k + KSTACKSIZE - TF_SIZE;
                   ctx = tf - 4 - CONTEXT_SIZE;
                   s = upd_proc i (\<lambda>p. p\<lparr>p_kstack := k, p_tf := tf, p_context := ctx\<rparr>) s;
                   s = store (tf - 4) (trapret_addr s) s;
                   s = s\<lparr>mem := memset ctx 0 CONTEXT_SIZE (mem s)\<rparr>
               in Inr (Some i, store (ctx + CONTEXT_EIP) (forkret_addr s) s)))))"

section \<open>Accounting\<close>

definition inc_runtime :: "'a pstate_scheme \<Rightarrow> kerr + 'a pstate_scheme" where
  "inc_runtime s =
     bindE (acquire L_ptable s) (\<lambda>s.
       release L_ptable (s\<lparr>procs := map (\<lambda>p.
         if p_state p = RUNNING then p\<lparr>p_run_time := p_run_time p + 1\<rparr> else p) (procs s)\<rparr>))"

text \<open>An update of the current process under \<^verbatim>\<open>ptable.lock\<close>.\<close>

definition locked_self :: "(proc \<Rightarrow> kerr + proc) \<Rightarrow> 'a pstate_scheme \<Rightarrow> kerr + 'a pstate_scheme" where
  "locked_self f s =
     bindE (acquire L_ptable s) (\<lambda>s.
       case myproc s of
         None \<Rightarrow> Inl NullDeref
       | Some i \<Rightarrow> bindE (f (procs s ! i)) (\<lambda>p. release L_ptable (upd_proc i (\<lambda>_. p) s)))"

definition punisher :: "'a pstate_scheme \<Rightarrow> kerr + 'a pstate_scheme" where
  "punisher = locked_self (\<lambda>p. Inr (p\<lparr>p_punish := True\<rparr>))"

definition inc_timeslice :: "'a pstate_scheme \<Rightarrow> kerr + 'a pstate_scheme" where
  "inc_timeslice = locked_self (\<lambda>p. Inr (p\<lparr>p_cur_timeslices := p_cur_timeslices p + 1\<rparr>))"

definition inc_pinfo_ticks :: "'a pstate_scheme \<Rightarrow> kerr + 'a pstate_scheme" where
  "inc_pinfo_ticks = locked_self (\<lambda>p.
     if p_queue p < 0 \<or> int NUM_QUEUES \<le> p_queue p then Inl PageFault
     else Inr (p\<lparr>p_ticks := (p_ticks p)[nat (p_queue p) := p_ticks p ! nat (p_queue p) + 1]\<rparr>))"

text \<open>\<^verbatim>\<open>struct proc_stat\<close>.\<close>

record proc_stat =
  ps_pid :: u32
  ps_runtime :: u32
  ps_num_run :: u32
  ps_current_queue :: int
  ps_ticks :: "u32 list"

definition getpinfo :: "u32 \<Rightarrow> 'a pstate_scheme \<Rightarrow> kerr + proc_stat option \<times> 'a pstate_scheme" where
  "getpinfo pid s =
     bindE (acquire L_ptable s) (\<lambda>s.
       case scan (\<lambda>p. p_pid p = pid) 0 (procs s) of
         None \<Rightarrow> bindE (release L_ptable s) (\<lambda>s. Inr (None, s))
       | Some i \<Rightarrow>
          (let p = procs s ! i;
               ps = (if SCHEDULER s = SCHED_MLFQ then
                       \<lparr>ps_pid = p_pid p, ps_runtime = p_run_time p, ps_num_run = p_num_run p,
                        ps_current_queue = p_queue p, ps_ticks = p_ticks p\<rparr>
                     else
                       \<lparr>ps_pid = p_pid p, ps_runtime = p_run_time p, ps_num_run = p_num_run p,
                        ps_current_queue = -1, ps_ticks = replicate NUM_QUEUES (-1)\<rparr>)
           in bindE (release L_ptable s) (\<lambda>s. Inr (Some ps, s))))"

section \<open>Giving up the CPU\<close>

text \<open>
  \<^verbatim>\<open>sched\<close> up to the switch. \<^verbatim>\<open>mycpu()->ncli\<close> counts the locks held, and interrupts are off while
  there are any (theory \<open>Spinlock\<close>).
\<close>

definition sched :: "'a pstate_scheme \<Rightarrow> kerr + 'a pstate_scheme" where
  "sched s =
     (if \<not> holding L_ptable s then Inl (Panic ''sched ptable.lock'')
      else if card (held s) \<noteq> 1 then Inl (Panic ''sched locks'')
      else case myproc s of
             None \<Rightarrow> Inl NullDeref
           | Some p \<Rightarrow>
              (if p_state (procs s ! p) = RUNNING then Inl (Panic ''sched running'') else Inr s))"

definition yield :: "'a pstate_scheme \<Rightarrow> kerr + 'a pstate_scheme" where
  "yield s =
     bindE (acquire L_ptable s) (\<lambda>s.
       case myproc s of
         None \<Rightarrow> Inl NullDeref
       | Some i \<Rightarrow> sched (upd_proc i (\<lambda>p. p\<lparr>p_state := RUNNABLE\<rparr>) s))"

text \<open>Back from the scheduler, \<^verbatim>\<open>yield\<close> (and \<^verbatim>\<open>forkret\<close>, for a new process) releases the lock.\<close>

definition yield_exit :: "'a pstate_scheme \<Rightarrow> kerr + 'a pstate_scheme" where
  "yield_exit s = release L_ptable s"

definition sleep :: "chan \<Rightarrow> lock option \<Rightarrow> 'a pstate_scheme \<Rightarrow> kerr + 'a pstate_scheme" where
  "sleep ch lk s =
     (case (myproc s, lk) of
        (None, _) \<Rightarrow> Inl (Panic ''sleep'')
      | (Some i, None) \<Rightarrow> Inl (Panic ''sleep without lk'')
      | (Some i, Some l) \<Rightarrow>
          bindE (if l \<noteq> L_ptable then bindE (acquire L_ptable s) (release l) else Inr s) (\<lambda>s.
            sched (upd_proc i (\<lambda>p. p\<lparr>p_chan := Some ch, p_state := SLEEPING\<rparr>) s)))"

definition sleep_exit :: "nat \<Rightarrow> lock \<Rightarrow> 'a pstate_scheme \<Rightarrow> kerr + 'a pstate_scheme" where
  "sleep_exit i l s =
     (let s = upd_proc i (\<lambda>p. p\<lparr>p_chan := None\<rparr>) s in
      if l \<noteq> L_ptable then bindE (release L_ptable s) (acquire l) else Inr s)"

text \<open>
  The result of \<^verbatim>\<open>set_priority\<close>: when the priority changes, the old one is what the caller gets
  after the process has run again.
\<close>

definition set_priority :: "int \<Rightarrow> 'a pstate_scheme \<Rightarrow> kerr + int \<times> 'a pstate_scheme" where
  "set_priority new s =
     (if new < 0 \<or> new > 100 then Inr (-1, s)
      else
        bindE (acquire L_ptable s) (\<lambda>s.
          case myproc s of
            None \<Rightarrow> Inl NullDeref
          | Some i \<Rightarrow>
             (let old = p_priority (procs s ! i);
                  s = upd_proc i (\<lambda>p. p\<lparr>p_priority := new\<rparr>) s;
                  s = (if new \<noteq> old then upd_proc i (\<lambda>p. p\<lparr>p_timeslices := 0\<rparr>) s else s)
              in bindE (release L_ptable s) (\<lambda>s.
                 if new \<noteq> old then bindE (yield s) (\<lambda>s. Inr (old, s)) else Inr (old, s)))))"

section \<open>Waking up\<close>

text \<open>A sleeping process becomes runnable, and under MLFQ joins the end of its queue.\<close>

definition make_runnable :: "nat \<Rightarrow> 'a pstate_scheme \<Rightarrow> kerr + 'a pstate_scheme" where
  "make_runnable i s =
     (let s = upd_proc i (\<lambda>p. p\<lparr>p_state := RUNNABLE\<rparr>) s in
      if SCHEDULER s = SCHED_MLFQ then
        bindE (enqueue (p_queue (procs s ! i)) i s) (\<lambda>s.
          Inr (upd_proc i (\<lambda>p. p\<lparr>p_cur_timeslices := 0, p_age_time := ticks s\<rparr>) s))
      else Inr s)"

definition wakeup1 :: "chan option \<Rightarrow> 'a pstate_scheme \<Rightarrow> kerr + 'a pstate_scheme" where
  "wakeup1 ch s =
     foldE (\<lambda>i s. if p_state (procs s ! i) = SLEEPING \<and> p_chan (procs s ! i) = ch
                  then make_runnable i s else Inr s) [0..<NPROC] s"

definition wakeup :: "chan option \<Rightarrow> 'a pstate_scheme \<Rightarrow> kerr + 'a pstate_scheme" where
  "wakeup ch s = bindE (acquire L_ptable s) (\<lambda>s. bindE (wakeup1 ch s) (release L_ptable))"

definition kill :: "u32 \<Rightarrow> 'a pstate_scheme \<Rightarrow> kerr + int \<times> 'a pstate_scheme" where
  "kill pid s =
     bindE (acquire L_ptable s) (\<lambda>s.
       case scan (\<lambda>p. p_pid p = pid) 0 (procs s) of
         None \<Rightarrow> bindE (release L_ptable s) (\<lambda>s. Inr (-1, s))
       | Some i \<Rightarrow>
          (let s = upd_proc i (\<lambda>p. p\<lparr>p_killed := True\<rparr>) s in
           bindE (if p_state (procs s ! i) = SLEEPING then make_runnable i s else Inr s) (\<lambda>s.
           bindE (release L_ptable s) (\<lambda>s. Inr (0, s)))))"

section \<open>Life cycle: the critical sections\<close>

text \<open>The end of \<^verbatim>\<open>fork\<close> and of \<^verbatim>\<open>userinit\<close>: the new process may run.\<close>

definition publish :: "nat \<Rightarrow> 'a pstate_scheme \<Rightarrow> kerr + 'a pstate_scheme" where
  "publish i s =
     bindE (acquire L_ptable s) (\<lambda>s.
       let s = upd_proc i (\<lambda>p. p\<lparr>p_state := RUNNABLE\<rparr>) s in
       bindE (if SCHEDULER s = SCHED_MLFQ then enqueue 0 i s else Inr s) (release L_ptable))"

text \<open>The end of \<^verbatim>\<open>exit\<close>, from the acquisition of the lock to the switch.\<close>

definition reparent :: "nat \<Rightarrow> 'a pstate_scheme \<Rightarrow> kerr + 'a pstate_scheme" where
  "reparent cur s =
     foldE (\<lambda>i s.
       if p_parent (procs s ! i) = Some cur then
         (let s = upd_proc i (\<lambda>p. p\<lparr>p_parent := initproc s\<rparr>) s in
          if p_state (procs s ! i) = ZOMBIE then wakeup1 (map_option Ch_proc (initproc s)) s else Inr s)
       else Inr s) [0..<NPROC] s"

definition exit_tail :: "nat \<Rightarrow> 'a pstate_scheme \<Rightarrow> kerr + 'a pstate_scheme" where
  "exit_tail cur s =
     bindE (acquire L_ptable s) (\<lambda>s.
     bindE (wakeup1 (map_option Ch_proc (p_parent (procs s ! cur))) s) (\<lambda>s.
     bindE (reparent cur s) (\<lambda>s.
       sched (upd_proc cur (\<lambda>p. p\<lparr>p_state := ZOMBIE\<rparr>) s))))"

text \<open>
  \<^verbatim>\<open>wait\<close>: the scan for an exited child (whether there are children at all, and the first
  zombie), the release of a zombie's resources, and one iteration of the loop. An iteration
  returns a value, or puts the process to sleep; then the result is \<open>None\<close>, and the process goes
  on with \<open>wait_resume\<close> when it is woken up.
\<close>

fun wait_scan :: "nat \<Rightarrow> nat \<Rightarrow> proc list \<Rightarrow> bool \<Rightarrow> bool \<times> nat option" where
  "wait_scan cur i [] havekids = (havekids, None)"
| "wait_scan cur i (p # ps) havekids =
     (if p_parent p \<noteq> Some cur then wait_scan cur (Suc i) ps havekids
      else if p_state p = ZOMBIE then (True, Some i)
      else wait_scan cur (Suc i) ps True)"

definition reap :: "nat \<Rightarrow> 'a pstate_scheme \<Rightarrow> kerr + u32 \<times> 'a pstate_scheme" where
  "reap i s =
     (let pid = p_pid (procs s ! i) in
      bindE (kfree (p_kstack (procs s ! i)) s) (\<lambda>s.
      let s = upd_proc i (\<lambda>p. p\<lparr>p_kstack := 0\<rparr>) s in
      bindE (freevm (p_pgdir (procs s ! i)) s) (\<lambda>s.
      bindE (release L_ptable
        (upd_proc i (\<lambda>p. p\<lparr>p_pid := 0, p_parent := None, p_name := (p_name p)[0 := 0],
           p_killed := False, p_state := UNUSED\<rparr>) s)) (\<lambda>s. Inr (pid, s)))))"

definition wait_iter :: "nat \<Rightarrow> 'a pstate_scheme \<Rightarrow> kerr + u32 option \<times> 'a pstate_scheme" where
  "wait_iter cur s =
     (case wait_scan cur 0 (procs s) False of
        (_, Some i) \<Rightarrow> bindE (reap i s) (\<lambda>(pid, s). Inr (Some pid, s))
      | (havekids, None) \<Rightarrow>
          (if \<not> havekids \<or> p_killed (procs s ! cur) then
             bindE (release L_ptable s) (\<lambda>s. Inr (Some (-1), s))
           else bindE (sleep (Ch_proc cur) (Some L_ptable) s) (\<lambda>s. Inr (None, s))))"

definition wait :: "'a pstate_scheme \<Rightarrow> kerr + u32 option \<times> 'a pstate_scheme" where
  "wait s = (case myproc s of
       None \<Rightarrow> Inl NullDeref
     | Some cur \<Rightarrow> bindE (acquire L_ptable s) (wait_iter cur))"

definition wait_resume :: "nat \<Rightarrow> 'a pstate_scheme \<Rightarrow> kerr + u32 option \<times> 'a pstate_scheme" where
  "wait_resume cur s = bindE (sleep_exit cur L_ptable s) (wait_iter cur)"

text \<open>\<^verbatim>\<open>waitx\<close> is \<^verbatim>\<open>wait\<close> with the run time and the waiting time of the child.\<close>

record wtimes =
  wtime :: u32
  rtime :: u32

definition waitx_iter ::
  "nat \<Rightarrow> 'a pstate_scheme \<Rightarrow> kerr + (u32 \<times> wtimes option) option \<times> 'a pstate_scheme" where
  "waitx_iter cur s =
     (case wait_scan cur 0 (procs s) False of
        (_, Some i) \<Rightarrow>
         (let p = procs s ! i;
              w = \<lparr>wtime = p_end_time p - p_start_time p - p_run_time p, rtime = p_run_time p\<rparr>
          in bindE (reap i s) (\<lambda>(pid, s). Inr (Some (pid, Some w), s)))
      | (havekids, None) \<Rightarrow>
          (if \<not> havekids \<or> p_killed (procs s ! cur) then
             bindE (release L_ptable s) (\<lambda>s. Inr (Some (-1, None), s))
           else bindE (sleep (Ch_proc cur) (Some L_ptable) s) (\<lambda>s. Inr (None, s))))"

definition waitx ::
  "'a pstate_scheme \<Rightarrow> kerr + (u32 \<times> wtimes option) option \<times> 'a pstate_scheme" where
  "waitx s = (case myproc s of
       None \<Rightarrow> Inl NullDeref
     | Some cur \<Rightarrow> bindE (acquire L_ptable s) (waitx_iter cur))"

definition waitx_resume ::
  "nat \<Rightarrow> 'a pstate_scheme \<Rightarrow> kerr + (u32 \<times> wtimes option) option \<times> 'a pstate_scheme" where
  "waitx_resume cur s = bindE (sleep_exit cur L_ptable s) (waitx_iter cur)"

end
