(* ===== verification/Scheduler.thy ===== *)
theory Scheduler
  imports Proc_Table "HOL-Library.Product_Lexorder"
begin

text \<open>
  The four schedulers of \<^verbatim>\<open>proc.c\<close>, one of which is compiled in: round robin, first come first
  served, priority based, and the multilevel feedback queue. Each iteration of \<^verbatim>\<open>scheduler\<close> is two
  steps: up to the switch to the chosen process, and from the switch back on.
\<close>

section \<open>Running a process\<close>

definition switchuvm :: "nat option \<Rightarrow> 'a pstate_scheme \<Rightarrow> kerr + 'a pstate_scheme" where
  "switchuvm p s =
     (case p of
        None \<Rightarrow> Inl (Panic ''switchuvm: no process'')
      | Some i \<Rightarrow>
          (if p_kstack (procs s ! i) = 0 then Inl (Panic ''switchuvm: no kstack'')
           else if p_pgdir (procs s ! i) = 0 then Inl (Panic ''switchuvm: no pgdir'')
           else Inr (s\<lparr>esp0 := p_kstack (procs s ! i) + KSTACKSIZE, cr3 := V2P (p_pgdir (procs s ! i))\<rparr>)))"

text \<open>\<^verbatim>\<open>c->proc = p; p->num_run++; switchuvm(p); p->state = RUNNING\<close>, common to the schedulers.\<close>

definition run_proc :: "nat \<Rightarrow> 'a pstate_scheme \<Rightarrow> kerr + 'a pstate_scheme" where
  "run_proc i s =
     (let s = set_myproc (Some i) s;
          s = upd_proc i (\<lambda>p. p\<lparr>p_num_run := p_num_run p + 1\<rparr>) s
      in bindE (switchuvm (Some i) s) (\<lambda>s.
         Inr (upd_proc i (\<lambda>p. p\<lparr>p_state := RUNNING\<rparr>) s)))"

section \<open>Selection\<close>

text \<open>Round robin continues the pass over the table from entry \<open>i\<close>.\<close>

definition rr_select :: "nat \<Rightarrow> proc list \<Rightarrow> nat option" where
  "rr_select i ps = scan (\<lambda>p. p_state p = RUNNABLE) i (drop i ps)"

text \<open>The loops of FCFS and PBS with their running minima.\<close>

fun fcfs_loop :: "nat \<Rightarrow> proc list \<Rightarrow> int \<Rightarrow> nat option \<Rightarrow> nat option" where
  "fcfs_loop i [] min_time sel = sel"
| "fcfs_loop i (p # ps) min_time sel =
     (if p_state p \<noteq> RUNNABLE then fcfs_loop (Suc i) ps min_time sel
      else if sint (p_start_time p) < min_time then fcfs_loop (Suc i) ps (sint (p_start_time p)) (Some i)
      else fcfs_loop (Suc i) ps min_time sel)"

definition fcfs_select :: "u32 \<Rightarrow> proc list \<Rightarrow> nat option" where
  "fcfs_select tk ps = fcfs_loop 0 ps (sint (tk + 100)) None"

fun pbs_loop :: "nat \<Rightarrow> proc list \<Rightarrow> int \<Rightarrow> int \<Rightarrow> nat option \<Rightarrow> nat option" where
  "pbs_loop i [] high_priority min_timeslices sel = sel"
| "pbs_loop i (p # ps) high_priority min_timeslices sel =
     (if p_state p \<noteq> RUNNABLE then pbs_loop (Suc i) ps high_priority min_timeslices sel
      else if p_priority p < high_priority then
        pbs_loop (Suc i) ps (p_priority p) (sint (p_timeslices p)) (Some i)
      else if p_priority p = high_priority \<and> sint (p_timeslices p) < min_timeslices then
        pbs_loop (Suc i) ps high_priority (sint (p_timeslices p)) (Some i)
      else pbs_loop (Suc i) ps high_priority min_timeslices sel)"

definition pbs_select :: "u32 \<Rightarrow> proc list \<Rightarrow> nat option" where
  "pbs_select tk ps = pbs_loop 0 ps 101 (sint (tk + 100)) None"

text \<open>MLFQ: aging from each queue to the one above it, then the head of the first queue.\<close>

definition mlfq_age :: "'a pstate_scheme \<Rightarrow> kerr + 'a pstate_scheme" where
  "mlfq_age s = foldE (\<lambda>i s. bindE (split_q (Some i) (Some (i - 1)) AGE_LIMIT s) (\<lambda>(_, s). Inr s))
     [1..<NUM_QUEUES] s"

definition mlfq_select :: "'a pstate_scheme \<Rightarrow> kerr + nat option \<times> 'a pstate_scheme" where
  "mlfq_select s =
     first_nonempty (\<lambda>k s. length_q (surplus_nodes s) (queues s ! k)) dequeue [0..<NUM_QUEUES] s"

section \<open>One iteration, up to the switch\<close>

text \<open>
  The result is the process switched to, with \<^verbatim>\<open>ptable.lock\<close> held, or none, with the lock released.
\<close>

definition release_none :: "'a pstate_scheme \<Rightarrow> kerr + nat option \<times> 'a pstate_scheme" where
  "release_none s = bindE (release L_ptable s) (\<lambda>s. Inr (None, s))"

definition scheduler_rr_from :: "nat \<Rightarrow> 'a pstate_scheme \<Rightarrow> kerr + nat option \<times> 'a pstate_scheme" where
  "scheduler_rr_from i s =
     (case rr_select i (procs s) of
        None \<Rightarrow> release_none s
      | Some j \<Rightarrow> bindE (run_proc j s) (\<lambda>s. Inr (Some j, s)))"

definition scheduler_rr :: "'a pstate_scheme \<Rightarrow> kerr + nat option \<times> 'a pstate_scheme" where
  "scheduler_rr s = bindE (acquire L_ptable s) (scheduler_rr_from 0)"

definition scheduler_fcfs :: "'a pstate_scheme \<Rightarrow> kerr + nat option \<times> 'a pstate_scheme" where
  "scheduler_fcfs s =
     bindE (acquire L_ptable s) (\<lambda>s.
       case fcfs_select (ticks s) (procs s) of
         None \<Rightarrow> release_none s
       | Some j \<Rightarrow> bindE (run_proc j s) (\<lambda>s. Inr (Some j, s)))"

definition scheduler_pbs :: "'a pstate_scheme \<Rightarrow> kerr + nat option \<times> 'a pstate_scheme" where
  "scheduler_pbs s =
     bindE (acquire L_ptable s) (\<lambda>s.
       case pbs_select (ticks s) (procs s) of
         None \<Rightarrow> release_none s
       | Some j \<Rightarrow>
           bindE (run_proc j (upd_proc j (\<lambda>p. p\<lparr>p_timeslices := p_timeslices p + 1\<rparr>) s)) (\<lambda>s.
             Inr (Some j, s)))"

definition scheduler_mlfq :: "'a pstate_scheme \<Rightarrow> kerr + nat option \<times> 'a pstate_scheme" where
  "scheduler_mlfq s =
     bindE (acquire L_ptable s) (\<lambda>s.
     bindE (mlfq_age s) (\<lambda>s.
     bindE (mlfq_select s) (\<lambda>(p, s).
       case p of
         None \<Rightarrow> release_none s
       | Some j \<Rightarrow>
          (if p_state (procs s ! j) \<noteq> RUNNABLE then release_none s
           else
             bindE (run_proc j (upd_proc j (\<lambda>p. p\<lparr>p_cur_timeslices := p_cur_timeslices p + 1\<rparr>) s)) (\<lambda>s.
               Inr (Some j, s))))))"

definition scheduler :: "'a pstate_scheme \<Rightarrow> kerr + nat option \<times> 'a pstate_scheme" where
  "scheduler s =
     (case SCHEDULER s of
        SCHED_RR \<Rightarrow> scheduler_rr s
      | SCHED_FCFS \<Rightarrow> scheduler_fcfs s
      | SCHED_PBS \<Rightarrow> scheduler_pbs s
      | SCHED_MLFQ \<Rightarrow> scheduler_mlfq s)"

section \<open>Back from the process\<close>

text \<open>
  MLFQ puts a process that is still runnable back: at the end of its queue, or one queue
  further down if it used up its time there.
\<close>

definition mlfq_requeue :: "nat \<Rightarrow> 'a pstate_scheme \<Rightarrow> kerr + 'a pstate_scheme" where
  "mlfq_requeue i s =
     (if p_state (procs s ! i) = RUNNABLE then
       (if \<not> p_punish (procs s ! i) then
         (let s = upd_proc i (\<lambda>p. p\<lparr>p_cur_timeslices := 0, p_age_time := ticks s\<rparr>) s
          in enqueue (p_queue (procs s ! i)) i s)
        else
         (let s = upd_proc i (\<lambda>p. p\<lparr>p_cur_timeslices := 0, p_punish := False, p_age_time := ticks s\<rparr>) s;
              s = (if p_queue (procs s ! i) \<noteq> int NUM_QUEUES - 1
                   then upd_proc i (\<lambda>p. p\<lparr>p_queue := p_queue p + 1\<rparr>) s else s)
          in enqueue (p_queue (procs s ! i)) i s))
      else Inr s)"

text \<open>
  The state after \<^verbatim>\<open>swtch\<close> returns in the scheduler of process \<open>i\<close>: \<^verbatim>\<open>switchkvm(); c->proc = 0\<close>
  and the rest of the iteration. Round robin goes on with its pass and may switch to the
  next process at once; the others release the lock.
\<close>

definition scheduler_back :: "nat \<Rightarrow> 'a pstate_scheme \<Rightarrow> kerr + nat option \<times> 'a pstate_scheme" where
  "scheduler_back i s =
     (let s = set_myproc None (switchkvm s) in
      case SCHEDULER s of
        SCHED_RR \<Rightarrow> scheduler_rr_from (Suc i) s
      | SCHED_MLFQ \<Rightarrow> bindE (mlfq_requeue i s) release_none
      | _ \<Rightarrow> release_none s)"

section \<open>What is selected\<close>

text \<open>
  The loops of FCFS and PBS are the same search for the first entry with the least key, the key being
  the creation time and the pair of priority and number of time slices.
\<close>

fun min_loop :: "('p \<Rightarrow> bool) \<Rightarrow> ('p \<Rightarrow> 'k :: linorder) \<Rightarrow> nat \<Rightarrow> 'p list \<Rightarrow> 'k \<Rightarrow> nat option \<Rightarrow> nat option" where
  "min_loop P key i [] m sel = sel"
| "min_loop P key i (x # xs) m sel =
     (if P x \<and> key x < m then min_loop P key (Suc i) xs (key x) (Some i)
      else min_loop P key (Suc i) xs m sel)"

lemma fcfs_loop_min_loop:
  "fcfs_loop i ps m sel = min_loop (\<lambda>p. p_state p = RUNNABLE) (\<lambda>p. sint (p_start_time p)) i ps m sel"
  by (induction i ps m sel rule: fcfs_loop.induct) auto

lemma pbs_loop_min_loop:
  "pbs_loop i ps h t sel =
     min_loop (\<lambda>p. p_state p = RUNNABLE) (\<lambda>p. (p_priority p, sint (p_timeslices p))) i ps (h, t) sel"
  by (induction i ps h t sel rule: pbs_loop.induct) (auto simp: less_prod_simp)

text \<open>\<open>j\<close> is the first of the entries with the least key among those that satisfy \<open>P\<close> and are below \<open>m\<close>.\<close>

definition first_least :: "('p \<Rightarrow> bool) \<Rightarrow> ('p \<Rightarrow> 'k :: linorder) \<Rightarrow> 'k \<Rightarrow> 'p list \<Rightarrow> nat \<Rightarrow> bool" where
  "first_least P key m xs j \<longleftrightarrow> j < length xs \<and> P (xs ! j) \<and> key (xs ! j) < m \<and>
     (\<forall>k < length xs. P (xs ! k) \<longrightarrow> key (xs ! j) \<le> key (xs ! k) \<and> (k < j \<longrightarrow> key (xs ! j) < key (xs ! k)))"

lemma min_loop_keep: "(\<forall>x \<in> set xs. P x \<longrightarrow> \<not> key x < m) \<Longrightarrow> min_loop P key i xs m sel = sel"
  by (induction xs arbitrary: i) auto

lemma min_loop_first_least:
  assumes "\<exists>x \<in> set xs. P x \<and> key x < m"
  shows "\<exists>j. min_loop P key i xs m sel = Some (i + j) \<and> first_least P key m xs j"
  using assms
proof (induction xs arbitrary: i m sel)
  case Nil
  then show ?case by simp
next
  case (Cons x xs)
  show ?case
  proof (cases "P x \<and> key x < m")
    case True
    show ?thesis
    proof (cases "\<exists>y \<in> set xs. P y \<and> key y < key x")
      case less: True
      from Cons.IH [OF less, of "Suc i" "Some i"] obtain j where
        j: "min_loop P key (Suc i) xs (key x) (Some i) = Some (Suc i + j)" "first_least P key (key x) xs j"
        by blast
      then have "first_least P key m (x # xs) (Suc j)"
        using True by (auto simp: first_least_def nth_Cons split: nat.splits)
      with j True show ?thesis by (intro exI [of _ "Suc j"]) auto
    next
      case ge: False
      then have "min_loop P key (Suc i) xs (key x) (Some i) = Some i" by (intro min_loop_keep) auto
      moreover have "first_least P key m (x # xs) 0"
        using True ge by (auto simp: first_least_def nth_Cons not_less split: nat.splits)
      ultimately show ?thesis using True by (intro exI [of _ 0]) auto
    qed
  next
    case False
    with Cons.prems have "\<exists>y \<in> set xs. P y \<and> key y < m" by auto
    from Cons.IH [OF this, of "Suc i" sel] obtain j where
      j: "min_loop P key (Suc i) xs m sel = Some (Suc i + j)" "first_least P key m xs j" by blast
    then have "first_least P key m (x # xs) (Suc j)"
      using False by (auto simp: first_least_def nth_Cons split: nat.splits)
    with j False show ?thesis by (intro exI [of _ "Suc j"]) auto
  qed
qed

lemma first_least_unique: "first_least P key m xs i \<Longrightarrow> first_least P key m xs j \<Longrightarrow> i = j"
  by (metis first_least_def leD linorder_neqE_nat)

lemma min_loop_iff:
  "min_loop P key 0 xs m None = Some j \<longleftrightarrow> first_least P key m xs j"
proof (cases "\<exists>x \<in> set xs. P x \<and> key x < m")
  case True
  then show ?thesis using min_loop_first_least [OF True, of 0 None] first_least_unique by auto
next
  case False
  then have "min_loop P key 0 xs m None = None" by (intro min_loop_keep) auto
  with False show ?thesis by (auto simp: first_least_def)
qed

lemma min_loop_None_iff:
  "min_loop P key 0 xs m None = None \<longleftrightarrow> (\<forall>x \<in> set xs. P x \<longrightarrow> m \<le> key x)"
proof (cases "\<exists>x \<in> set xs. P x \<and> key x < m")
  case True
  then show ?thesis using min_loop_first_least [OF True, of 0 None] by (auto simp: not_le)
next
  case False
  then have "min_loop P key 0 xs m None = None" by (intro min_loop_keep) auto
  with False show ?thesis by (auto simp: not_less)
qed

end
