(* ===== verification/Sched_Inv.thy ===== *)
theory Sched_Inv
  imports Scheduler
begin

text \<open>
  The invariant of the process table, the CPUs and the ready queues, and that every critical section
  of \<^verbatim>\<open>proc.c\<close> keeps it without failing. At rest a process is RUNNING exactly when one CPU has it as its
  current process, and under MLFQ the RUNNABLE processes are exactly those in the queues,
  each once and in the queue that its field \<^verbatim>\<open>queue\<close> names. Inside a critical section \<open>X\<close> collects
  the runnable processes that are out of the queues and \<open>Y\<close> those that are leaving their CPU.
\<close>

section \<open>The invariant\<close>

definition runnables :: "'a pstate_scheme \<Rightarrow> nat set" where
  "runnables s = {i. i < NPROC \<and> p_state (procs s ! i) = RUNNABLE}"

definition live :: "proc \<Rightarrow> bool" where
  "live p \<longleftrightarrow> p_state p = SLEEPING \<or> p_state p = RUNNABLE \<or> p_state p = RUNNING"

definition proc_ok :: "proc \<Rightarrow> bool" where
  "proc_ok p \<longleftrightarrow> 0 \<le> p_queue p \<and> p_queue p < int NUM_QUEUES \<and> (p_state p = EMBRYO \<longrightarrow> p_queue p = 0) \<and>
     (p_state p \<noteq> UNUSED \<longrightarrow> p_kstack p \<noteq> 0) \<and> (live p \<longrightarrow> p_pgdir p \<noteq> 0)"

definition table_ok :: "'a pstate_scheme \<Rightarrow> bool" where
  "table_ok s \<longleftrightarrow> length (procs s) = NPROC \<and> list_all proc_ok (procs s)"

definition queue_ok :: "nat set \<Rightarrow> 'a pstate_scheme \<Rightarrow> nat list list \<Rightarrow> bool" where
  "queue_ok X s qs \<longleftrightarrow> qbank s qs \<and> distinct (concat qs) \<and> set (concat qs) = runnables s - X \<and>
     (\<forall>k < NUM_QUEUES. \<forall>p \<in> set (qs ! k). p_queue (procs s ! p) = int k)"

definition mlfq_ok :: "nat set \<Rightarrow> 'a pstate_scheme \<Rightarrow> bool" where
  "mlfq_ok X s \<longleftrightarrow> (SCHEDULER s = SCHED_MLFQ \<longrightarrow> (\<exists>qs. queue_ok X s qs))"

definition cpu_ok :: "nat set \<Rightarrow> 'a pstate_scheme \<Rightarrow> bool" where
  "cpu_ok Y s \<longleftrightarrow>
     (\<forall>c p. cpu_proc s c = Some p \<longrightarrow> p < NPROC \<and> (p \<notin> Y \<longrightarrow> p_state (procs s ! p) = RUNNING)) \<and>
     (\<forall>c d p. cpu_proc s c = Some p \<longrightarrow> cpu_proc s d = Some p \<longrightarrow> c = d) \<and>
     (\<forall>p < NPROC. p_state (procs s ! p) = RUNNING \<longrightarrow> (\<exists>c. cpu_proc s c = Some p))"

definition sinv :: "nat set \<Rightarrow> nat set \<Rightarrow> 'a pstate_scheme \<Rightarrow> bool" where
  "sinv X Y s \<longleftrightarrow> table_ok s \<and> mlfq_ok X s \<and> cpu_ok Y s"

lemma sinvD:
  assumes "sinv X Y s"
  shows "table_ok s" "mlfq_ok X s" "cpu_ok Y s"
  using assms by (simp_all add: sinv_def)

lemma cpu_okD:
  assumes "cpu_ok Y s"
  shows "cpu_proc s c = Some p \<Longrightarrow> p < NPROC"
    "cpu_proc s c = Some p \<Longrightarrow> p \<notin> Y \<Longrightarrow> p_state (procs s ! p) = RUNNING"
    "cpu_proc s c = Some p \<Longrightarrow> cpu_proc s d = Some p \<Longrightarrow> c = d"
    "p < NPROC \<Longrightarrow> p_state (procs s ! p) = RUNNING \<Longrightarrow> \<exists>c. cpu_proc s c = Some p"
  using assms unfolding cpu_ok_def by blast+

lemma table_okD: "table_ok s \<Longrightarrow> i < NPROC \<Longrightarrow> proc_ok (procs s ! i)" "table_ok s \<Longrightarrow> length (procs s) = NPROC"
  by (simp_all add: table_ok_def list_all_length)

lemma table_ok_upd: "table_ok s \<Longrightarrow> proc_ok (f (procs s ! i)) \<Longrightarrow> table_ok (upd_proc i f s)"
  by (auto simp: table_ok_def list_all_length nth_upd)

text \<open>The invariant reads only these components.\<close>

lemma sinv_cong:
  assumes "procs t = procs s" "queues t = queues s" "surplus_nodes t = surplus_nodes s"
    "cpu_proc t = cpu_proc s" "SCHEDULER t = SCHEDULER s"
  shows "sinv X Y t \<longleftrightarrow> sinv X Y s"
  using assms
  by (simp add: sinv_def table_ok_def mlfq_ok_def queue_ok_def qbank_def runnables_def cpu_ok_def)

lemma sinv_held [simp]: "sinv X Y (s\<lparr>held := h\<rparr>) \<longleftrightarrow> sinv X Y s"
  and sinv_ticks [simp]: "sinv X Y (s\<lparr>ticks := tk\<rparr>) \<longleftrightarrow> sinv X Y s"
  and sinv_cpu_id [simp]: "sinv X Y (s\<lparr>cpu_id := c\<rparr>) \<longleftrightarrow> sinv X Y s"
  and sinv_regs [simp]: "sinv X Y (s\<lparr>esp0 := a, cr3 := b\<rparr>) \<longleftrightarrow> sinv X Y s"
  and sinv_cr3 [simp]: "sinv X Y (s\<lparr>cr3 := b\<rparr>) \<longleftrightarrow> sinv X Y s"
  and sinv_mem [simp]: "sinv X Y (s\<lparr>mem := m\<rparr>) \<longleftrightarrow> sinv X Y s"
  and sinv_nextpid [simp]: "sinv X Y (s\<lparr>nextpid := k\<rparr>) \<longleftrightarrow> sinv X Y s"
  by (rule sinv_cong; simp)+

text \<open>What a process must keep for the invariant not to notice.\<close>

lemma sinv_upd_same:
  assumes "sinv X Y s"
    and "i < NPROC \<Longrightarrow> p_state (f (procs s ! i)) = p_state (procs s ! i)"
    and "i < NPROC \<Longrightarrow> p_queue (f (procs s ! i)) = p_queue (procs s ! i)"
    and "i < NPROC \<Longrightarrow> proc_ok (f (procs s ! i))"
  shows "sinv X Y (upd_proc i f s)"
proof (cases "i < NPROC")
  case True
  have n: "p_state (procs (upd_proc i f s) ! j) = p_state (procs s ! j)"
    "p_queue (procs (upd_proc i f s) ! j) = p_queue (procs s ! j)" for j
    using assms(2,3) True by (auto simp: nth_upd)
  have "mlfq_ok X (upd_proc i f s) = mlfq_ok X s" "cpu_ok Y (upd_proc i f s) = cpu_ok Y s"
    unfolding mlfq_ok_def queue_ok_def qbank_def runnables_def cpu_ok_def n by simp_all
  with assms(1) table_ok_upd [of s f i] assms(4) [OF True] show ?thesis by (simp add: sinv_def)
next
  case False
  with assms(1) have "upd_proc i f s = s"
    by (simp add: sinv_def table_ok_def upd_proc_def list_update_beyond)
  with assms(1) show ?thesis by simp
qed

lemma qframe_eqD:
  assumes "qframe t = qframe s"
  shows "procs t = procs s" "cpu_proc t = cpu_proc s" "SCHEDULER t = SCHEDULER s" "held t = held s"
    "ticks t = ticks s" "cpu_id t = cpu_id s" "initproc t = initproc s" "nextpid t = nextpid s"
proof -
  have t: "t = s\<lparr>queues := queues t, surplus_nodes := surplus_nodes t\<rparr>"
    using assms by (simp only: qframe_eq_iff)
  show "procs t = procs s" "cpu_proc t = cpu_proc s" "SCHEDULER t = SCHEDULER s" "held t = held s"
    "ticks t = ticks s" "cpu_id t = cpu_id s" "initproc t = initproc s" "nextpid t = nextpid s"
    by (subst t, simp)+
qed

lemma qframe_upd_proc: "qframe (upd_proc i f s) = upd_proc i f (qframe s)"
  by (simp add: qframe_def upd_proc_def)

lemma qframe_simps [simp]: "procs (qframe s) = procs s" "ticks (qframe s) = ticks s"
  "SCHEDULER (qframe s) = SCHEDULER s" "cpu_proc (qframe s) = cpu_proc s" "held (qframe s) = held s"
  by (simp_all add: qframe_def)

lemma upd_proc_upd_proc:
  "i < length (procs s) \<Longrightarrow> upd_proc i g (upd_proc i f s) = upd_proc i (\<lambda>p. g (f p)) s"
  by (simp add: upd_proc_def)

section \<open>Joining and leaving the queues\<close>

lemma runnables_finite: "finite (runnables s)" "card (runnables s) \<le> NPROC"
proof -
  have "runnables s \<subseteq> {..<NPROC}" by (auto simp: runnables_def)
  then show "finite (runnables s)" "card (runnables s) \<le> NPROC"
    using finite_subset card_mono [of "{..<NPROC}" "runnables s"] by auto
qed

lemma queue_ok_room:
  assumes "queue_ok X s qs" and "p \<in> runnables s" and "p \<in> X"
  shows "length (concat qs) < NPROC"
proof -
  have "length (concat qs) = card (runnables s - X)"
    using assms(1) distinct_card [of "concat qs"] by (simp add: queue_ok_def)
  also have "\<dots> < card (runnables s)"
    using assms(2,3) runnables_finite by (intro psubset_card_mono) auto
  also have "\<dots> \<le> NPROC" by (rule runnables_finite)
  finally show ?thesis .
qed

lemma enqueue_ok:
  assumes "table_ok s" and "queue_ok X s qs" and "p \<in> runnables s" and "p \<in> X"
  shows "\<exists>t. enqueue (p_queue (procs s ! p)) p s = Inr t \<and> qframe t = qframe s \<and>
    queue_ok (X - {p}) t (qs[nat (p_queue (procs s ! p)) := qs ! nat (p_queue (procs s ! p)) @ [p]])"
proof -
  let ?k = "p_queue (procs s ! p)"
  have k: "0 \<le> ?k" "nat ?k < NUM_QUEUES"
    using table_okD(1) [OF assms(1), of p] assms(3) by (auto simp: proc_ok_def runnables_def)
  have q: "qbank s qs" using assms(2) by (simp add: queue_ok_def)
  from mlq.enq_rep [OF q k queue_ok_room [OF assms(2-4)], of p]
  obtain t where t: "enqueue ?k p s = Inr t" "qbank t (qs[nat ?k := qs ! nat ?k @ [p]])" "qframe t = qframe s"
    by blast
  note f = qframe_eqD [OF t(3)]
  have kk: "nat ?k < length qs" using k(2) qbank_length [OF q] by simp
  obtain A B where AB: "concat qs = A @ qs ! nat ?k @ B" "\<forall>ys. concat (qs[nat ?k := ys]) = A @ ys @ B"
    using kk by (rule concat_updateE)
  have qk: "p_queue (procs s ! i) = int j" if "j < NUM_QUEUES" "i \<in> set (qs ! j)" for i j
    using assms(2) that by (simp add: queue_ok_def)
  have "p \<notin> set (concat qs)" using assms(2,4) by (simp add: queue_ok_def)
  then have "distinct (concat (qs[nat ?k := qs ! nat ?k @ [p]]))"
    "set (concat (qs[nat ?k := qs ! nat ?k @ [p]])) = insert p (set (concat qs))"
    using assms(2) AB by (auto simp: queue_ok_def)
  moreover have "runnables t - (X - {p}) = insert p (runnables s - X)"
    using f(1) assms(3,4) by (auto simp: runnables_def)
  moreover have "p_queue (procs t ! i) = int j"
    if "j < NUM_QUEUES" "i \<in> set (qs[nat ?k := qs ! nat ?k @ [p]] ! j)" for i j
  proof (cases "j = nat ?k")
    case True
    then have "i = p \<or> i \<in> set (qs ! j)" using that(2) kk by auto
    then show ?thesis using qk [OF that(1)] True k(1) by (auto simp only: f(1) nat_0_le)
  next
    case False
    with that qk show ?thesis by (simp add: f(1))
  qed
  moreover have "set (concat qs) = runnables s - X" using assms(2) by (simp add: queue_ok_def)
  ultimately have "queue_ok (X - {p}) t (qs[nat ?k := qs ! nat ?k @ [p]])"
    using t(2) unfolding queue_ok_def by simp
  with t show ?thesis by blast
qed

text \<open>A process that is runnable and not queued joins its queue.\<close>

lemma sinv_enqueue:
  assumes "sinv X Y s" and "SCHEDULER s = SCHED_MLFQ" and "p \<in> runnables s" and "p \<in> X"
  shows "\<exists>t. enqueue (p_queue (procs s ! p)) p s = Inr t \<and> sinv (X - {p}) Y t \<and> qframe t = qframe s"
proof -
  obtain qs where qs: "table_ok s" "queue_ok X s qs" "cpu_ok Y s"
    using assms(1,2) by (auto simp: sinv_def mlfq_ok_def)
  obtain t where t: "enqueue (p_queue (procs s ! p)) p s = Inr t" "\<exists>qs'. queue_ok (X - {p}) t qs'"
    "qframe t = qframe s" using enqueue_ok [OF qs(1,2) assms(3,4)] by blast
  have "table_ok t" "cpu_ok Y t"
    using qs(1,3) qframe_eqD [OF t(3)] by (simp_all add: table_ok_def cpu_ok_def)
  with t show ?thesis by (auto simp: sinv_def mlfq_ok_def)
qed

section \<open>Waking up\<close>

text \<open>A process that is neither runnable nor running becomes runnable, outside the queues.\<close>

lemma sinv_to_runnable:
  assumes "sinv X Y s" and "i < NPROC" and "p_state (procs s ! i) = SLEEPING \<or> p_state (procs s ! i) = EMBRYO"
    and "proc_ok ((procs s ! i)\<lparr>p_state := RUNNABLE\<rparr>)"
  shows "sinv (insert i X) Y (upd_proc i (\<lambda>p. p\<lparr>p_state := RUNNABLE\<rparr>) s)"
proof -
  let ?t = "upd_proc i (\<lambda>p. p\<lparr>p_state := RUNNABLE\<rparr>) s"
  have len: "length (procs s) = NPROC" using assms(1) by (simp add: sinv_def table_ok_def)
  have n: "p_queue (procs ?t ! j) = p_queue (procs s ! j)"
    "p_state (procs ?t ! j) = (if i = j then RUNNABLE else p_state (procs s ! j))" for j
    using assms(2) len by (auto simp: nth_upd)
  have r: "runnables ?t - insert i X = runnables s - X"
    using assms(2,3) unfolding runnables_def n by auto
  have "mlfq_ok (insert i X) ?t" using assms(1)
    unfolding sinv_def mlfq_ok_def queue_ok_def qbank_def r n by simp
  moreover have "cpu_ok Y ?t"
  proof -
    have "i \<in> Y" if "cpu_proc s c = Some i" for c
      by (rule ccontr) (use cpu_okD(2) [OF sinvD(3) [OF assms(1)] that] assms(3) in simp)
    with assms(1) show ?thesis unfolding sinv_def cpu_ok_def n by (auto split: if_splits)
  qed
  moreover have "table_ok ?t" using table_ok_upd [of s "\<lambda>p. p\<lparr>p_state := RUNNABLE\<rparr>" i] assms(1,4)
    by (simp add: sinv_def)
  ultimately show ?thesis by (simp add: sinv_def)
qed

lemma mlfq_ok_other: "SCHEDULER s \<noteq> SCHED_MLFQ \<Longrightarrow> mlfq_ok X s"
  by (simp add: mlfq_ok_def)

lemma make_runnable_ok:
  assumes "sinv X Y s" and "i < NPROC" and "p_state (procs s ! i) = SLEEPING" and "i \<notin> X"
  shows "\<exists>t. make_runnable i s = Inr t \<and> sinv X Y t \<and> qframe t = qframe (upd_proc i (\<lambda>p.
    if SCHEDULER s = SCHED_MLFQ then p\<lparr>p_state := RUNNABLE, p_cur_timeslices := 0, p_age_time := ticks s\<rparr>
    else p\<lparr>p_state := RUNNABLE\<rparr>) s)"
proof -
  let ?s = "upd_proc i (\<lambda>p. p\<lparr>p_state := RUNNABLE\<rparr>) s"
  have ok: "proc_ok (procs s ! i)" and len: "length (procs s) = NPROC"
    using assms(1,2) table_okD by (auto simp: sinv_def)
  have inv: "sinv (insert i X) Y ?s"
    using ok assms(3) by (intro sinv_to_runnable assms) (auto simp: proc_ok_def live_def)
  show ?thesis
  proof (cases "SCHEDULER s = SCHED_MLFQ")
    case False
    then have "sinv X Y ?s" using inv by (simp add: sinv_def mlfq_ok_def)
    with False show ?thesis by (simp add: make_runnable_def)
  next
    case True
    have "i \<in> runnables ?s" using assms(2) len by (simp add: runnables_def)
    then obtain t where t: "enqueue (p_queue (procs ?s ! i)) i ?s = Inr t" "sinv (insert i X - {i}) Y t"
      "qframe t = qframe ?s"
      using sinv_enqueue [OF inv, of i] True by auto
    let ?u = "upd_proc i (\<lambda>p. p\<lparr>p_cur_timeslices := 0, p_age_time := ticks t\<rparr>) t"
    note f = qframe_eqD [OF t(3)]
    have "sinv X Y t" using t(2) assms(4) by simp
    then have "sinv X Y ?u"
      using table_okD(1) [of t i] by (intro sinv_upd_same) (auto simp: sinv_def proc_ok_def live_def)
    moreover have "qframe ?u = qframe (upd_proc i (\<lambda>p.
        p\<lparr>p_state := RUNNABLE, p_cur_timeslices := 0, p_age_time := ticks s\<rparr>) s)"
      using assms(2) len f by (simp add: qframe_upd_proc t(3) upd_proc_upd_proc)
    ultimately show ?thesis using True t(1) f by (simp add: make_runnable_def)
  qed
qed

text \<open>Changes to the process table and the queues only.\<close>

definition pframe :: "'a pstate_scheme \<Rightarrow> 'a pstate_scheme \<Rightarrow> bool" where
  "pframe s t \<longleftrightarrow> t = s\<lparr>procs := procs t, queues := queues t, surplus_nodes := surplus_nodes t\<rparr>"

lemma pframe_refl [simp]: "pframe s s"
  by (simp add: pframe_def)

lemma pframe_trans: "pframe s t \<Longrightarrow> pframe t u \<Longrightarrow> pframe s u"
  unfolding pframe_def by (cases s, cases t, cases u) simp

lemma pframe_upd_proc [simp]: "pframe s (upd_proc i f s)"
  by (simp add: pframe_def upd_proc_def)

lemma pframe_qframe: "qframe t = qframe s \<Longrightarrow> pframe s t"
  unfolding pframe_def qframe_def by (cases s, cases t) simp

lemma pframeD:
  assumes "pframe s t"
  shows "cpu_proc t = cpu_proc s" "SCHEDULER t = SCHEDULER s" "held t = held s" "myproc t = myproc s"
    "ticks t = ticks s" "cpu_id t = cpu_id s" "initproc t = initproc s" "nextpid t = nextpid s"
    "mem t = mem s"
proof -
  note t = assms [unfolded pframe_def]
  show "cpu_proc t = cpu_proc s" "SCHEDULER t = SCHEDULER s" "held t = held s" "myproc t = myproc s"
    "ticks t = ticks s" "cpu_id t = cpu_id s" "initproc t = initproc s" "nextpid t = nextpid s"
    "mem t = mem s"
    by (subst t, simp add: myproc_def)+
qed

definition woken :: "'a pstate_scheme \<Rightarrow> proc \<Rightarrow> proc" where
  "woken s p = (if SCHEDULER s = SCHED_MLFQ
     then p\<lparr>p_state := RUNNABLE, p_cur_timeslices := 0, p_age_time := ticks s\<rparr>
     else p\<lparr>p_state := RUNNABLE\<rparr>)"

definition sleeps_on :: "chan option \<Rightarrow> proc \<Rightarrow> bool" where
  "sleeps_on ch p \<longleftrightarrow> p_state p = SLEEPING \<and> p_chan p = ch"

lemma make_runnable_woken:
  assumes "sinv X Y s" and "i < NPROC" and "p_state (procs s ! i) = SLEEPING" and "i \<notin> X"
  shows "\<exists>t. make_runnable i s = Inr t \<and> sinv X Y t \<and> pframe s t \<and>
    procs t = (procs s)[i := woken s (procs s ! i)]"
proof -
  have e: "(\<lambda>p. if SCHEDULER s = SCHED_MLFQ then p\<lparr>p_state := RUNNABLE, p_cur_timeslices := 0, p_age_time := ticks s\<rparr>
    else p\<lparr>p_state := RUNNABLE\<rparr>) = woken s" by (auto simp: woken_def)
  obtain t where t: "make_runnable i s = Inr t" "sinv X Y t" "qframe t = qframe (upd_proc i (woken s) s)"
    using make_runnable_ok [OF assms] unfolding e by blast
  have "pframe s t" using pframe_qframe [OF t(3)] by (rule pframe_trans [rotated]) simp
  with t qframe_eqD(1) [OF t(3)] show ?thesis by auto
qed

lemma wakeup1_prefix:
  assumes "sinv {} Y s" and "n \<le> NPROC"
  shows "\<exists>t. foldE (\<lambda>i s. if p_state (procs s ! i) = SLEEPING \<and> p_chan (procs s ! i) = ch
      then make_runnable i s else Inr s) [0..<n] s = Inr t \<and> sinv {} Y t \<and> pframe s t \<and>
    procs t = map (\<lambda>i. if i < n \<and> sleeps_on ch (procs s ! i) then woken s (procs s ! i) else procs s ! i)
      [0..<NPROC]"
  using assms(2)
proof (induction n)
  case 0
  have "length (procs s) = NPROC" using table_okD(2) sinvD(1) [OF assms(1)] by blast
  then have "map ((!) (procs s)) [0..<NPROC] = procs s" using map_nth [of "procs s"] by simp
  then show ?case using assms(1) by simp
next
  case (Suc n)
  let ?f = "\<lambda>i s. if p_state (procs s ! i) = SLEEPING \<and> p_chan (procs s ! i) = ch
      then make_runnable i s else Inr s"
  let ?w = "\<lambda>n. map (\<lambda>i. if i < n \<and> sleeps_on ch (procs s ! i) then woken s (procs s ! i) else procs s ! i)
      [0..<NPROC]"
  from Suc obtain t where t: "foldE ?f [0..<n] s = Inr t" "sinv {} Y t" "pframe s t" "procs t = ?w n"
    by auto
  have n: "n < NPROC" using Suc.prems by simp
  have pn: "procs t ! n = procs s ! n" using n by (simp add: t(4))
  have fold: "foldE ?f [0..<Suc n] s = ?f n t" using t(1) by (simp add: foldE_snoc)
  show ?case
  proof (cases "sleeps_on ch (procs s ! n)")
    case True
    then obtain u where u: "make_runnable n t = Inr u" "sinv {} Y u" "pframe t u"
      "procs u = (procs t)[n := woken t (procs t ! n)]"
      using make_runnable_woken [OF t(2) n] pn by (auto simp: sleeps_on_def)
    have "woken t = woken s" using pframeD [OF t(3)] by (simp add: woken_def fun_eq_iff)
    then have "procs u = ?w (Suc n)"
      using True n unfolding u(4) pn t(4) by (intro nth_equalityI) (auto simp: nth_upd less_Suc_eq)
    with u True pn fold t(3) show ?thesis by (auto simp: sleeps_on_def intro: pframe_trans)
  next
    case False
    then have "?w n = ?w (Suc n)" by (auto simp: less_Suc_eq)
    with False t pn fold show ?thesis by (auto simp: sleeps_on_def)
  qed
qed

lemma wakeup1_ok:
  assumes "sinv {} Y s"
  shows "\<exists>t. wakeup1 ch s = Inr t \<and> sinv {} Y t \<and> pframe s t \<and>
    procs t = map (\<lambda>p. if sleeps_on ch p then woken s p else p) (procs s)"
proof -
  have "length (procs s) = NPROC" using table_okD(2) sinvD(1) [OF assms] by blast
  then have "map (\<lambda>i. if i < NPROC \<and> sleeps_on ch (procs s ! i) then woken s (procs s ! i) else procs s ! i)
      [0..<NPROC] = map (\<lambda>p. if sleeps_on ch p then woken s p else p) (procs s)"
    by (intro nth_equalityI) auto
  with wakeup1_prefix [OF assms order.refl, of ch] show ?thesis by (auto simp: wakeup1_def)
qed

text \<open>The queues: the processes that wake up join theirs at the end, in the order of the table.\<close>

lemma queue_ok_held [simp]: "queue_ok X (s\<lparr>held := h\<rparr>) qs \<longleftrightarrow> queue_ok X s qs"
  by (simp add: queue_ok_def qbank_def runnables_def)

lemma queue_ok_upd_same:
  assumes "queue_ok X s qs" "i < length (procs s)" "p_state (f (procs s ! i)) = p_state (procs s ! i)"
    "p_queue (f (procs s ! i)) = p_queue (procs s ! i)"
  shows "queue_ok X (upd_proc i f s) qs"
proof -
  have "p_state (procs (upd_proc i f s) ! j) = p_state (procs s ! j)" "p_queue (procs (upd_proc i f s) ! j) = p_queue (procs s ! j)" for j
    using assms(2-4) by (auto simp: nth_upd)
  with assms(1) show ?thesis unfolding queue_ok_def runnables_def by (simp add: qbank_def)
qed

lemma make_runnable_queue:
  assumes "sinv X Y s" "i < NPROC" "p_state (procs s ! i) = SLEEPING" "i \<notin> X" "SCHEDULER s = SCHED_MLFQ"
    and "queue_ok X s qs" "make_runnable i s = Inr t"
  shows "queue_ok X t (qs[nat (p_queue (procs s ! i)) := qs ! nat (p_queue (procs s ! i)) @ [i]])"
proof -
  let ?s = "upd_proc i (\<lambda>p. p\<lparr>p_state := RUNNABLE\<rparr>) s"
  have ok: "proc_ok (procs s ! i)" and len: "length (procs s) = NPROC"
    using assms(1,2) table_okD by (auto simp: sinv_def)
  have inv: "sinv (insert i X) Y ?s"
    using ok assms(3) by (intro sinv_to_runnable assms(1,2)) (auto simp: proc_ok_def live_def)
  have n: "p_queue (procs ?s ! j) = p_queue (procs s ! j)"
    "p_state (procs ?s ! j) = (if i = j then RUNNABLE else p_state (procs s ! j))" for j
    using assms(2) len by (auto simp: nth_upd)
  have "runnables ?s - insert i X = runnables s - X" using assms(2,3) unfolding runnables_def n by auto
  then have q: "queue_ok (insert i X) ?s qs" using assms(6) unfolding queue_ok_def n by (simp add: qbank_def)
  have "i \<in> runnables ?s" using assms(2) len by (simp add: runnables_def)
  then obtain u where u: "enqueue (p_queue (procs ?s ! i)) i ?s = Inr u" "qframe u = qframe ?s"
    "queue_ok (insert i X - {i}) u (qs[nat (p_queue (procs ?s ! i)) := qs ! nat (p_queue (procs ?s ! i)) @ [i]])"
    using enqueue_ok [OF sinvD(1) [OF inv] q] by blast
  have t: "t = upd_proc i (\<lambda>p. p\<lparr>p_cur_timeslices := 0, p_age_time := ticks u\<rparr>) u"
    using assms(5,7) u(1) by (simp add: make_runnable_def)
  have "length (procs u) = NPROC" using qframe_eqD(1) [OF u(2)] len by simp
  then show ?thesis unfolding t using u(3) assms(2,4) n by (intro queue_ok_upd_same) simp_all
qed

definition sleepers :: "chan option \<Rightarrow> nat \<Rightarrow> nat \<Rightarrow> 'a pstate_scheme \<Rightarrow> nat list" where
  "sleepers ch k n s = filter (\<lambda>i. sleeps_on ch (procs s ! i) \<and> p_queue (procs s ! i) = int k) [0..<n]"

abbreviation wake_body :: "chan option \<Rightarrow> nat \<Rightarrow> 'a pstate_scheme \<Rightarrow> kerr + 'a pstate_scheme" where
  "wake_body ch i s \<equiv> (if p_state (procs s ! i) = SLEEPING \<and> p_chan (procs s ! i) = ch then make_runnable i s else Inr s)"

lemma wakeup1_queues:
  assumes "sinv {} Y s" "SCHEDULER s = SCHED_MLFQ" "queue_ok {} s qs" "n \<le> NPROC" "foldE (wake_body ch) [0..<n] s = Inr t"
  shows "queue_ok {} t (map (\<lambda>k. qs ! k @ sleepers ch k n s) [0..<NUM_QUEUES])"
  using assms(4,5)
proof (induction n arbitrary: t)
  case 0
  have "map ((!) qs) [0..<NUM_QUEUES] = qs" using map_nth [of qs] qbank_length [of s qs] assms(3) by (simp add: queue_ok_def)
  then show ?case using 0 assms(3) by (simp add: sleepers_def)
next
  case (Suc n)
  have n: "n < NPROC" using Suc.prems by simp
  obtain u where u: "foldE (wake_body ch) [0..<n] s = Inr u" "sinv {} Y u" "pframe s u"
    "procs u = map (\<lambda>i. if i < n \<and> sleeps_on ch (procs s ! i) then woken s (procs s ! i) else procs s ! i) [0..<NPROC]"
    using wakeup1_prefix [OF assms(1), of n ch] n by auto
  have pn: "procs u ! n = procs s ! n" using n by (simp add: u(4))
  let ?q = "\<lambda>n. map (\<lambda>k. qs ! k @ sleepers ch k n s) [0..<NUM_QUEUES]" and ?k = "nat (p_queue (procs s ! n))"
  have q: "queue_ok {} u (?q n)" using Suc.IH [OF _ u(1)] n by simp
  have k: "0 \<le> p_queue (procs s ! n)" "?k < NUM_QUEUES"
    using table_okD(1) [OF sinvD(1) [OF assms(1)] n] by (auto simp: proc_ok_def)
  show ?case
  proof (cases "sleeps_on ch (procs s ! n)")
    case True
    then have "make_runnable n u = Inr t" "p_state (procs u ! n) = SLEEPING"
      using Suc.prems u(1) pn by (simp_all add: foldE_snoc sleeps_on_def)
    then have "queue_ok {} t ((?q n)[?k := ?q n ! ?k @ [n]])"
      using make_runnable_queue [OF u(2) n _ _ _ q] pn pframeD(2) [OF u(3)] assms(2) by simp
    moreover have "(?q n)[?k := ?q n ! ?k @ [n]] = ?q (Suc n)"
      using True k by (intro nth_equalityI) (auto simp: nth_upd sleepers_def nat_eq_iff)
    ultimately show ?thesis by simp
  next
    case False
    then have e: "t = u" "?q (Suc n) = ?q n" using Suc.prems u(1) pn by (auto simp: foldE_snoc sleeps_on_def sleepers_def)
    show ?thesis unfolding e by (rule q)
  qed
qed

lemma wakeup1_other:
  assumes "SCHEDULER s \<noteq> SCHED_MLFQ" "foldE (wake_body ch) is s = Inr t"
  shows "queues t = queues s \<and> surplus_nodes t = surplus_nodes s"
  using assms
proof (induction "is" arbitrary: s)
  case (Cons i "is")
  then obtain u where u: "wake_body ch i s = Inr u" "foldE (wake_body ch) is u = Inr t" by (auto elim!: bindE_InrE)
  have "queues u = queues s" "surplus_nodes u = surplus_nodes s" "SCHEDULER u = SCHEDULER s"
    using u(1) Cons.prems(1) by (auto simp: make_runnable_def upd_proc_def split: if_splits)
  then show ?case using Cons.IH [OF _ u(2)] Cons.prems(1) by simp
qed simp

lemma wakeup_queues:
  assumes "sinv {} Y s" "L_ptable \<notin> held s" "wakeup ch s = Inr t"
  shows "SCHEDULER s = SCHED_MLFQ \<Longrightarrow> queue_ok {} s qs \<Longrightarrow> queue_ok {} t (map (\<lambda>k. qs ! k @ sleepers ch k NPROC s) [0..<NUM_QUEUES])"
    and "SCHEDULER s \<noteq> SCHED_MLFQ \<Longrightarrow> queues t = queues s \<and> surplus_nodes t = surplus_nodes s"
proof -
  let ?s = "s\<lparr>held := insert L_ptable (held s)\<rparr>"
  obtain u where u: "foldE (wake_body ch) [0..<NPROC] ?s = Inr u" "release L_ptable u = Inr t"
    using assms(2,3) by (auto simp: wakeup_def wakeup1_def elim!: bindE_InrE)
  have t: "t = u\<lparr>held := held u - {L_ptable}\<rparr>" using u(2) by (simp add: release_Inr_iff)
  show "SCHEDULER s = SCHED_MLFQ \<Longrightarrow> queue_ok {} s qs \<Longrightarrow> queue_ok {} t (map (\<lambda>k. qs ! k @ sleepers ch k NPROC s) [0..<NUM_QUEUES])"
    using wakeup1_queues [of Y ?s qs NPROC ch u] assms(1) u(1) unfolding t by (simp add: sleepers_def)
  show "SCHEDULER s \<noteq> SCHED_MLFQ \<Longrightarrow> queues t = queues s \<and> surplus_nodes t = surplus_nodes s"
    using wakeup1_other [OF _ u(1)] unfolding t by simp
qed

lemma sinv_pframe_held: "pframe s t \<Longrightarrow> L \<in> held s \<Longrightarrow> release L t = Inr (t\<lparr>held := held s - {L}\<rparr>)"
  by (simp add: pframeD)

lemma wakeup_ok:
  assumes "sinv {} Y s" and "L_ptable \<notin> held s"
  shows "\<exists>t. wakeup ch s = Inr t \<and> sinv {} Y t \<and> pframe s t \<and>
    procs t = map (\<lambda>p. if sleeps_on ch p then woken s p else p) (procs s)"
proof -
  let ?s = "s\<lparr>held := insert L_ptable (held s)\<rparr>"
  from wakeup1_ok [of Y ?s ch] assms(1) obtain t where
    t: "wakeup1 ch ?s = Inr t" "sinv {} Y t" "pframe ?s t"
      "procs t = map (\<lambda>p. if sleeps_on ch p then woken ?s p else p) (procs s)" by auto
  have "woken ?s = woken s" by (simp add: woken_def fun_eq_iff)
  moreover have "pframe s (t\<lparr>held := held s\<rparr>)"
    using t(3) unfolding pframe_def by (cases s, cases t) simp
  ultimately show ?thesis
    using t assms(2) pframeD(3) [OF t(3)] by (simp add: wakeup_def)
qed

lemma kill_ok:
  assumes "sinv {} Y s" and "L_ptable \<notin> held s"
  shows "\<exists>r t. kill pid s = Inr (r, t) \<and> sinv {} Y t \<and> pframe s t \<and>
    (case scan (\<lambda>p. p_pid p = pid) 0 (procs s) of
       None \<Rightarrow> r = -1 \<and> procs t = procs s
     | Some i \<Rightarrow> r = 0 \<and> procs t = (procs s)[i := (let p = (procs s ! i)\<lparr>p_killed := True\<rparr> in
         if p_state p = SLEEPING then woken s p else p)])"
proof (cases "scan (\<lambda>p. p_pid p = pid) 0 (procs s)")
  case None
  with assms show ?thesis by (simp add: kill_def)
next
  case (Some i)
  let ?h = "s\<lparr>held := insert L_ptable (held s)\<rparr>"
  let ?s = "upd_proc i (\<lambda>p. p\<lparr>p_killed := True\<rparr>) ?h"
  have len: "length (procs s) = NPROC" using table_okD(2) sinvD(1) [OF assms(1)] by blast
  have i: "i < NPROC" using scan_SomeD(1) [OF Some] len by simp
  have inv: "sinv {} Y ?s"
    using assms(1) table_okD(1) [OF sinvD(1) [OF assms(1)]]
    by (intro sinv_upd_same) (auto simp: proc_ok_def live_def)
  have fr: "pframe s (t\<lparr>held := held s\<rparr>)" if "pframe ?s t" for t
    using that unfolding pframe_def upd_proc_def by (cases s, cases t) simp
  show ?thesis
  proof (cases "p_state (procs s ! i) = SLEEPING")
    case True
    then obtain t where t: "make_runnable i ?s = Inr t" "sinv {} Y t" "pframe ?s t"
      "procs t = (procs ?s)[i := woken ?s (procs ?s ! i)]"
      using make_runnable_woken [OF inv i] i len by auto
    have "woken ?s = woken s" by (simp add: woken_def fun_eq_iff)
    with True Some i len t fr [OF t(3)] assms(2) pframeD(3) [OF t(3)] show ?thesis by (simp add: kill_def)
  next
    case False
    with Some i len inv fr [OF pframe_refl] assms(2) show ?thesis by (simp add: kill_def)
  qed
qed

section \<open>Leaving the CPU\<close>

text \<open>The current process takes a state in which it does not run.\<close>

lemma sinv_leave:
  assumes "sinv {} {} s" and "cpu_proc s c = Some i" and "st \<notin> {RUNNING, EMBRYO}"
    and "\<And>p. p_queue (f p) = p_queue p" "\<And>p. p_state (f p) = st"
    "\<And>p. p_kstack (f p) = p_kstack p" "\<And>p. p_pgdir (f p) = p_pgdir p"
  shows "sinv {i} {i} (upd_proc i f s)"
proof -
  let ?t = "upd_proc i f s"
  have len: "length (procs s) = NPROC" using table_okD(2) sinvD(1) [OF assms(1)] by blast
  have i: "i < NPROC" "p_state (procs s ! i) = RUNNING"
    using cpu_okD [OF sinvD(3) [OF assms(1)]] assms(2) by auto
  have n: "p_queue (procs ?t ! j) = p_queue (procs s ! j)"
    "p_state (procs ?t ! j) = (if j = i then st else p_state (procs s ! j))" for j
    using i(1) len assms(4,5) by (auto simp: nth_upd)
  have r: "runnables ?t - {i} = runnables s - {}" using i unfolding runnables_def n by auto
  have "mlfq_ok {i} ?t" using sinvD(2) [OF assms(1)]
    unfolding mlfq_ok_def queue_ok_def qbank_def r n by simp
  moreover have "cpu_ok {i} ?t" using sinvD(3) [OF assms(1)] assms(3)
    unfolding cpu_ok_def n by auto
  moreover have "table_ok ?t"
    using table_okD(1) [OF sinvD(1) [OF assms(1)] i(1)] sinvD(1) [OF assms(1)] assms(3-7) i(2)
    by (intro table_ok_upd) (auto simp: proc_ok_def live_def)
  ultimately show ?thesis by (simp add: sinv_def)
qed

text \<open>Back in the scheduler the CPU has no process.\<close>

lemma sinv_set_none:
  assumes "sinv {i} {i} s" and "myproc s = Some i" and "p_state (procs s ! i) \<noteq> RUNNING"
  shows "sinv {i} {} (set_myproc None s)"
proof -
  note c = cpu_okD [OF sinvD(3) [OF assms(1)]]
  have me: "cpu_proc s (cpu_id s) = Some i" using assms(2) by (simp add: myproc_def)
  have ex: "\<exists>c. c \<noteq> cpu_id s \<and> cpu_proc s c = Some p"
    if "p < NPROC" "p_state (procs s ! p) = RUNNING" for p
    using c(4) [OF that] me that(2) assms(3) by (metis option.inject)
  have run: "p_state (procs s ! p) = RUNNING" if "cpu_proc s c = Some p" "c \<noteq> cpu_id s" for c p
    using c(2) [OF that(1)] c(3) [OF me, of c] that by (cases "p = i") auto
  have "cpu_ok {} (set_myproc None s)"
    unfolding cpu_ok_def using c(1,3) run by auto (use ex in blast)
  with assms(1) show ?thesis
    by (simp add: sinv_def table_ok_def mlfq_ok_def queue_ok_def qbank_def runnables_def)
qed

lemma sinv_drop_X: "sinv X Y s \<Longrightarrow> runnables s \<inter> X = {} \<Longrightarrow> sinv {} Y s"
proof -
  assume a: "sinv X Y s" "runnables s \<inter> X = {}"
  then have "runnables s - X = runnables s - {}" by blast
  with a(1) show ?thesis by (simp add: sinv_def mlfq_ok_def queue_ok_def)
qed

section \<open>Back in the scheduler\<close>

lemma mlfq_requeue_ok:
  assumes "sinv {i} Y s" and "i < NPROC" and "SCHEDULER s = SCHED_MLFQ"
  shows "\<exists>t. mlfq_requeue i s = Inr t \<and> sinv {} Y t \<and> pframe s t"
proof (cases "p_state (procs s ! i) = RUNNABLE")
  case False
  then have "sinv {} Y s" using assms(1) by (intro sinv_drop_X [of "{i}"]) (auto simp: runnables_def)
  with False show ?thesis by (simp add: mlfq_requeue_def)
next
  case True
  have len: "length (procs s) = NPROC" and ok: "proc_ok (procs s ! i)"
    using table_okD sinvD(1) [OF assms(1)] assms(2) by blast+
  define f :: "proc \<Rightarrow> proc" where "f = (\<lambda>p. if \<not> p_punish p then p\<lparr>p_cur_timeslices := 0, p_age_time := ticks s\<rparr>
    else if p_queue p \<noteq> int NUM_QUEUES - 1
    then p\<lparr>p_cur_timeslices := 0, p_punish := False, p_age_time := ticks s, p_queue := p_queue p + 1\<rparr>
    else p\<lparr>p_cur_timeslices := 0, p_punish := False, p_age_time := ticks s\<rparr>)"
  let ?s = "upd_proc i f s"
  have req: "mlfq_requeue i s = enqueue (p_queue (procs ?s ! i)) i ?s"
    using True assms(2) len by (simp add: mlfq_requeue_def f_def upd_proc_upd_proc) (simp add: upd_proc_def)
  have n: "p_state (procs ?s ! j) = p_state (procs s ! j)"
    "j \<noteq> i \<Longrightarrow> p_queue (procs ?s ! j) = p_queue (procs s ! j)" for j
    using assms(2) len by (auto simp: nth_upd f_def)
  have r: "runnables ?s = runnables s" unfolding runnables_def n by simp
  have q: "queue_ok {i} ?s qs" if "queue_ok {i} s qs" for qs
  proof -
    have "i \<notin> set (qs ! k)" if "k < NUM_QUEUES" for k
      using \<open>queue_ok {i} s qs\<close> that nth_concat_in [of k qs i] qbank_length [of s qs]
      by (auto simp: queue_ok_def)
    then have "\<forall>k < NUM_QUEUES. \<forall>p \<in> set (qs ! k). p_queue (procs ?s ! p) = int k"
      using that n(2) by (metis queue_ok_def)
    with that show ?thesis unfolding queue_ok_def r by (simp add: qbank_def)
  qed
  have "table_ok ?s"
    using sinvD(1) [OF assms(1)] ok True by (intro table_ok_upd) (auto simp: proc_ok_def f_def live_def)
  moreover have "mlfq_ok {i} ?s" using sinvD(2) [OF assms(1)] q by (auto simp: mlfq_ok_def)
  moreover have "cpu_ok Y ?s" using sinvD(3) [OF assms(1)] unfolding cpu_ok_def n by simp
  ultimately have "sinv {i} Y ?s" by (simp add: sinv_def)
  from sinv_enqueue [OF this, of i] True assms(2,3) r obtain t where
    t: "enqueue (p_queue (procs ?s ! i)) i ?s = Inr t" "sinv ({i} - {i}) Y t" "qframe t = qframe ?s"
    by (auto simp: runnables_def)
  have "pframe s t" using pframe_qframe [OF t(3)] by (rule pframe_trans [rotated]) simp
  with t req show ?thesis by auto
qed

lemma mlfq_requeue_queue:
  assumes "sinv {i} Y s" "i < NPROC" "queue_ok {i} s qs" "p_state (procs s ! i) = RUNNABLE" "mlfq_requeue i s = Inr t"
  shows "qbank t (qs[nat (p_queue (procs t ! i)) := qs ! nat (p_queue (procs t ! i)) @ [i]])"
proof -
  have len: "length (procs s) = NPROC" and ok: "proc_ok (procs s ! i)"
    using table_okD sinvD(1) [OF assms(1)] assms(2) by blast+
  obtain f where f: "mlfq_requeue i s = enqueue (p_queue (procs (upd_proc i f s) ! i)) i (upd_proc i f s)"
    "0 \<le> p_queue (f (procs s ! i))" "nat (p_queue (f (procs s ! i))) < NUM_QUEUES"
  proof
    let ?f = "\<lambda>p. if \<not> p_punish p then p\<lparr>p_cur_timeslices := 0, p_age_time := ticks s\<rparr>
      else if p_queue p \<noteq> int NUM_QUEUES - 1
      then p\<lparr>p_cur_timeslices := 0, p_punish := False, p_age_time := ticks s, p_queue := p_queue p + 1\<rparr>
      else p\<lparr>p_cur_timeslices := 0, p_punish := False, p_age_time := ticks s\<rparr>"
    show "mlfq_requeue i s = enqueue (p_queue (procs (upd_proc i ?f s) ! i)) i (upd_proc i ?f s)"
      using assms(2,4) len by (simp add: mlfq_requeue_def upd_proc_upd_proc) (simp add: upd_proc_def)
    show "0 \<le> p_queue (?f (procs s ! i))" "nat (p_queue (?f (procs s ! i))) < NUM_QUEUES"
      using ok by (auto simp: proc_ok_def)
  qed
  have pf: "procs (upd_proc i f s) ! i = f (procs s ! i)" using assms(2) len by simp
  have q: "qbank (upd_proc i f s) qs" using assms(3) by (simp add: queue_ok_def qbank_def)
  have "i \<in> runnables s" using assms(2,4) by (simp add: runnables_def)
  then have room: "length (concat qs) < NPROC" using queue_ok_room [OF assms(3)] by blast
  obtain u where u: "enqueue (p_queue (f (procs s ! i))) i (upd_proc i f s) = Inr u" "qframe u = qframe (upd_proc i f s)"
    "qbank u (qs[nat (p_queue (f (procs s ! i))) := qs ! nat (p_queue (f (procs s ! i))) @ [i]])"
    using mlq.enq_rep [OF q f(2,3) room, of i] by blast
  have "t = u" using u(1) f(1) assms(5) pf by simp
  moreover have "procs u ! i = f (procs s ! i)" using qframe_eqD(1) [OF u(2)] pf by simp
  ultimately show ?thesis using u(3) by simp
qed

section \<open>Running a process\<close>

lemma run_proc_ok:
  assumes "sinv X {} s" and "j < NPROC" and "p_state (procs s ! j) = RUNNABLE" and "myproc s = None"
    and "SCHEDULER s = SCHED_MLFQ \<Longrightarrow> X = {j}" and "X \<subseteq> {j}"
  shows "\<exists>t. run_proc j s = Inr t \<and> sinv {} {} t \<and> held t = held s \<and> myproc t = Some j \<and>
    procs t = (procs s)[j := (procs s ! j)\<lparr>p_num_run := p_num_run (procs s ! j) + 1, p_state := RUNNING\<rparr>] \<and>
    cpu_proc t = (cpu_proc s)(cpu_id s := Some j) \<and> ticks t = ticks s \<and> SCHEDULER t = SCHEDULER s"
proof -
  have len: "length (procs s) = NPROC" and ok: "proc_ok (procs s ! j)"
    using table_okD sinvD(1) [OF assms(1)] assms(2) by blast+
  let ?p = "(procs s ! j)\<lparr>p_num_run := p_num_run (procs s ! j) + 1, p_state := RUNNING\<rparr>"
  let ?t = "s\<lparr>procs := (procs s)[j := ?p], cpu_proc := (cpu_proc s)(cpu_id s := Some j),
    esp0 := p_kstack (procs s ! j) + KSTACKSIZE, cr3 := V2P (p_pgdir (procs s ! j))\<rparr>"
  have nz: "p_kstack (procs s ! j) \<noteq> 0" "p_pgdir (procs s ! j) \<noteq> 0"
    using ok assms(3) by (auto simp: proc_ok_def live_def)
  have run: "run_proc j s = Inr ?t"
    using nz assms(2) len by (simp add: run_proc_def switchuvm_def set_myproc_def upd_proc_def)
  have n: "p_queue (procs ?t ! i) = p_queue (procs s ! i)"
    "p_state (procs ?t ! i) = (if i = j then RUNNING else p_state (procs s ! i))" for i
    using assms(2) len by (auto simp: nth_upd)
  have "mlfq_ok {} ?t"
  proof (cases "SCHEDULER s = SCHED_MLFQ")
    case True
    then have r: "runnables ?t - {} = runnables s - X"
      using assms(5) unfolding runnables_def n by auto
    from sinvD(2) [OF assms(1)] show ?thesis unfolding mlfq_ok_def queue_ok_def qbank_def r n by simp
  qed (simp add: mlfq_ok_def)
  moreover have "cpu_ok {} ?t"
  proof -
    note c = cpu_okD [OF sinvD(3) [OF assms(1)]]
    have me: "cpu_proc s (cpu_id s) = None" using assms(4) by (simp add: myproc_def)
    have nj: "cpu_proc s d \<noteq> Some j" for d using c(2) [of d j] assms(3) by auto
    have ex: "\<exists>d. cpu_proc ?t d = Some p" if p: "p < NPROC" "p_state (procs ?t ! p) = RUNNING" for p
    proof (cases "p = j")
      case True
      then show ?thesis by (intro exI [of _ "cpu_id s"]) simp
    next
      case False
      then obtain d where "cpu_proc s d = Some p" using c(4) [OF p(1)] p(2) n(2) [of p] by auto
      with me show ?thesis by (intro exI [of _ d]) auto
    qed
    have "p < NPROC \<and> (p \<notin> {} \<longrightarrow> p_state (procs ?t ! p) = RUNNING)" if "cpu_proc ?t d = Some p" for d p
      unfolding n using that c(1,2) [of d p] assms(2) by (auto split: if_splits)
    moreover have "d = e" if "cpu_proc ?t d = Some p" "cpu_proc ?t e = Some p" for d e p
      using that c(3) [of d p e] nj by (auto split: if_splits)
    ultimately show ?thesis unfolding cpu_ok_def using ex by blast
  qed
  moreover have "table_ok ?t"
    using sinvD(1) [OF assms(1)] ok assms(3) by (auto simp: table_ok_def list_all_length nth_upd proc_ok_def live_def)
  ultimately have "sinv {} {} ?t" by (simp add: sinv_def)
  with run show ?thesis by (simp add: myproc_def)
qed

section \<open>Aging\<close>

text \<open>
  Aging on the abstract queues: the overdue processes at the front of queue \<open>k\<close> are stamped and
  promoted and go to the end of queue \<open>k - 1\<close>.
\<close>

definition age_level :: "u32 \<Rightarrow> nat \<Rightarrow> proc list \<times> nat list list \<Rightarrow> proc list \<times> nat list list" where
  "age_level tk k = (\<lambda>(ps, qs).
     let as = due_prefix tk AGE_LIMIT ps (qs ! k) in
     (upd_all (aged tk) as ps, qs[k := drop (length as) (qs ! k), k - 1 := qs ! (k - 1) @ as]))"

definition age_all :: "u32 \<Rightarrow> proc list \<times> nat list list \<Rightarrow> proc list \<times> nat list list" where
  "age_all tk x = fold (age_level tk) [1..<NUM_QUEUES] x"

lemma queue_okD:
  assumes "queue_ok X s qs"
  shows "qbank s qs" "distinct (concat qs)" "set (concat qs) = runnables s - X" "length qs = NUM_QUEUES"
    "k < NUM_QUEUES \<Longrightarrow> p \<in> set (qs ! k) \<Longrightarrow> p_queue (procs s ! p) = int k"
proof -
  show "qbank s qs" "distinct (concat qs)" "set (concat qs) = runnables s - X" "length qs = NUM_QUEUES"
    using assms qbank_length by (auto simp: queue_ok_def)
  show "k < NUM_QUEUES \<Longrightarrow> p \<in> set (qs ! k) \<Longrightarrow> p_queue (procs s ! p) = int k"
    using assms by (simp add: queue_ok_def)
qed

text \<open>Queue numbers as entries of a table agree with the queues.\<close>

definition numbered :: "proc list \<Rightarrow> nat list list \<Rightarrow> bool" where
  "numbered ps qs \<longleftrightarrow> (\<forall>k < length qs. \<forall>p \<in> set (qs ! k). p < length ps \<and> p_queue (ps ! p) = int k)"

lemma queue_ok_numbered:
  assumes "queue_ok X s qs" and "length (procs s) = NPROC"
  shows "numbered (procs s) qs"
  unfolding numbered_def
proof (intro allI impI ballI)
  fix k p
  assume k: "k < length qs" "p \<in> set (qs ! k)"
  then have "p \<in> runnables s" using nth_concat_in [of k qs p] queue_okD(3) [OF assms(1)] by blast
  with k queue_okD(4) [OF assms(1)] queue_okD(5) [OF assms(1), of k p] assms(2)
  show "p < length (procs s) \<and> p_queue (procs s ! p) = int k" by (simp add: runnables_def)
qed

lemma age_level_abs:
  assumes "numbered ps qs" and "distinct (concat qs)" and "0 < k" and "k < length qs"
    and "age_level tk k (ps, qs) = (ps', qs')"
  shows "numbered ps' qs'" "mset (concat qs') = mset (concat qs)" "length qs' = length qs" "length ps' = length ps"
    "i < length ps \<Longrightarrow> p_state (ps' ! i) = p_state (ps ! i) \<and> p_kstack (ps' ! i) = p_kstack (ps ! i) \<and>
       p_pgdir (ps' ! i) = p_pgdir (ps ! i)"
    "i < length ps \<Longrightarrow> p_queue (ps' ! i) = p_queue (ps ! i) \<or> p_queue (ps' ! i) = int k - 1 \<and> p_queue (ps ! i) = int k"
proof -
  define as where "as = due_prefix tk AGE_LIMIT ps (qs ! k)"
  have qs': "qs' = qs[k := drop (length as) (qs ! k), k - 1 := qs ! (k - 1) @ as]"
    and ps': "ps' = upd_all (aged tk) as ps"
    using assms(5) by (simp_all add: age_level_def as_def Let_def)
  have sp: "qs ! k = as @ drop (length as) (qs ! k)" by (simp add: as_def due_prefix_drop)
  have k1: "k - 1 < length qs" "k \<noteq> k - 1" using assms(3,4) by auto
  show "mset (concat qs') = mset (concat qs)"
    unfolding qs' using assms(4) k1 sp by (intro mset_concat_move) auto
  show "length qs' = length qs" "length ps' = length ps" by (simp_all add: qs' ps')
  note num = assms(1) [unfolded numbered_def, rule_format]
  have asin: "p \<in> set (qs ! k)" if "p \<in> set as" for p using that sp by (metis Un_iff set_append)
  have bs: "p \<notin> set as" if "p \<in> set (drop (length as) (qs ! k))" for p
    using distinct_concat_each [OF assms(2,4)] that sp by (metis disjoint_iff distinct_append)
  show "i < length ps \<Longrightarrow> p_state (ps' ! i) = p_state (ps ! i) \<and> p_kstack (ps' ! i) = p_kstack (ps ! i) \<and>
       p_pgdir (ps' ! i) = p_pgdir (ps ! i)" by (simp add: ps' upd_all_nth aged_def)
  show "i < length ps \<Longrightarrow> p_queue (ps' ! i) = p_queue (ps ! i) \<or> p_queue (ps' ! i) = int k - 1 \<and> p_queue (ps ! i) = int k"
    using num [OF assms(4) asin] by (auto simp: ps' upd_all_nth aged_def)
  show "numbered ps' qs'"
    unfolding numbered_def
  proof (intro allI impI ballI)
    fix j p
    assume j: "j < length qs'" "p \<in> set (qs' ! j)"
    then have j': "j < length qs" by (simp add: qs')
    consider "j = k" "p \<in> set (drop (length as) (qs ! k))" | "j = k - 1" "p \<in> set as"
      | "j \<noteq> k" "p \<in> set (qs ! j)"
      using j assms(4) k1 by (auto simp: qs' nth_upd split: if_splits)
    then show "p < length ps' \<and> p_queue (ps' ! p) = int j"
    proof cases
      case 1
      then have "p \<in> set (qs ! k)" by (auto dest: in_set_dropD)
      with num [OF assms(4) this] bs [OF 1(2)] 1(1) show ?thesis by (simp add: ps' upd_all_nth)
    next
      case 2
      with num [OF assms(4) asin] assms(3) show ?thesis by (simp add: ps' upd_all_nth aged_def of_nat_diff)
    next
      case 3
      then have "p \<notin> set as" using distinct_concat_nth [OF assms(2) j' assms(4), of p] asin by blast
      with num [OF j' 3(2)] show ?thesis by (simp add: ps' upd_all_nth)
    qed
  qed
qed

lemma split_q_ok:
  assumes "sinv X Y s" and "queue_ok X s qs" and "0 < k" and "k < NUM_QUEUES"
    and lev: "age_level (ticks s) k (procs s, qs) = (ps', qs')"
  shows "\<exists>r t. split_q (Some k) (Some (k - 1)) AGE_LIMIT s = Inr (r, t) \<and> sinv X Y t \<and>
    queue_ok X t qs' \<and> pframe s t \<and> procs t = ps'"
proof -
  note q = queue_okD [OF assms(2)]
  have len: "length (procs s) = NPROC" using table_okD(2) sinvD(1) [OF assms(1)] by blast
  have num: "numbered (procs s) qs" using assms(2) len by (rule queue_ok_numbered)
  have k: "k < length qs" using assms(4) q(4) by simp
  note lev' = age_level_abs [OF num q(2) assms(3) k lev]
  have sub: "set (qs ! k) \<subseteq> {..<length (procs s)}" using num k by (auto simp: numbered_def)
  have k1: "k - 1 < length (queues s)" "k < length (queues s)" "k \<noteq> k - 1"
    using assms(3,4) q(1) by (auto simp: qbank_def)
  have rep: "qrep (surplus_nodes s) (queues s) qs" using q(1) by (simp add: qbank_def)
  obtain ns hs where t: "split_q (Some k) (Some (k - 1)) AGE_LIMIT s =
      Inr (int (length (due_prefix (ticks s) AGE_LIMIT (procs s) (qs ! k))),
        s\<lparr>procs := ps', surplus_nodes := ns, queues := hs\<rparr>)" "qrep ns hs qs'"
    "length ns = length (surplus_nodes s)" "length hs = length (queues s)"
    using split_q_rep [OF rep k1(2,1,3) distinct_concat_each [OF q(2) k] sub refl, of AGE_LIMIT] lev
    by (auto simp: age_level_def Let_def)
  let ?t = "s\<lparr>procs := ps', surplus_nodes := ns, queues := hs\<rparr>"
  have st: "p_state (ps' ! i) = p_state (procs s ! i)" if "i < NPROC" for i using lev'(5) that len by simp
  have r: "runnables ?t = runnables s" using st by (auto simp: runnables_def)
  have qok: "queue_ok X ?t qs'"
    using t q(1,2,3,4) mset_eq_setD [OF lev'(2)] mset_eq_imp_distinct_iff [OF lev'(2)] lev'(1,3)
    unfolding queue_ok_def r by (simp add: qbank_def numbered_def del: set_concat)
  have "proc_ok (ps' ! i)" if "i < NPROC" for i
    using that table_okD(1) [OF sinvD(1) [OF assms(1)] that] lev'(5,6) [of i] len assms(3,4)
    by (auto simp: proc_ok_def live_def)
  then have "table_ok ?t" using len lev'(4) by (simp add: table_ok_def list_all_length)
  moreover have "cpu_ok Y ?t" using sinvD(3) [OF assms(1)] st unfolding cpu_ok_def by auto
  ultimately have "sinv X Y ?t" using qok by (auto simp: sinv_def mlfq_ok_def)
  with t(1) qok show ?thesis by (auto simp: pframe_def)
qed

lemma age_levels_mset:
  assumes "numbered ps qs" and "distinct (concat qs)" and "set ks \<subseteq> {1..<length qs}"
    and "fold (age_level tk) ks (ps, qs) = (ps', qs')"
  shows "mset (concat qs') = mset (concat qs)"
  using assms
proof (induction ks arbitrary: ps qs)
  case Nil
  then show ?case by simp
next
  case (Cons k ks)
  obtain ps1 qs1 where l: "age_level tk k (ps, qs) = (ps1, qs1)" by fastforce
  have k: "0 < k" "k < length qs" using Cons.prems(3) by auto
  note a = age_level_abs [OF Cons.prems(1,2) k l]
  have "distinct (concat qs1)" using mset_eq_imp_distinct_iff [OF a(2)] Cons.prems(2) by simp
  with Cons.IH [of ps1 qs1] Cons.prems(3,4) a(1-3) l show ?case by simp
qed

lemma age_all_mset:
  assumes "queue_ok X s qs" and "length (procs s) = NPROC" and "age_all tk (procs s, qs) = (ps', qs')"
  shows "mset (concat qs') = mset (concat qs)"
  using age_levels_mset [OF queue_ok_numbered [OF assms(1,2)] queue_okD(2) [OF assms(1)], of "[1..<NUM_QUEUES]"]
    assms(3) queue_okD(4) [OF assms(1)] by (simp add: age_all_def)

lemma mlfq_age_list:
  assumes "sinv X Y s" and "queue_ok X s qs" and "set ks \<subseteq> {1..<NUM_QUEUES}"
    and "fold (age_level (ticks s)) ks (procs s, qs) = (ps', qs')"
  shows "\<exists>t. foldE (\<lambda>i s. bindE (split_q (Some i) (Some (i - 1)) AGE_LIMIT s) (\<lambda>(_, s). Inr s)) ks s = Inr t \<and>
    sinv X Y t \<and> queue_ok X t qs' \<and> pframe s t \<and> procs t = ps'"
  using assms
proof (induction ks arbitrary: s qs)
  case Nil
  then show ?case by simp
next
  case (Cons k ks)
  obtain ps1 qs1 where l: "age_level (ticks s) k (procs s, qs) = (ps1, qs1)" by fastforce
  have k: "0 < k" "k < NUM_QUEUES" using Cons.prems(3) by auto
  from split_q_ok [OF Cons.prems(1,2) k l] obtain r t where
    t: "split_q (Some k) (Some (k - 1)) AGE_LIMIT s = Inr (r, t)" "sinv X Y t" "queue_ok X t qs1"
      "pframe s t" "procs t = ps1" by blast
  have "fold (age_level (ticks t)) ks (procs t, qs1) = (ps', qs')"
    using Cons.prems(4) l t(5) pframeD(5) [OF t(4)] by simp
  from Cons.IH [OF t(2,3) _ this] Cons.prems(3) obtain u where
    "foldE (\<lambda>i s. bindE (split_q (Some i) (Some (i - 1)) AGE_LIMIT s) (\<lambda>(_, s). Inr s)) ks t = Inr u"
    "sinv X Y u" "queue_ok X u qs'" "pframe t u" "procs u = ps'" by auto
  with t show ?case by (auto intro: pframe_trans)
qed

lemma mlfq_age_ok:
  assumes "sinv X Y s" and "queue_ok X s qs" and "age_all (ticks s) (procs s, qs) = (ps', qs')"
  shows "\<exists>t. mlfq_age s = Inr t \<and> sinv X Y t \<and> queue_ok X t qs' \<and> pframe s t \<and> procs t = ps'"
  unfolding mlfq_age_def
  by (rule mlfq_age_list [OF assms(1,2) _ assms(3) [unfolded age_all_def]]) auto

section \<open>Selection\<close>

text \<open>The head of the first queue that is not empty.\<close>

fun first_head :: "nat list list \<Rightarrow> nat option" where
  "first_head [] = None"
| "first_head ([] # qs) = first_head qs"
| "first_head ((p # ps) # qs) = Some p"

lemma first_head_None: "first_head qs = None \<longleftrightarrow> (\<forall>q \<in> set qs. q = [])"
  by (induction qs rule: first_head.induct) auto

lemma first_head_Some:
  "first_head qs = Some p \<Longrightarrow> \<exists>k ps. k < length qs \<and> qs ! k = p # ps \<and> (\<forall>j < k. qs ! j = [])"
proof (induction qs rule: first_head.induct)
  case (2 qs)
  then obtain k ps where "k < length qs" "qs ! k = p # ps" "\<forall>j < k. qs ! j = []" by auto
  then show ?case by (intro exI [of _ "Suc k"] exI [of _ ps]) (auto simp: nth_Cons split: nat.splits)
qed auto

lemma mlfq_select_ok:
  assumes "sinv {} Y s" and "queue_ok {} s qs"
  shows "(first_head qs = None \<longrightarrow> mlfq_select s = Inr (None, s)) \<and>
    (\<forall>p. first_head qs = Some p \<longrightarrow> (\<exists>t. mlfq_select s = Inr (Some p, t) \<and> sinv {p} Y t \<and>
       qframe t = qframe s \<and> p \<in> runnables s))"
proof (intro conjI impI allI)
  note q = queue_okD [OF assms(2)]
  assume "first_head qs = None"
  then show "mlfq_select s = Inr (None, s)"
    unfolding mlfq_select_def using q(4)
    by (intro mlq.first_nonempty_empty [OF q(1)]) (auto simp: first_head_None)
next
  note q = queue_okD [OF assms(2)]
  fix p
  assume "first_head qs = Some p"
  then obtain k ps where k: "k < NUM_QUEUES" "qs ! k = p # ps" "\<And>j. j < k \<Longrightarrow> qs ! j = []"
    using first_head_Some q(4) by metis
  from mlq.first_nonempty_found [OF q(1) k(1,3,2)] obtain t where
    t: "mlfq_select s = Inr (Some p, t)" "qbank t (qs[k := ps])" "qframe t = qframe s"
    by (auto simp: mlfq_select_def)
  note f = qframe_eqD [OF t(3)]
  have kl: "k < length qs" using k q(4) by simp
  obtain A B where AB: "concat qs = A @ qs ! k @ B" "\<forall>ys. concat (qs[k := ys]) = A @ ys @ B"
    using kl by (rule concat_updateE)
  have r: "runnables t = runnables s" using f by (simp add: runnables_def)
  have p: "p \<in> runnables s" using q(3) AB(1) k(2) by auto
  have "queue_ok {p} t (qs[k := ps])"
    unfolding queue_ok_def r
  proof (intro conjI allI impI ballI t(2))
    show "distinct (concat (qs[k := ps]))" using q(2) AB k(2) by auto
    show "set (concat (qs[k := ps])) = runnables s - {p}"
      using q(2,3) AB k(2) by (auto simp del: set_concat)
    show "p_queue (procs t ! i) = int j" if "j < NUM_QUEUES" "i \<in> set (qs[k := ps] ! j)" for i j
      using that q(5) [of j i] k(2) kl f(1) by (cases "j = k") auto
  qed
  moreover have "table_ok t" "cpu_ok Y t"
    using sinvD [OF assms(1)] f by (simp_all add: table_ok_def cpu_ok_def)
  ultimately have "sinv {p} Y t" by (auto simp: sinv_def mlfq_ok_def)
  with t p show "\<exists>t. mlfq_select s = Inr (Some p, t) \<and> sinv {p} Y t \<and> qframe t = qframe s \<and> p \<in> runnables s"
    by blast
qed

end
