(* ===== verification/Sched_System.thy ===== *)
theory Sched_System
  imports Sched_Inv
begin

text \<open>
  The scheduler as a whole: each iteration succeeds and keeps the invariant, for all four
  policies; then the step relation of the process machinery on any number of CPUs, with every
  critical section of \<^verbatim>\<open>proc.c\<close> as a step, and what holds in all its reachable states.
\<close>

section \<open>One iteration of the scheduler\<close>

lemma rr_select_Some:
  assumes "rr_select i ps = Some j"
  shows "i \<le> j" "j < length ps" "p_state (ps ! j) = RUNNABLE"
    "\<And>k. i \<le> k \<Longrightarrow> k < j \<Longrightarrow> p_state (ps ! k) \<noteq> RUNNABLE"
proof -
  have a: "i \<le> j" "j < i + length (drop i ps)" "p_state (drop i ps ! (j - i)) = RUNNABLE"
    "\<forall>k < j - i. p_state (drop i ps ! k) \<noteq> RUNNABLE"
    using assms by (auto simp: rr_select_def scan_Some_shift)
  have il: "i \<le> length ps" using a(1,2) by (cases "i \<le> length ps") auto
  show "i \<le> j" "j < length ps" "p_state (ps ! j) = RUNNABLE" using a il by auto
  show "p_state (ps ! k) \<noteq> RUNNABLE" if "i \<le> k" "k < j" for k
    using a(4) [rule_format, of "k - i"] that il by auto
qed

lemma rr_select_None: "rr_select i ps = None \<longleftrightarrow> (\<forall>k. i \<le> k \<longrightarrow> k < length ps \<longrightarrow> p_state (ps ! k) \<noteq> RUNNABLE)"
proof -
  have "rr_select i ps = None \<longleftrightarrow> (\<forall>k < length ps - i. p_state (ps ! (i + k)) \<noteq> RUNNABLE)"
    by (cases "i \<le> length ps") (auto simp: rr_select_def scan_None_iff all_set_conv_all_nth)
  also have "\<dots> \<longleftrightarrow> (\<forall>k. i \<le> k \<longrightarrow> k < length ps \<longrightarrow> p_state (ps ! k) \<noteq> RUNNABLE)"
    by (auto simp: le_iff_add)
  finally show ?thesis .
qed

text \<open>What one iteration establishes, seen from the state \<open>s\<close> in which the lock is not yet held.\<close>

definition scheduled :: "'a pstate_scheme \<Rightarrow> nat option \<Rightarrow> 'a pstate_scheme \<Rightarrow> bool" where
  "scheduled s r t \<longleftrightarrow> sinv {} {} t \<and> SCHEDULER t = SCHEDULER s \<and> ticks t = ticks s \<and>
     (case r of
        None \<Rightarrow> held t = held s \<and> myproc t = None
      | Some j \<Rightarrow> held t = insert L_ptable (held s) \<and> myproc t = Some j \<and> j \<in> runnables s)"

lemma release_none_ok:
  assumes "sinv {} {} s" and "held s = insert L_ptable H" and "L_ptable \<notin> H" and "myproc s = None"
  shows "\<exists>t. release_none s = Inr (None, t) \<and> scheduled (s\<lparr>held := H\<rparr>) None t"
  using assms by (simp add: release_none_def scheduled_def myproc_def)

lemma run_selected_ok:
  assumes "sinv X {} s" and "j \<in> runnables s" and "myproc s = None"
    and "SCHEDULER s = SCHED_MLFQ \<Longrightarrow> X = {j}" "X \<subseteq> {j}" and "held s = insert L_ptable H"
  shows "\<exists>t. bindE (run_proc j s) (\<lambda>s. Inr (Some j, s)) = Inr (Some j, t) \<and>
    scheduled (s\<lparr>held := H\<rparr>) (Some j) t"
proof -
  obtain t where "run_proc j s = Inr t" "sinv {} {} t" "held t = held s" "myproc t = Some j"
    "ticks t = ticks s" "SCHEDULER t = SCHEDULER s"
    using run_proc_ok [OF assms(1) _ _ assms(3-5)] assms(2) by (auto simp: runnables_def)
  with assms(2,6) show ?thesis by (auto simp: scheduled_def runnables_def)
qed

lemma scheduler_rr_from_ok:
  assumes "sinv {} {} s" and "held s = insert L_ptable H" and "L_ptable \<notin> H" and "myproc s = None"
    and "SCHEDULER s \<noteq> SCHED_MLFQ"
  shows "\<exists>r t. scheduler_rr_from i s = Inr (r, t) \<and> scheduled (s\<lparr>held := H\<rparr>) r t \<and> r = rr_select i (procs s)"
proof (cases "rr_select i (procs s)")
  case None
  with release_none_ok [OF assms(1-4)] show ?thesis by (auto simp: scheduler_rr_from_def)
next
  case (Some j)
  then have "j \<in> runnables s"
    using rr_select_Some [OF Some] table_okD(2) [OF sinvD(1) [OF assms(1)]] by (simp add: runnables_def)
  from run_selected_ok [OF assms(1) this assms(4) _ _ assms(2)] assms(5) Some
  show ?thesis by (auto simp: scheduler_rr_from_def)
qed

lemma first_least_runnable:
  "table_ok s \<Longrightarrow> first_least (\<lambda>p. p_state p = RUNNABLE) key m (procs s) j \<Longrightarrow> j \<in> runnables s"
  by (auto simp: first_least_def runnables_def table_ok_def)

lemma scheduler_fcfs_ok:
  assumes "sinv {} {} s" and "L_ptable \<notin> held s" and "myproc s = None" and "SCHEDULER s = SCHED_FCFS"
  shows "\<exists>r t. scheduler_fcfs s = Inr (r, t) \<and> scheduled s r t \<and> r = fcfs_select (ticks s) (procs s)"
proof -
  let ?s = "s\<lparr>held := insert L_ptable (held s)\<rparr>"
  have inv: "sinv {} {} ?s" "myproc ?s = None" "held ?s = insert L_ptable (held s)"
    using assms by (simp_all add: myproc_def)
  show ?thesis
  proof (cases "fcfs_select (ticks s) (procs s)")
    case None
    with release_none_ok [OF inv(1,3) assms(2) inv(2)] assms(2) show ?thesis
      by (auto simp: scheduler_fcfs_def)
  next
    case (Some j)
    then have "j \<in> runnables s"
      using first_least_runnable [OF sinvD(1) [OF assms(1)]]
      by (auto simp: fcfs_select_def fcfs_loop_min_loop min_loop_iff)
    then have "j \<in> runnables ?s" by (simp add: runnables_def)
    from run_selected_ok [OF inv(1) this inv(2) _ _ inv(3)] assms(2,4) Some
    show ?thesis by (auto simp: scheduler_fcfs_def)
  qed
qed

lemma scheduler_pbs_ok:
  assumes "sinv {} {} s" and "L_ptable \<notin> held s" and "myproc s = None" and "SCHEDULER s = SCHED_PBS"
  shows "\<exists>r t. scheduler_pbs s = Inr (r, t) \<and> scheduled s r t \<and> r = pbs_select (ticks s) (procs s)"
proof -
  let ?s = "s\<lparr>held := insert L_ptable (held s)\<rparr>"
  have inv: "sinv {} {} ?s" "myproc ?s = None" "held ?s = insert L_ptable (held s)"
    using assms by (simp_all add: myproc_def)
  show ?thesis
  proof (cases "pbs_select (ticks s) (procs s)")
    case None
    with release_none_ok [OF inv(1,3) assms(2) inv(2)] assms(2) show ?thesis
      by (auto simp: scheduler_pbs_def)
  next
    case (Some j)
    let ?u = "upd_proc j (\<lambda>p. p\<lparr>p_timeslices := p_timeslices p + 1\<rparr>) ?s"
    have j: "j \<in> runnables s"
      using Some first_least_runnable [OF sinvD(1) [OF assms(1)]]
      by (auto simp: pbs_select_def pbs_loop_min_loop min_loop_iff)
    have "sinv {} {} ?u"
      using inv(1) table_okD(1) [OF sinvD(1) [OF inv(1)]]
      by (intro sinv_upd_same) (auto simp: proc_ok_def live_def)
    moreover have "j \<in> runnables ?u" using j table_okD(2) [OF sinvD(1) [OF assms(1)]]
      by (auto simp: runnables_def nth_upd)
    ultimately have "\<exists>t. bindE (run_proc j ?u) (\<lambda>s. Inr (Some j, s)) = Inr (Some j, t) \<and>
        scheduled (?u\<lparr>held := held s\<rparr>) (Some j) t"
      using inv assms(4) by (intro run_selected_ok [where X = "{}"]) simp_all
    with j Some assms(2) show ?thesis by (auto simp: scheduler_pbs_def scheduled_def)
  qed
qed

lemma scheduler_mlfq_ok:
  assumes "sinv {} {} s" and "L_ptable \<notin> held s" and "myproc s = None" and "SCHEDULER s = SCHED_MLFQ"
    and "queue_ok {} s qs" and "age_all (ticks s) (procs s, qs) = (ps', qs')"
  shows "\<exists>r t. scheduler_mlfq s = Inr (r, t) \<and> scheduled s r t \<and> r = first_head qs'"
proof -
  let ?s = "s\<lparr>held := insert L_ptable (held s)\<rparr>"
  have q: "queue_ok {} ?s qs" using assms(5) by (simp add: queue_ok_def qbank_def runnables_def)
  have inv: "sinv {} {} ?s" "myproc ?s = None" using assms by (simp_all add: myproc_def)
  from mlfq_age_ok [OF inv(1) q, of ps' qs'] assms(6) obtain t where
    t: "mlfq_age ?s = Inr t" "sinv {} {} t" "queue_ok {} t qs'" "pframe ?s t" "procs t = ps'" by auto
  note f = pframeD [OF t(4)]
  have "runnables t = runnables s"
    using queue_okD(3) [OF t(3)] queue_okD(3) [OF assms(5)] age_all_mset [OF assms(5) _ assms(6)]
      table_okD(2) [OF sinvD(1) [OF assms(1)]] by (metis Diff_empty mset_eq_setD)
  note rt = this
  have m: "myproc t = None" "held t = insert L_ptable (held s)" using f inv by simp_all
  show ?thesis
  proof (cases "first_head qs'")
    case None
    then have "mlfq_select t = Inr (None, t)" using mlfq_select_ok [OF t(2,3)] by simp
    with release_none_ok [OF t(2) m(2) assms(2) m(1)] None t(1) f assms(2) show ?thesis
      by (auto simp: scheduler_mlfq_def scheduled_def)
  next
    case (Some p)
    then obtain u where u: "mlfq_select t = Inr (Some p, u)" "sinv {p} {} u" "qframe u = qframe t" "p \<in> runnables t"
      using mlfq_select_ok [OF t(2,3)] by blast
    note g = qframe_eqD [OF u(3)]
    let ?u = "upd_proc p (\<lambda>p. p\<lparr>p_cur_timeslices := p_cur_timeslices p + 1\<rparr>) u"
    have pu: "p_state (procs u ! p) = RUNNABLE" "p < NPROC" using u(4) g(1) by (auto simp: runnables_def)
    have "sinv {p} {} ?u" using u(2) table_okD(1) [OF sinvD(1) [OF u(2)]]
      by (intro sinv_upd_same) (auto simp: proc_ok_def live_def)
    moreover have "p \<in> runnables ?u" using pu table_okD(2) [OF sinvD(1) [OF u(2)]]
      by (auto simp: runnables_def nth_upd)
    moreover have "myproc ?u = None" "held ?u = insert L_ptable (held s)"
      using g m by (simp_all add: myproc_def)
    ultimately have "\<exists>v. bindE (run_proc p ?u) (\<lambda>s. Inr (Some p, s)) = Inr (Some p, v) \<and>
        scheduled (?u\<lparr>held := held s\<rparr>) (Some p) v"
      by (intro run_selected_ok [where X = "{p}"]) simp_all
    with u t(1) pu Some assms(2) f g rt show ?thesis
      by (auto simp: scheduler_mlfq_def scheduled_def)
  qed
qed

lemma scheduler_ok:
  assumes "sinv {} {} s" and "L_ptable \<notin> held s" and "myproc s = None"
  shows "\<exists>r t. scheduler s = Inr (r, t) \<and> scheduled s r t"
proof (cases "SCHEDULER s")
  case SCHED_RR
  let ?s = "s\<lparr>held := insert L_ptable (held s)\<rparr>"
  have "sinv {} {} ?s" "myproc ?s = None" "held ?s = insert L_ptable (held s)" "SCHEDULER ?s \<noteq> SCHED_MLFQ"
    using assms SCHED_RR by (simp_all add: myproc_def)
  from scheduler_rr_from_ok [OF this(1,3) assms(2) this(2,4), of 0] assms(2) SCHED_RR show ?thesis
    by (auto simp: scheduler_def scheduler_rr_def)
next
  case SCHED_FCFS
  with scheduler_fcfs_ok [OF assms] show ?thesis by (auto simp: scheduler_def)
next
  case SCHED_PBS
  with scheduler_pbs_ok [OF assms] show ?thesis by (auto simp: scheduler_def)
next
  case SCHED_MLFQ
  then obtain qs where qs: "queue_ok {} s qs" using sinvD(2) [OF assms(1)] by (auto simp: mlfq_ok_def)
  obtain ps' qs' where "age_all (ticks s) (procs s, qs) = (ps', qs')" by fastforce
  from scheduler_mlfq_ok [OF assms SCHED_MLFQ qs this] SCHED_MLFQ show ?thesis
    by (auto simp: scheduler_def)
qed

section \<open>Giving up the CPU\<close>

text \<open>A process that has called \<^verbatim>\<open>sched\<close>: it holds the lock and is still its CPU's process.\<close>

definition leaving :: "nat \<Rightarrow> 'a pstate_scheme \<Rightarrow> bool" where
  "leaving i s \<longleftrightarrow> sinv {i} {i} s \<and> held s = {L_ptable} \<and> myproc s = Some i \<and> i < NPROC \<and>
     p_state (procs s ! i) \<noteq> RUNNING"

lemma sinv_not_mlfq: "SCHEDULER s \<noteq> SCHED_MLFQ \<Longrightarrow> sinv X Y s \<Longrightarrow> sinv X' Y s"
  by (simp add: sinv_def mlfq_ok_def)

lemma scheduler_back_ok:
  assumes "leaving i s"
  shows "\<exists>r t. scheduler_back i s = Inr (r, t) \<and> scheduled (s\<lparr>held := {}\<rparr>) r t"
proof -
  let ?s = "set_myproc None (switchkvm s)"
  have sw: "sinv {i} {i} (switchkvm s)" "myproc (switchkvm s) = Some i"
    "p_state (procs (switchkvm s) ! i) \<noteq> RUNNING"
    using assms by (simp_all add: leaving_def switchkvm_def myproc_def)
  have inv: "sinv {i} {} ?s" using sw by (rule sinv_set_none)
  have m: "myproc ?s = None" "held ?s = insert L_ptable {}" "SCHEDULER ?s = SCHEDULER s"
    "procs ?s = procs s" "ticks ?s = ticks s"
    using assms by (simp_all add: leaving_def switchkvm_def myproc_def)
  have base: "scheduled (s\<lparr>held := {}\<rparr>) r t" if "scheduled (?s\<lparr>held := {}\<rparr>) r t" for r t
    using that m by (auto simp: scheduled_def runnables_def split: option.splits)
  consider (mlfq) "SCHEDULER s = SCHED_MLFQ" | (rr) "SCHEDULER s = SCHED_RR"
    | (other) "SCHEDULER s = SCHED_FCFS \<or> SCHEDULER s = SCHED_PBS"
    by (cases "SCHEDULER s") auto
  then show ?thesis
  proof cases
    case mlfq
    from mlfq_requeue_ok [OF inv] assms mlfq m obtain t where
      t: "mlfq_requeue i ?s = Inr t" "sinv {} {} t" "pframe ?s t" by (auto simp: leaving_def)
    have "myproc t = None" "held t = insert L_ptable {}" using pframeD [OF t(3)] m by simp_all
    from release_none_ok [OF t(2) this(2) _ this(1)] t(1) mlfq m pframeD [OF t(3)] show ?thesis
      by (auto simp: scheduler_back_def scheduled_def)
  next
    case rr
    then have "sinv {} {} ?s" "SCHEDULER ?s \<noteq> SCHED_MLFQ" using inv m by (auto intro: sinv_not_mlfq)
    from scheduler_rr_from_ok [OF this(1) m(2) _ m(1) this(2), of "Suc i"] rr m base show ?thesis
      by (auto simp: scheduler_back_def Let_def)
  next
    case other
    then have "sinv {} {} ?s" using inv m by (auto intro: sinv_not_mlfq)
    from release_none_ok [OF this m(2) _ m(1)] other m base show ?thesis
      by (auto simp: scheduler_back_def Let_def)
  qed
qed

lemma sched_leave:
  assumes "sinv {} {} s" and "held s = {L_ptable}" and "myproc s = Some i" and "st \<notin> {RUNNING, EMBRYO}"
    and "\<And>p. p_queue (f p) = p_queue p" "\<And>p. p_state (f p) = st"
    "\<And>p. p_kstack (f p) = p_kstack p" "\<And>p. p_pgdir (f p) = p_pgdir p"
  shows "sched (upd_proc i f s) = Inr (upd_proc i f s) \<and> leaving i (upd_proc i f s)"
proof -
  have c: "cpu_proc s (cpu_id s) = Some i" using assms(3) by (simp add: myproc_def)
  have i: "i < NPROC" using cpu_okD(1) [OF sinvD(3) [OF assms(1)] c] .
  have "p_state (procs (upd_proc i f s) ! i) = st"
    using i table_okD(2) [OF sinvD(1) [OF assms(1)]] assms(6) by simp
  with sinv_leave [OF assms(1) c assms(4-8)] assms(2,3,4) i show ?thesis
    by (simp add: leaving_def sched_def holding_def)
qed

lemma yield_ok:
  assumes "sinv {} {} s" and "held s = {}" and "myproc s = Some i"
  shows "\<exists>t. yield s = Inr t \<and> leaving i t \<and> t = upd_proc i (\<lambda>p. p\<lparr>p_state := RUNNABLE\<rparr>) (s\<lparr>held := {L_ptable}\<rparr>)"
proof -
  let ?s = "s\<lparr>held := {L_ptable}\<rparr>"
  have "sched (upd_proc i (\<lambda>p. p\<lparr>p_state := RUNNABLE\<rparr>) ?s) = Inr (upd_proc i (\<lambda>p. p\<lparr>p_state := RUNNABLE\<rparr>) ?s) \<and>
      leaving i (upd_proc i (\<lambda>p. p\<lparr>p_state := RUNNABLE\<rparr>) ?s)"
    using assms by (intro sched_leave [where st = RUNNABLE]) (auto simp: myproc_def)
  with assms show ?thesis by (simp add: yield_def myproc_def)
qed

lemma sleep_ok:
  assumes "sinv {} {} s" and "held s = {l}" and "myproc s = Some i"
  shows "\<exists>t. sleep ch (Some l) s = Inr t \<and> leaving i t \<and>
    t = upd_proc i (\<lambda>p. p\<lparr>p_chan := Some ch, p_state := SLEEPING\<rparr>) (s\<lparr>held := {L_ptable}\<rparr>)"
proof -
  let ?s = "s\<lparr>held := {L_ptable}\<rparr>" and ?f = "\<lambda>p. p\<lparr>p_chan := Some ch, p_state := SLEEPING\<rparr>"
  have a: "sched (upd_proc i ?f ?s) = Inr (upd_proc i ?f ?s) \<and> leaving i (upd_proc i ?f ?s)"
    using assms by (intro sched_leave [where st = SLEEPING]) (auto simp: myproc_def)
  have b: "(if l \<noteq> L_ptable then bindE (acquire L_ptable s) (release l) else Inr s) = Inr ?s"
    using assms(2) by (auto simp: insert_Diff_if)
  show ?thesis using assms(3) a by (simp add: sleep_def b)
qed

section \<open>Life cycle\<close>

lemma kframeD:
  assumes "kframe (s :: 'a pstate_scheme) t"
  shows "procs t = procs s" "queues t = queues s" "surplus_nodes t = surplus_nodes s"
    "cpu_proc t = cpu_proc s" "SCHEDULER t = SCHEDULER s" "held t = held s" "cpu_id t = cpu_id s"
    "myproc t = myproc s" "ticks t = ticks s" "nextpid t = nextpid s" "initproc t = initproc s"
proof -
  note t = assms [unfolded kframe_def]
  show "procs t = procs s" "queues t = queues s" "surplus_nodes t = surplus_nodes s"
    "cpu_proc t = cpu_proc s" "SCHEDULER t = SCHEDULER s" "held t = held s" "cpu_id t = cpu_id s"
    "myproc t = myproc s" "ticks t = ticks s" "nextpid t = nextpid s" "initproc t = initproc s"
    by (subst t, simp add: myproc_def)+
qed

lemma sinv_kframe: "kframe s t \<Longrightarrow> sinv X Y t \<longleftrightarrow> sinv X Y s"
  by (rule sinv_cong) (simp_all add: kframeD)

text \<open>A change of state between states that neither the CPUs nor the queues know.\<close>

lemma sinv_upd_idle:
  assumes "sinv X Y s" and "i < NPROC"
    and "p_state (procs s ! i) \<notin> {RUNNABLE, RUNNING}" and "p_state (f (procs s ! i)) \<notin> {RUNNABLE, RUNNING}"
    and "proc_ok (f (procs s ! i))"
  shows "sinv X Y (upd_proc i f s)"
proof -
  let ?t = "upd_proc i f s"
  have len: "length (procs s) = NPROC" using table_okD(2) sinvD(1) [OF assms(1)] by blast
  have n: "procs ?t ! j = (if j = i then f (procs s ! i) else procs s ! j)" for j
    using assms(2) len by (auto simp: nth_upd)
  have r: "runnables ?t = runnables s" using assms(3,4) unfolding runnables_def n by auto
  have "queue_ok X ?t qs" if q: "queue_ok X s qs" for qs
  proof -
    have "i \<notin> set (qs ! k)" if "k < NUM_QUEUES" for k
      using nth_concat_in [of k qs i] queue_okD(3,4) [OF q] that assms(3)
      by (auto simp: runnables_def simp del: set_concat)
    with q show ?thesis unfolding queue_ok_def r n by (auto simp: qbank_def)
  qed
  then have "mlfq_ok X ?t" using sinvD(2) [OF assms(1)] by (auto simp: mlfq_ok_def)
  moreover have "cpu_ok Y ?t"
  proof -
    note c = cpu_okD [OF sinvD(3) [OF assms(1)]]
    have "p < NPROC \<and> (p \<notin> Y \<longrightarrow> p_state (procs ?t ! p) = RUNNING)" if "cpu_proc s d = Some p" for d p
      unfolding n using c(1,2) [OF that] assms(3) by auto
    moreover have "\<exists>d. cpu_proc s d = Some p" if "p < NPROC" "p_state (procs ?t ! p) = RUNNING" for p
      using that assms(4) c(4) [of p] unfolding n by (auto split: if_splits)
    ultimately show ?thesis using c(3) unfolding cpu_ok_def by auto
  qed
  moreover have "table_ok ?t" using sinvD(1) [OF assms(1)] assms(5) by (rule table_ok_upd)
  ultimately show ?thesis by (simp add: sinv_def)
qed

lemma publish_ok:
  assumes "sinv {} {} s" and "L_ptable \<notin> held s" and "i < NPROC" and "p_state (procs s ! i) = EMBRYO"
    and "p_pgdir (procs s ! i) \<noteq> 0"
  shows "\<exists>t. publish i s = Inr t \<and> sinv {} {} t \<and> held t = held s \<and> myproc t = myproc s \<and>
    procs t = (procs s)[i := (procs s ! i)\<lparr>p_state := RUNNABLE\<rparr>]"
proof -
  let ?h = "s\<lparr>held := insert L_ptable (held s)\<rparr>"
  let ?s = "upd_proc i (\<lambda>p. p\<lparr>p_state := RUNNABLE\<rparr>) ?h"
  have len: "length (procs s) = NPROC" using table_okD(2) sinvD(1) [OF assms(1)] by blast
  have q: "p_queue (procs s ! i) = 0" "proc_ok (procs s ! i)"
    using table_okD(1) [OF sinvD(1) [OF assms(1)] assms(3)] assms(4) by (simp_all add: proc_ok_def)
  have inv: "sinv (insert i {}) {} ?s"
    using assms q by (intro sinv_to_runnable) (auto simp: proc_ok_def)
  show ?thesis
  proof (cases "SCHEDULER s = SCHED_MLFQ")
    case False
    then have "sinv {} {} ?s" using inv by (intro sinv_not_mlfq [OF _ inv]) simp
    with False assms(2) show ?thesis by (simp add: publish_def Let_def myproc_def)
  next
    case True
    have "i \<in> runnables ?s" using assms(3) len by (simp add: runnables_def)
    then obtain t where t: "enqueue (p_queue (procs ?s ! i)) i ?s = Inr t" "sinv {} {} t" "qframe t = qframe ?s"
      using sinv_enqueue [OF inv, of i] True by auto
    note f = qframe_eqD [OF t(3)]
    have "p_queue (procs ?s ! i) = 0" using assms(3) q len by simp
    with t f True assms(2) show ?thesis by (simp add: publish_def Let_def myproc_def)
  qed
qed

lemma reparent_prefix:
  assumes "sinv {} Y s" and "n \<le> NPROC"
  shows "\<exists>t. foldE (\<lambda>i s. if p_parent (procs s ! i) = Some cur then
         (let s = upd_proc i (\<lambda>p. p\<lparr>p_parent := initproc s\<rparr>) s in
          if p_state (procs s ! i) = ZOMBIE then wakeup1 (map_option Ch_proc (initproc s)) s else Inr s)
       else Inr s) [0..<n] s = Inr t \<and> sinv {} Y t \<and> pframe s t \<and>
    (\<forall>j < NPROC. p_parent (procs t ! j) =
       (if j < n \<and> p_parent (procs s ! j) = Some cur then initproc s else p_parent (procs s ! j)))"
  using assms(2)
proof (induction n)
  case 0
  with assms(1) show ?case by simp
next
  case (Suc n)
  let ?f = "\<lambda>i s. if p_parent (procs s ! i) = Some cur then
         (let s = upd_proc i (\<lambda>p. p\<lparr>p_parent := initproc s\<rparr>) s in
          if p_state (procs s ! i) = ZOMBIE then wakeup1 (map_option Ch_proc (initproc s)) s else Inr s)
       else Inr s"
  from Suc obtain t where t: "foldE ?f [0..<n] s = Inr t" "sinv {} Y t" "pframe s t"
    "\<forall>j < NPROC. p_parent (procs t ! j) =
       (if j < n \<and> p_parent (procs s ! j) = Some cur then initproc s else p_parent (procs s ! j))" by auto
  have len: "length (procs t) = NPROC" using table_okD(2) sinvD(1) [OF t(2)] by blast
  have n: "n < NPROC" using Suc.prems by simp
  have fold: "foldE ?f [0..<Suc n] s = ?f n t" using t(1) by (simp add: foldE_snoc)
  have pn: "p_parent (procs t ! n) = p_parent (procs s ! n)" using t(4) n by simp
  show ?case
  proof (cases "p_parent (procs s ! n) = Some cur")
    case False
    with t pn n fold show ?thesis by (auto simp: less_Suc_eq)
  next
    case True
    let ?u = "upd_proc n (\<lambda>p. p\<lparr>p_parent := initproc t\<rparr>) t"
    have inv: "sinv {} Y ?u" using t(2) table_okD(1) [OF sinvD(1) [OF t(2)]]
      by (intro sinv_upd_same) (auto simp: proc_ok_def live_def)
    have "\<exists>v. ?f n t = Inr v \<and> sinv {} Y v \<and> pframe ?u v \<and>
        (\<forall>j < NPROC. p_parent (procs v ! j) = p_parent (procs ?u ! j))"
      using True pn inv wakeup1_ok [OF inv, of "map_option Ch_proc (initproc t)"] len
      by (auto simp: Let_def woken_def)
    then obtain v where v: "?f n t = Inr v" "sinv {} Y v" "pframe ?u v"
      "\<forall>j < NPROC. p_parent (procs v ! j) = p_parent (procs ?u ! j)" by blast
    have "pframe s v" using t(3) v(3) by (meson pframe_trans pframe_upd_proc)
    moreover have "p_parent (procs v ! j) =
        (if j < Suc n \<and> p_parent (procs s ! j) = Some cur then initproc s else p_parent (procs s ! j))"
      if "j < NPROC" for j
      using v(4) t(4) that n len True pframeD(7) [OF t(3)] by (auto simp: nth_upd less_Suc_eq)
    ultimately show ?thesis using v fold by auto
  qed
qed

lemma exit_tail_ok:
  assumes "sinv {} {} s" and "held s = {}" and "myproc s = Some cur"
  shows "\<exists>t. exit_tail cur s = Inr t \<and> leaving cur t \<and> p_state (procs t ! cur) = ZOMBIE \<and>
    (\<forall>j < NPROC. p_parent (procs t ! j) =
       (if p_parent (procs s ! j) = Some cur then initproc s else p_parent (procs s ! j)))"
proof -
  let ?s = "s\<lparr>held := {L_ptable}\<rparr>"
  have len: "length (procs s) = NPROC" using table_okD(2) sinvD(1) [OF assms(1)] by blast
  from wakeup1_ok [of "{}" ?s "map_option Ch_proc (p_parent (procs s ! cur))"] assms(1) obtain t where
    t: "wakeup1 (map_option Ch_proc (p_parent (procs s ! cur))) ?s = Inr t" "sinv {} {} t" "pframe ?s t"
      "procs t = map (\<lambda>p. if sleeps_on (map_option Ch_proc (p_parent (procs s ! cur))) p then woken ?s p else p) (procs s)"
    by auto
  from reparent_prefix [OF t(2) order.refl, of cur] obtain u where
    u: "reparent cur t = Inr u" "sinv {} {} u" "pframe t u"
      "\<forall>j < NPROC. p_parent (procs u ! j) =
         (if j < NPROC \<and> p_parent (procs t ! j) = Some cur then initproc t else p_parent (procs t ! j))"
    by (auto simp: reparent_def)
  have f: "held u = {L_ptable}" "myproc u = Some cur" "initproc t = initproc s"
    using pframeD [OF t(3)] pframeD [OF u(3)] assms(3) by (simp_all add: myproc_def)
  have cur: "cur < NPROC" "length (procs u) = NPROC"
    using cpu_okD(1) [OF sinvD(3) [OF assms(1)]] assms(3) table_okD(2) [OF sinvD(1) [OF u(2)]]
    by (auto simp: myproc_def)
  let ?z = "upd_proc cur (\<lambda>p. p\<lparr>p_state := ZOMBIE\<rparr>) u"
  have "sched ?z = Inr ?z \<and> leaving cur ?z"
    by (rule sched_leave [OF u(2) f(1,2), where st = ZOMBIE]) auto
  moreover have "p_parent (procs t ! j) = p_parent (procs s ! j)" if "j < NPROC" for j
    using that len by (simp add: t(4) woken_def)
  then have "\<forall>j < NPROC. p_parent (procs ?z ! j) =
      (if p_parent (procs s ! j) = Some cur then initproc s else p_parent (procs s ! j))"
    using u(4) cur f(3) by (auto simp: nth_upd)
  ultimately show ?thesis
    using t(1) u(1) assms(2) cur by (auto simp: exit_tail_def)
qed

lemma reap_ok:
  assumes "sinv {} {} s" and "i < NPROC" and "p_state (procs s ! i) = ZOMBIE" and "held s = {L_ptable}"
    and "reap i s = Inr (pid, t)"
  shows "sinv {} {} t \<and> held t = {} \<and> myproc t = myproc s"
proof -
  let ?k = "\<lambda>s. upd_proc i (\<lambda>p. p\<lparr>p_kstack := 0\<rparr>) s"
  let ?c = "\<lambda>s. upd_proc i (\<lambda>p. p\<lparr>p_pid := 0, p_parent := None, p_name := (p_name p)[0 := 0],
           p_killed := False, p_state := UNUSED\<rparr>) s"
  from assms(5) obtain s1 s2 where s: "kfree (p_kstack (procs s ! i)) s = Inr s1"
    "freevm (p_pgdir (procs (?k s1) ! i)) (?k s1) = Inr s2" "release L_ptable (?c s2) = Inr t"
    by (auto simp: reap_def Let_def elim!: bindE_InrE)
  note f1 = kfree_frame [OF s(1)] and f2 = freevm_frame [OF s(2)]
  have len: "length (procs s) = NPROC" using table_okD(2) sinvD(1) [OF assms(1)] by blast
  have p1: "procs s1 = procs s" "procs s2 = procs (?k s1)" using kframeD [OF f1] kframeD [OF f2] by simp_all
  let ?v = "s2\<lparr>procs := procs s\<rparr>"
  have v: "sinv {} {} ?v" using assms(1) kframeD [OF f1] kframeD [OF f2] by (subst sinv_cong [where s = s]) simp_all
  have "?c s2 = upd_proc i (\<lambda>p. p\<lparr>p_kstack := 0, p_pid := 0, p_parent := None, p_name := (p_name p)[0 := 0],
      p_killed := False, p_state := UNUSED\<rparr>) ?v" using p1 assms(2) len by (simp add: upd_proc_def)
  then have "sinv {} {} (?c s2)"
    using v assms(2,3) table_okD(1) [OF sinvD(1) [OF assms(1)] assms(2)]
    by (simp only:) (intro sinv_upd_idle, auto simp: proc_ok_def live_def)
  moreover have "held s2 = {L_ptable}" "myproc s2 = myproc s"
    using kframeD [OF f1] kframeD [OF f2] assms(4) by (simp_all)
  moreover have "t = (?c s2)\<lparr>held := held s2 - {L_ptable}\<rparr>" using s(3) by (simp add: release_Inr_iff)
  ultimately show ?thesis by simp
qed

lemma wait_scan_zombie:
  "wait_scan cur i ps h = (h', Some j) \<Longrightarrow> i \<le> j \<and> j < i + length ps \<and> p_state (ps ! (j - i)) = ZOMBIE \<and>
     p_parent (ps ! (j - i)) = Some cur"
proof (induction ps arbitrary: i h)
  case Nil
  then show ?case by simp
next
  case (Cons p ps)
  show ?case
  proof (cases "p_parent p = Some cur \<and> p_state p = ZOMBIE")
    case True
    with Cons.prems show ?thesis by auto
  next
    case False
    then obtain h2 where "wait_scan cur (Suc i) ps h2 = (h', Some j)"
      using Cons.prems by (auto split: if_splits)
    from Cons.IH [OF this] show ?thesis by (auto simp: nth_Cons' Suc_diff_Suc)
  qed
qed

lemma wait_scan_None:
  "wait_scan cur i ps h = (h', None) \<Longrightarrow> h' = (h \<or> (\<exists>p \<in> set ps. p_parent p = Some cur)) \<and>
     (\<forall>p \<in> set ps. p_parent p = Some cur \<longrightarrow> p_state p \<noteq> ZOMBIE)"
proof (induction ps arbitrary: i h)
  case Nil
  then show ?case by simp
next
  case (Cons p ps)
  then have nz: "\<not> (p_parent p = Some cur \<and> p_state p = ZOMBIE)" by auto
  with Cons.prems have "wait_scan cur (Suc i) ps (h \<or> p_parent p = Some cur) = (h', None)"
    by (auto split: if_splits)
  from Cons.IH [OF this] nz show ?case by auto
qed

lemma wait_iter_ok:
  assumes "sinv {} {} s" and "held s = {L_ptable}" and "myproc s = Some cur" and "wait_iter cur s = Inr (r, t)"
  shows "(case r of None \<Rightarrow> leaving cur t | Some _ \<Rightarrow> sinv {} {} t \<and> held t = {} \<and> myproc t = myproc s)"
proof (cases "wait_scan cur 0 (procs s) False")
  case (Pair h z)
  show ?thesis
  proof (cases z)
    case (Some i)
    then have "i < NPROC" "p_state (procs s ! i) = ZOMBIE"
      using wait_scan_zombie [of cur 0 "procs s" False h i] Pair table_okD(2) [OF sinvD(1) [OF assms(1)]] by auto
    with reap_ok [OF assms(1)] assms(2,4) Pair Some show ?thesis
      by (auto simp: wait_iter_def elim!: bindE_InrE)
  next
    case None
    show ?thesis
    proof (cases "\<not> h \<or> p_killed (procs s ! cur)")
      case True
      then have "wait_iter cur s = bindE (release L_ptable s) (\<lambda>s. Inr (Some (-1), s))"
        using Pair None by (simp add: wait_iter_def)
      then have "r = Some (-1)" "t = s\<lparr>held := {}\<rparr>" using assms(2,4) by simp_all
      then show ?thesis using assms(1) by simp
    next
      case False
      then have "wait_iter cur s = bindE (sleep (Ch_proc cur) (Some L_ptable) s) (\<lambda>s. Inr (None, s))"
        using Pair None by (simp add: wait_iter_def)
      moreover obtain u where "sleep (Ch_proc cur) (Some L_ptable) s = Inr u" "leaving cur u"
        using sleep_ok [OF assms(1,2,3), of "Ch_proc cur"] by blast
      ultimately show ?thesis using assms(4) by simp
    qed
  qed
qed

text \<open>\<^verbatim>\<open>waitx\<close> does to the state exactly what \<^verbatim>\<open>wait\<close> does.\<close>

lemma waitx_iter_wait:
  "waitx_iter cur s = Inr (r, t) \<Longrightarrow> wait_iter cur s = Inr (map_option fst r, t)"
proof -
  assume a: "waitx_iter cur s = Inr (r, t)"
  obtain h z where hz: "wait_scan cur 0 (procs s) False = (h, z)" by fastforce
  show ?thesis
  proof (cases z)
    case (Some i)
    with a hz show ?thesis by (auto simp: waitx_iter_def wait_iter_def Let_def elim!: bindE_InrE)
  next
    case None
    with a hz show ?thesis
      by (auto simp: waitx_iter_def wait_iter_def elim!: bindE_InrE split: if_splits)
  qed
qed

text \<open>What \<^verbatim>\<open>allocproc\<close> writes into the table entry.\<close>

definition embryo :: "u32 \<Rightarrow> u32 \<Rightarrow> proc \<Rightarrow> proc" where
  "embryo pid tk p = p\<lparr>p_state := EMBRYO, p_pid := pid, p_start_time := tk, p_run_time := 0, p_end_time := 0,
     p_priority := 60, p_timeslices := 0, p_age_time := tk, p_cur_timeslices := 0, p_punish := False,
     p_queue := 0, p_ticks := replicate NUM_QUEUES 0, p_num_run := 0\<rparr>"

lemma allocproc_None:
  assumes "L_ptable \<notin> held s" and "scan (\<lambda>p. p_state p = UNUSED) 0 (procs s) = None"
  shows "allocproc s = Inr (None, s)"
  using assms by (simp add: allocproc_def)

lemma allocproc_eq:
  assumes "L_ptable \<notin> held s" and "scan (\<lambda>p. p_state p = UNUSED) 0 (procs s) = Some i"
  shows "allocproc s =
    bindE (kalloc (upd_proc i (embryo (nextpid s) (ticks s)) (s\<lparr>nextpid := nextpid s + 1\<rparr>))) (\<lambda>(k, s).
      if k = 0 then Inr (None, upd_proc i (\<lambda>p. p\<lparr>p_kstack := 0, p_state := UNUSED\<rparr>) s)
      else (let tf = k + KSTACKSIZE - TF_SIZE;
                ctx = tf - 4 - CONTEXT_SIZE;
                s = upd_proc i (\<lambda>p. p\<lparr>p_kstack := k, p_tf := tf, p_context := ctx\<rparr>) s;
                s = store (tf - 4) (trapret_addr s) s;
                s = s\<lparr>mem := memset ctx 0 CONTEXT_SIZE (mem s)\<rparr>
            in Inr (Some i, store (ctx + CONTEXT_EIP) (forkret_addr s) s)))"
proof -
  have "(\<lambda>p. p\<lparr>p_state := EMBRYO, p_pid := nextpid s, p_start_time := ticks s, p_run_time := 0,
      p_end_time := 0, p_priority := 60, p_timeslices := 0, p_age_time := ticks s, p_cur_timeslices := 0,
      p_punish := False, p_queue := 0, p_ticks := replicate NUM_QUEUES 0, p_num_run := 0\<rparr>) =
      embryo (nextpid s) (ticks s)" by (simp add: embryo_def fun_eq_iff)
  moreover have "release L_ptable (upd_proc i f (s\<lparr>held := insert L_ptable (held s), nextpid := n\<rparr>)) =
      Inr (upd_proc i f (s\<lparr>nextpid := n\<rparr>))" for f n
    using assms(1) by (simp add: upd_proc_def)
  ultimately show ?thesis using assms by (simp add: allocproc_def)
qed

lemma allocproc_Some:
  assumes "L_ptable \<notin> held s" and "scan (\<lambda>p. p_state p = UNUSED) 0 (procs s) = Some i"
    and "allocproc s = Inr (r, t)"
  obtains k u where "kalloc (upd_proc i (embryo (nextpid s) (ticks s)) (s\<lparr>nextpid := nextpid s + 1\<rparr>)) = Inr (k, u)"
    "k = 0 \<Longrightarrow> r = None \<and> t = upd_proc i (\<lambda>p. p\<lparr>p_kstack := 0, p_state := UNUSED\<rparr>) u"
    "k \<noteq> 0 \<Longrightarrow> r = Some i \<and> (\<exists>m. t = (upd_proc i (\<lambda>p. p\<lparr>p_kstack := k, p_tf := k + KSTACKSIZE - TF_SIZE,
       p_context := k + KSTACKSIZE - TF_SIZE - 4 - CONTEXT_SIZE\<rparr>) u)\<lparr>mem := m\<rparr>)"
proof -
  note e = allocproc_eq [OF assms(1,2)]
  obtain k u where k: "kalloc (upd_proc i (embryo (nextpid s) (ticks s)) (s\<lparr>nextpid := nextpid s + 1\<rparr>)) = Inr (k, u)"
    using assms(3) unfolding e by auto
  show thesis
    by (rule that [OF k]) (use assms(3) k in \<open>auto simp: e Let_def\<close>)
qed

lemma allocproc_ok:
  assumes "sinv {} {} s" and "L_ptable \<notin> held s" and "allocproc s = Inr (r, t)"
  shows "sinv {} {} t \<and> held t = held s \<and> myproc t = myproc s"
proof (cases "scan (\<lambda>p. p_state p = UNUSED) 0 (procs s)")
  case None
  with allocproc_None [OF assms(2)] assms show ?thesis by auto
next
  case (Some i)
  let ?e = "upd_proc i (embryo (nextpid s) (ticks s)) (s\<lparr>nextpid := nextpid s + 1\<rparr>)"
  have len: "length (procs s) = NPROC" using table_okD(2) sinvD(1) [OF assms(1)] by blast
  have i: "i < NPROC" "p_state (procs s ! i) = UNUSED" using scan_SomeD [OF Some] len by auto
  obtain k u where k: "kalloc ?e = Inr (k, u)"
    "k = 0 \<Longrightarrow> r = None \<and> t = upd_proc i (\<lambda>p. p\<lparr>p_kstack := 0, p_state := UNUSED\<rparr>) u"
    "k \<noteq> 0 \<Longrightarrow> r = Some i \<and> (\<exists>m. t = (upd_proc i (\<lambda>p. p\<lparr>p_kstack := k, p_tf := k + KSTACKSIZE - TF_SIZE,
       p_context := k + KSTACKSIZE - TF_SIZE - 4 - CONTEXT_SIZE\<rparr>) u)\<lparr>mem := m\<rparr>)"
    using allocproc_Some [OF assms(2) Some assms(3)] by metis
  note f = kframeD [OF kalloc_frame [OF k(1)]]
  let ?u = "u\<lparr>procs := procs s\<rparr>"
  have u: "sinv {} {} ?u" using assms(1) f by (subst sinv_cong [where s = s]) simp_all
  have comp: "upd_proc i g u = upd_proc i (g \<circ> embryo (nextpid s) (ticks s)) ?u" for g
    using f(1) i len by (simp add: upd_proc_def)
  have ok: "sinv {} {} (upd_proc i g u)" if "proc_ok (g (embryo (nextpid s) (ticks s) (procs s ! i)))"
      "p_state (g (embryo (nextpid s) (ticks s) (procs s ! i))) \<in> {UNUSED, EMBRYO}" for g
    unfolding comp using u i that by (intro sinv_upd_idle) auto
  show ?thesis
  proof (cases "k = 0")
    case True
    have "sinv {} {} t" unfolding conjunct2 [OF k(2) [OF True]] by (rule ok) (simp_all add: embryo_def proc_ok_def live_def NUM_QUEUES_def)
    moreover have "held t = held s" "myproc t = myproc s" using k(2) [OF True] f by simp_all
    ultimately show ?thesis by blast
  next
    case False
    obtain m where m: "t = (upd_proc i (\<lambda>p. p\<lparr>p_kstack := k, p_tf := k + KSTACKSIZE - TF_SIZE,
       p_context := k + KSTACKSIZE - TF_SIZE - 4 - CONTEXT_SIZE\<rparr>) u)\<lparr>mem := m\<rparr>" using k(3) [OF False] by blast
    have "sinv {} {} (upd_proc i (\<lambda>p. p\<lparr>p_kstack := k, p_tf := k + KSTACKSIZE - TF_SIZE,
       p_context := k + KSTACKSIZE - TF_SIZE - 4 - CONTEXT_SIZE\<rparr>) u)"
      by (rule ok) (use False in \<open>simp_all add: embryo_def proc_ok_def live_def NUM_QUEUES_def\<close>)
    then have "sinv {} {} t" unfolding m by (subst sinv_cong) simp_all
    moreover have "held t = held s" "myproc t = myproc s" unfolding m using f by simp_all
    ultimately show ?thesis by blast
  qed
qed

section \<open>Accounting\<close>

lemma sinv_map_same:
  assumes "sinv X Y s"
    and "\<And>p. p_state (f p) = p_state p \<and> p_queue (f p) = p_queue p \<and> p_kstack (f p) = p_kstack p \<and>
      p_pgdir (f p) = p_pgdir p"
  shows "sinv X Y (s\<lparr>procs := map f (procs s)\<rparr>)"
proof -
  let ?t = "s\<lparr>procs := map f (procs s)\<rparr>"
  have len: "length (procs s) = NPROC" using table_okD(2) sinvD(1) [OF assms(1)] by blast
  have r: "runnables ?t = runnables s" using len assms(2) by (auto simp: runnables_def)
  have "queue_ok X ?t qs" if "queue_ok X s qs" for qs
    using that queue_ok_numbered [OF that len] len assms(2) queue_okD(4) [OF that]
    unfolding queue_ok_def r by (auto simp: qbank_def numbered_def)
  then have "mlfq_ok X ?t" using sinvD(2) [OF assms(1)] by (auto simp: mlfq_ok_def)
  moreover have "cpu_ok Y ?t" using sinvD(3) [OF assms(1)] len assms(2) unfolding cpu_ok_def by auto
  moreover have "proc_ok (f p) = proc_ok p" for p using assms(2) [of p] by (simp add: proc_ok_def live_def)
  then have "table_ok ?t" using sinvD(1) [OF assms(1)] by (simp add: table_ok_def list_all_iff)
  ultimately show ?thesis by (simp add: sinv_def)
qed

lemma inc_runtime_ok:
  assumes "sinv X Y s" and "L_ptable \<notin> held s"
  shows "\<exists>t. inc_runtime s = Inr t \<and> sinv X Y t \<and> held t = held s \<and> myproc t = myproc s"
  using sinv_map_same [of X Y s "\<lambda>p. if p_state p = RUNNING then p\<lparr>p_run_time := p_run_time p + 1\<rparr> else p"] assms
  by (simp add: inc_runtime_def)
    (auto simp: myproc_def intro: sinv_cong [THEN iffD1, rotated -1])

lemma locked_self_ok:
  assumes "sinv X Y s" and "L_ptable \<notin> held s" and "locked_self f s = Inr t"
    and "\<And>p q. f p = Inr q \<Longrightarrow> p_state q = p_state p \<and> p_queue q = p_queue p \<and> p_kstack q = p_kstack p \<and>
      p_pgdir q = p_pgdir p"
  shows "sinv X Y t \<and> held t = held s \<and> myproc t = myproc s"
proof -
  from assms(2,3) obtain i q where i: "myproc s = Some i" "f (procs s ! i) = Inr q"
    "t = upd_proc i (\<lambda>_. q) s"
    by (auto simp: locked_self_def upd_proc_def split: option.splits elim!: bindE_InrE)
  have "sinv X Y (upd_proc i (\<lambda>_. q) s)"
    using assms(1) assms(4) [OF i(2)] table_okD(1) [OF sinvD(1) [OF assms(1)]]
    by (intro sinv_upd_same) (auto simp: proc_ok_def live_def)
  with i show ?thesis by simp
qed

lemma accounting_ok:
  assumes "sinv X Y s" and "L_ptable \<notin> held s"
    and "punisher s = Inr t \<or> inc_timeslice s = Inr t \<or> inc_pinfo_ticks s = Inr t"
  shows "sinv X Y t \<and> held t = held s \<and> myproc t = myproc s"
  using assms(3)
proof (elim disjE)
  assume "punisher s = Inr t"
  then show ?thesis unfolding punisher_def by (rule locked_self_ok [OF assms(1,2)]) auto
next
  assume "inc_timeslice s = Inr t"
  then show ?thesis unfolding inc_timeslice_def by (rule locked_self_ok [OF assms(1,2)]) auto
next
  assume "inc_pinfo_ticks s = Inr t"
  then show ?thesis unfolding inc_pinfo_ticks_def
    by (rule locked_self_ok [OF assms(1,2)]) (auto split: if_splits)
qed

lemma set_priority_ok:
  assumes "sinv {} {} s" and "held s = {}" and "myproc s = Some i" and "set_priority new s = Inr (r, t)"
  shows "(held t = {} \<and> sinv {} {} t \<and> myproc t = Some i) \<or> leaving i t"
proof (cases "new < 0 \<or> new > 100")
  case True
  with assms show ?thesis by (auto simp: set_priority_def)
next
  case False
  let ?old = "p_priority (procs s ! i)"
  let ?f = "\<lambda>p. if new \<noteq> ?old then p\<lparr>p_priority := new, p_timeslices := 0\<rparr> else p\<lparr>p_priority := new\<rparr>"
  let ?s = "upd_proc i ?f s"
  have i: "i < NPROC" "length (procs s) = NPROC"
    using cpu_okD(1) [OF sinvD(3) [OF assms(1)]] assms(3) table_okD(2) [OF sinvD(1) [OF assms(1)]]
    by (auto simp: myproc_def)
  have inv: "sinv {} {} ?s" using assms(1) table_okD(1) [OF sinvD(1) [OF assms(1)]]
    by (intro sinv_upd_same) (auto simp: proc_ok_def live_def)
  have h: "s\<lparr>procs := x, held := {}\<rparr> = s\<lparr>procs := x\<rparr>" for x using assms(2) by (cases s) simp
  have "set_priority new s = (if new \<noteq> ?old then bindE (yield ?s) (\<lambda>s. Inr (?old, s)) else Inr (?old, ?s))"
    using False assms(2,3) i by (simp add: set_priority_def Let_def upd_proc_def h)
  with assms(2-4) inv yield_ok [OF inv, of i] show ?thesis by (auto split: if_splits)
qed

section \<open>The system\<close>

text \<open>The switch from the process that called \<^verbatim>\<open>sched\<close> into its CPU's scheduler loop.\<close>

definition swtch_back :: "'a pstate_scheme \<Rightarrow> kerr + nat option \<times> 'a pstate_scheme" where
  "swtch_back s = (case myproc s of None \<Rightarrow> Inl NullDeref | Some i \<Rightarrow> scheduler_back i s)"

text \<open>After boot and \<^verbatim>\<open>pinit\<close>: no processes, empty queues, idle CPUs.\<close>

definition boot_state :: "'a pstate_scheme \<Rightarrow> bool" where
  "boot_state s \<longleftrightarrow> length (procs s) = NPROC \<and> list_all (\<lambda>p. p_state p = UNUSED \<and> p_queue p = 0) (procs s) \<and>
     cpu_proc s = (\<lambda>_. None) \<and> length (surplus_nodes s) = NPROC \<and> held s = {}"

definition sched_init :: "'a pstate_scheme \<Rightarrow> bool" where
  "sched_init s \<longleftrightarrow> (\<exists>b. boot_state b \<and> pinit b = Inr s)"

text \<open>
  One critical section of one CPU. \<^verbatim>\<open>s_cpu\<close> lets another CPU act, with whatever locks other than
  \<^verbatim>\<open>ptable.lock\<close> it holds. When a step ends in the switch to a process, that process goes on with
  one of the \<^verbatim>\<open>resume\<close> steps: the end of \<^verbatim>\<open>yield\<close> or of \<^verbatim>\<open>forkret\<close>, the end of \<^verbatim>\<open>sleep\<close>, or the loops of
  \<^verbatim>\<open>wait\<close> and \<^verbatim>\<open>waitx\<close>. \<^verbatim>\<open>s_embryo\<close>, \<^verbatim>\<open>s_self\<close> and \<^verbatim>\<open>s_memory\<close> stand for the code in between, which fills
  in a new process, changes the running one (\<^verbatim>\<open>exec\<close>, \<^verbatim>\<open>growproc\<close>, open files) or works on memory; none of it touches the kernel stack of a process in use. That the
  page table is there in \<^verbatim>\<open>s_publish\<close> and \<^verbatim>\<open>s_self\<close> is the test after \<^verbatim>\<open>copyuvm\<close> in \<^verbatim>\<open>fork\<close> and after \<^verbatim>\<open>setupkvm\<close> in \<^verbatim>\<open>userinit\<close> and \<^verbatim>\<open>exec\<close>, behind which alone they are reached.
\<close>

inductive sched_step :: "'a pstate_scheme \<Rightarrow> 'a pstate_scheme \<Rightarrow> bool" where
  s_cpu: "L_ptable \<notin> held s \<Longrightarrow> L_ptable \<notin> H \<Longrightarrow> sched_step s (s\<lparr>cpu_id := c, held := H\<rparr>)"
| s_schedule: "held s = {} \<Longrightarrow> myproc s = None \<Longrightarrow> scheduler s = Inr (r, t) \<Longrightarrow> sched_step s t"
| s_resume: "held s = {L_ptable} \<Longrightarrow> myproc s = Some i \<Longrightarrow> yield_exit s = Inr t \<Longrightarrow> sched_step s t"
| s_resume_sleep: "held s = {L_ptable} \<Longrightarrow> myproc s = Some i \<Longrightarrow> l \<noteq> L_ptable \<Longrightarrow>
    sleep_exit i l s = Inr t \<Longrightarrow> sched_step s t"
| s_resume_wait: "held s = {L_ptable} \<Longrightarrow> myproc s = Some i \<Longrightarrow> wait_resume i s = Inr (Some r, t) \<Longrightarrow>
    sched_step s t"
| s_resume_wait_sleep: "held s = {L_ptable} \<Longrightarrow> myproc s = Some i \<Longrightarrow> wait_resume i s = Inr (None, t) \<Longrightarrow>
    swtch_back t = Inr (q, u) \<Longrightarrow> sched_step s u"
| s_yield: "held s = {} \<Longrightarrow> myproc s = Some i \<Longrightarrow> yield s = Inr t \<Longrightarrow> swtch_back t = Inr (q, u) \<Longrightarrow>
    sched_step s u"
| s_sleep: "held s = {l} \<Longrightarrow> l \<noteq> L_ptable \<Longrightarrow> myproc s = Some i \<Longrightarrow> sleep ch (Some l) s = Inr t \<Longrightarrow>
    swtch_back t = Inr (q, u) \<Longrightarrow> sched_step s u"
| s_exit: "held s = {} \<Longrightarrow> myproc s = Some i \<Longrightarrow> exit_tail i s = Inr t \<Longrightarrow> swtch_back t = Inr (q, u) \<Longrightarrow>
    sched_step s u"
| s_wait: "held s = {} \<Longrightarrow> wait s = Inr (Some r, t) \<Longrightarrow> sched_step s t"
| s_wait_sleep: "held s = {} \<Longrightarrow> wait s = Inr (None, t) \<Longrightarrow> swtch_back t = Inr (q, u) \<Longrightarrow> sched_step s u"
| s_waitx: "held s = {} \<Longrightarrow> waitx s = Inr (Some r, t) \<Longrightarrow> sched_step s t"
| s_waitx_sleep: "held s = {} \<Longrightarrow> waitx s = Inr (None, t) \<Longrightarrow> swtch_back t = Inr (q, u) \<Longrightarrow> sched_step s u"
| s_priority: "held s = {} \<Longrightarrow> myproc s = Some i \<Longrightarrow> set_priority n s = Inr (r, t) \<Longrightarrow> held t = {} \<Longrightarrow>
    sched_step s t"
| s_priority_yield: "held s = {} \<Longrightarrow> myproc s = Some i \<Longrightarrow> set_priority n s = Inr (r, t) \<Longrightarrow>
    held t = {L_ptable} \<Longrightarrow> swtch_back t = Inr (q, u) \<Longrightarrow> sched_step s u"
| s_wakeup: "L_ptable \<notin> held s \<Longrightarrow> wakeup ch s = Inr t \<Longrightarrow> sched_step s t"
| s_kill: "L_ptable \<notin> held s \<Longrightarrow> kill pid s = Inr (r, t) \<Longrightarrow> sched_step s t"
| s_tick: "L_ptable \<notin> held s \<Longrightarrow> sched_step s (s\<lparr>ticks := ticks s + 1\<rparr>)"
| s_runtime: "L_ptable \<notin> held s \<Longrightarrow> inc_runtime s = Inr t \<Longrightarrow> sched_step s t"
| s_account: "L_ptable \<notin> held s \<Longrightarrow> punisher s = Inr t \<or> inc_timeslice s = Inr t \<or> inc_pinfo_ticks s = Inr t \<Longrightarrow>
    sched_step s t"
| s_alloc: "L_ptable \<notin> held s \<Longrightarrow> allocproc s = Inr (r, t) \<Longrightarrow> sched_step s t"
| s_embryo: "L_ptable \<notin> held s \<Longrightarrow> i < NPROC \<Longrightarrow> p_state (procs s ! i) = EMBRYO \<Longrightarrow>
    p_state (f (procs s ! i)) = EMBRYO \<and> p_kstack (f (procs s ! i)) = p_kstack (procs s ! i) \<or> p_state (f (procs s ! i)) = UNUSED \<Longrightarrow>
    p_queue (f (procs s ! i)) = p_queue (procs s ! i) \<Longrightarrow> sched_step s (upd_proc i f s)"
| s_publish: "L_ptable \<notin> held s \<Longrightarrow> i < NPROC \<Longrightarrow> p_state (procs s ! i) = EMBRYO \<Longrightarrow> p_pgdir (procs s ! i) \<noteq> 0 \<Longrightarrow> publish i s = Inr t \<Longrightarrow> sched_step s t"
| s_self: "L_ptable \<notin> held s \<Longrightarrow> myproc s = Some i \<Longrightarrow> p_state (f (procs s ! i)) = p_state (procs s ! i) \<Longrightarrow>
    p_queue (f (procs s ! i)) = p_queue (procs s ! i) \<Longrightarrow> p_kstack (f (procs s ! i)) = p_kstack (procs s ! i) \<Longrightarrow>
    p_pgdir (f (procs s ! i)) \<noteq> 0 \<Longrightarrow> sched_step s (upd_proc i f s)"
| s_memory: "kframe s t \<Longrightarrow> sched_step s t"

lemma swtch_back_ok:
  assumes "leaving i t"
  shows "\<exists>r u. swtch_back t = Inr (r, u) \<and> scheduled (t\<lparr>held := {}\<rparr>) r u"
  using scheduler_back_ok [OF assms] assms by (auto simp: swtch_back_def leaving_def)

lemma swtch_back_inv: "leaving i t \<Longrightarrow> swtch_back t = Inr (r, u) \<Longrightarrow> sinv {} {} u"
  using swtch_back_ok [of i t] by (auto simp: scheduled_def)

lemma sleep_exit_inv:
  assumes "sinv {} {} s" and "sleep_exit i l s = Inr t"
  shows "sinv {} {} t \<and> (l = L_ptable \<longrightarrow> held t = held s \<and> myproc t = myproc s)"
proof -
  have "sinv {} {} (upd_proc i (\<lambda>p. p\<lparr>p_chan := None\<rparr>) s)"
    using assms(1) table_okD(1) [OF sinvD(1) [OF assms(1)]]
    by (intro sinv_upd_same) (auto simp: proc_ok_def live_def)
  with assms(2) show ?thesis
    by (auto simp: sleep_exit_def Let_def acquire_Inr_iff release_Inr_iff elim!: bindE_InrE split: if_splits)
qed

lemma wait_resume_ok:
  assumes "sinv {} {} s" and "held s = {L_ptable}" and "myproc s = Some i" and "wait_resume i s = Inr (r, t)"
  shows "case r of None \<Rightarrow> leaving i t | Some _ \<Rightarrow> sinv {} {} t"
proof -
  from assms(4) obtain u where u: "sleep_exit i L_ptable s = Inr u" "wait_iter i u = Inr (r, t)"
    by (auto simp: wait_resume_def)
  with sleep_exit_inv [OF assms(1) u(1)] wait_iter_ok [of u i r t] assms(2,3) show ?thesis
    by (auto split: option.splits)
qed

lemma wait_ok:
  assumes "sinv {} {} s" and "held s = {}" and "wait s = Inr (r, t)"
  shows "case r of None \<Rightarrow> \<exists>i. leaving i t | Some _ \<Rightarrow> sinv {} {} t"
proof -
  from assms(2,3) obtain i where i: "myproc s = Some i" "wait_iter i (s\<lparr>held := {L_ptable}\<rparr>) = Inr (r, t)"
    by (auto simp: wait_def split: option.splits)
  have "case r of None \<Rightarrow> leaving i t | Some _ \<Rightarrow> sinv {} {} t \<and> held t = {} \<and> myproc t = myproc (s\<lparr>held := {L_ptable}\<rparr>)"
    by (rule wait_iter_ok [OF _ _ _ i(2)]) (use assms i in simp_all)
  then show ?thesis by (auto split: option.splits)
qed

lemma waitx_wait: "waitx s = Inr (r, t) \<Longrightarrow> wait s = Inr (map_option fst r, t)"
  by (auto simp: waitx_def wait_def waitx_iter_wait elim!: bindE_InrE split: option.splits)

lemma wait_leaves: "sinv {} {} s \<Longrightarrow> held s = {} \<Longrightarrow> wait s = Inr (None, t) \<Longrightarrow> swtch_back t = Inr (q, u) \<Longrightarrow>
  sinv {} {} u"
  using wait_ok [of s None t] swtch_back_inv by simp blast

lemma wait_returns: "sinv {} {} s \<Longrightarrow> held s = {} \<Longrightarrow> wait s = Inr (Some r, t) \<Longrightarrow> sinv {} {} t"
  using wait_ok [of s "Some r" t] by simp

lemma wait_resume_leaves: "sinv {} {} s \<Longrightarrow> held s = {L_ptable} \<Longrightarrow> myproc s = Some i \<Longrightarrow>
  wait_resume i s = Inr (None, t) \<Longrightarrow> swtch_back t = Inr (q, u) \<Longrightarrow> sinv {} {} u"
  using wait_resume_ok [of s i None t] swtch_back_inv by simp blast

lemma wait_resume_returns: "sinv {} {} s \<Longrightarrow> held s = {L_ptable} \<Longrightarrow> myproc s = Some i \<Longrightarrow>
  wait_resume i s = Inr (Some r, t) \<Longrightarrow> sinv {} {} t"
  using wait_resume_ok [of s i "Some r" t] by simp

lemma sched_step_inv:
  assumes "sched_step s t" and inv: "sinv {} {} s"
  shows "sinv {} {} t"
  using assms(1)
proof cases
  case (s_schedule r)
  obtain r' t' where "scheduler s = Inr (r', t')" "scheduled s r' t'"
    using scheduler_ok [OF inv] s_schedule by blast
  with s_schedule show ?thesis by (simp add: scheduled_def)
next
  case (s_yield i t' q)
  then obtain t'' where "yield s = Inr t''" "leaving i t''" using yield_ok [OF inv] by blast
  with s_yield swtch_back_inv show ?thesis by (metis sum.inject(2))
next
  case (s_sleep l i ch t' q)
  then obtain t'' where "sleep ch (Some l) s = Inr t''" "leaving i t''" using sleep_ok [OF inv] by blast
  with s_sleep swtch_back_inv show ?thesis by (metis sum.inject(2))
next
  case (s_exit i t' q)
  then obtain t'' where "exit_tail i s = Inr t''" "leaving i t''" using exit_tail_ok [OF inv] by blast
  with s_exit swtch_back_inv show ?thesis by (metis sum.inject(2))
next
  case (s_waitx r)
  with waitx_wait [of s "Some r" t] show ?thesis by (auto intro: wait_returns [OF inv])
next
  case (s_waitx_sleep t' q)
  with waitx_wait [of s None t'] show ?thesis by (auto intro: wait_leaves [OF inv])
next
  case (s_priority i n r)
  from set_priority_ok [OF inv s_priority(1-3)] s_priority(4) show ?thesis by (simp add: leaving_def)
next
  case (s_priority_yield i n r t' q)
  from set_priority_ok [OF inv s_priority_yield(1-3)] s_priority_yield(4) have "leaving i t'" by simp
  with s_priority_yield(5) show ?thesis by (rule swtch_back_inv [rotated])
next
  case (s_wakeup ch)
  obtain t' where "wakeup ch s = Inr t'" "sinv {} {} t'" using wakeup_ok [OF inv s_wakeup(1)] by blast
  with s_wakeup show ?thesis by simp
next
  case (s_kill pid r)
  obtain r' t' where "kill pid s = Inr (r', t')" "sinv {} {} t'" using kill_ok [OF inv s_kill(1)] by blast
  with s_kill show ?thesis by simp
next
  case s_runtime
  obtain t' where "inc_runtime s = Inr t'" "sinv {} {} t'" using inc_runtime_ok [OF inv s_runtime(1)] by blast
  with s_runtime show ?thesis by simp
next
  case (s_embryo i f)
  with table_okD(1) [OF sinvD(1) [OF inv], of i] inv show ?thesis
    by (auto simp: proc_ok_def live_def intro!: sinv_upd_idle)
next
  case (s_publish i)
  obtain t' where "publish i s = Inr t'" "sinv {} {} t'" using publish_ok [OF inv s_publish(1-4)] by blast
  with s_publish show ?thesis by simp
next
  case (s_self i f)
  have "i < NPROC" using cpu_okD(1) [OF sinvD(3) [OF inv]] s_self by (simp add: myproc_def)
  with s_self table_okD(1) [OF sinvD(1) [OF inv], of i] inv show ?thesis
    by (auto simp: proc_ok_def live_def intro!: sinv_upd_same)
next
  case (s_resume_sleep i l)
  from sleep_exit_inv [OF inv s_resume_sleep(4)] show ?thesis by blast
next
  case s_account
  from accounting_ok [OF inv s_account] show ?thesis by blast
next
  case (s_alloc r)
  from allocproc_ok [OF inv s_alloc] show ?thesis by blast
next
  case s_memory
  with inv show ?thesis by (simp only: sinv_kframe [OF s_memory])
qed (use inv in \<open>auto simp: yield_exit_def release_Inr_iff
  intro: wait_leaves wait_returns wait_resume_leaves wait_resume_returns\<close>)

lemma sched_init_inv: "sched_init s \<Longrightarrow> sinv {} {} s"
proof -
  assume "sched_init s"
  then obtain b where b: "boot_state b" "pinit b = Inr s" by (auto simp: sched_init_def)
  have t: "table_ok b" "cpu_ok {} b" "runnables b = {}"
    using b(1) by (auto simp: boot_state_def table_ok_def cpu_ok_def runnables_def list_all_length
        proc_ok_def live_def NUM_QUEUES_def)
  show ?thesis
  proof (cases "SCHEDULER b = SCHED_MLFQ")
    case False
    with b(2) t show ?thesis by (simp add: pinit_def sinv_def mlfq_ok_def)
  next
    case True
    let ?ns = "map (\<lambda>n. n\<lparr>nd_use := False\<rparr>) (surplus_nodes b)"
    have s: "s = b\<lparr>queues := replicate NUM_QUEUES None, surplus_nodes := ?ns\<rparr>"
      using b True by (auto simp: pinit_def boot_state_def)
    have "qnodes ?ns (replicate NUM_QUEUES None) (replicate NUM_QUEUES [])"
      by (auto simp: qnodes_def)
    then have "qrep ?ns (replicate NUM_QUEUES None) (replicate NUM_QUEUES [])"
      by (rule qrepI) (simp_all add: nprocs_def)
    then have "queue_ok {} s (replicate NUM_QUEUES [])"
      using b(1) t(3) by (auto simp: queue_ok_def s qbank_def boot_state_def runnables_def)
    with t show ?thesis by (auto simp: s sinv_def mlfq_ok_def table_ok_def cpu_ok_def)
  qed
qed

interpretation sched_sys: invariant_system sched_init sched_step "sinv {} {}"
  by unfold_locales (auto intro: sched_init_inv sched_step_inv)

end
