(* ===== verification/Sched_Props.thy ===== *)
theory Sched_Props
  imports Sched_System
begin

text \<open>
  The properties of the process machinery: what holds in every reachable state of the system of
  theory \<open>Sched_System\<close>, which process each policy runs, and what waking, killing, exiting and
  waiting do to the table.
\<close>

section \<open>A run to look at\<close>

definition blank_proc :: proc where
  "blank_proc = \<lparr>p_sz = 0, p_pgdir = 0, p_kstack = 0, p_state = UNUSED, p_pid = 0, p_parent = None, p_tf = 0,
     p_context = 0, p_chan = None, p_killed = False, p_ofile = replicate NOFILE None, p_cwd = None,
     p_name = replicate 16 0, p_start_time = 0, p_end_time = 0, p_run_time = 0, p_priority = 0, p_timeslices = 0,
     p_age_time = 0, p_cur_timeslices = 0, p_queue = 0, p_punish = False, p_num_run = 0,
     p_ticks = replicate NUM_QUEUES 0\<rparr>"

definition boot_example :: "sched_kind \<Rightarrow> pstate" where
  "boot_example k = \<lparr>mem = (\<lambda>_. 0), held = {}, cpu_id = 0, cr3 = 0, esp0 = 0, use_lock = False,
     freelist = 0x80400000, kend = 0x80115000, kpgdir = 0, kdata = 0x80108000, SCHEDULER = k,
     forkret_addr = 0x80103000, trapret_addr = 0x80105000, ticks = 0, procs = replicate NPROC blank_proc,
     initproc = None, nextpid = 1, queues = replicate NUM_QUEUES None,
     surplus_nodes = replicate NPROC \<lparr>nd_next = None, nd_p = None, nd_use = False\<rparr>, cpu_proc = (\<lambda>_. None)\<rparr>"

lemma boot_example_init: "sched_init (boot_example k)"
proof -
  have b: "boot_state (boot_example k)"
    by (simp add: boot_state_def boot_example_def list_all_length blank_proc_def)
  have "pinit (boot_example k) = Inr (boot_example k)"
    by (cases k) (simp_all add: pinit_def boot_example_def)
  with b show ?thesis unfolding sched_init_def by blast
qed

lemma scan_replicate: "0 < n \<Longrightarrow> P x \<Longrightarrow> scan P i (replicate n x) = Some i"
  by (cases n) simp_all

text \<open>The first process is created and put into the table by CPU 0.\<close>

lemma example_runnable:
  "\<exists>s :: pstate. reach sched_init sched_step s \<and> SCHEDULER s = k \<and> held s = {} \<and> cpu_proc s = (\<lambda>_. None) \<and>
     0 \<in> runnables s \<and> p_pid (procs s ! 0) = 1 \<and> p_priority (procs s ! 0) = 60"
proof -
  let ?b = "boot_example k"
  have sc: "scan (\<lambda>p. p_state p = UNUSED) 0 (procs ?b) = Some 0"
    by (simp add: boot_example_def scan_replicate blank_proc_def NPROC_def)
  let ?e = "upd_proc 0 (embryo (nextpid ?b) (ticks ?b)) (?b\<lparr>nextpid := nextpid ?b + 1\<rparr>)"
  have ka: "kalloc ?e = Inr (0x80400000, ?e\<lparr>freelist := load32 0x80400000 (mem ?b)\<rparr>)"
    by (simp add: kalloc_eq kmem_ok_def boot_example_def upd_proc_def)
  have hb: "L_ptable \<notin> held ?b" by (simp add: boot_example_def)
  obtain r t where a: "allocproc ?b = Inr (r, t)"
    unfolding allocproc_eq [OF hb sc] ka by (simp add: Let_def)
  obtain m where t: "t = (upd_proc 0 (\<lambda>p. p\<lparr>p_kstack := 0x80400000, p_tf := 0x80400000 + KSTACKSIZE - TF_SIZE,
       p_context := 0x80400000 + KSTACKSIZE - TF_SIZE - 4 - CONTEXT_SIZE\<rparr>)
       (?e\<lparr>freelist := load32 0x80400000 (mem ?b)\<rparr>))\<lparr>mem := m\<rparr>"
    by (rule allocproc_Some [OF hb sc a]) (use ka in auto)
  have r0: "reach sched_init sched_step ?b" by (rule reach_init) (rule boot_example_init)
  have rt: "reach sched_init sched_step t" by (rule reach_step [OF r0], rule s_alloc [OF hb a])
  have p0: "procs t ! 0 = (embryo 1 0 blank_proc)\<lparr>p_kstack := 0x80400000, p_tf := 0x80400000 + KSTACKSIZE - TF_SIZE,
       p_context := 0x80400000 + KSTACKSIZE - TF_SIZE - 4 - CONTEXT_SIZE\<rparr>"
    and len: "length (procs t) = NPROC" and ht: "held t = {}" "cpu_proc t = (\<lambda>_. None)" "SCHEDULER t = k"
    unfolding t by (simp_all add: boot_example_def NPROC_def)
  let ?u = "upd_proc 0 (\<lambda>p. p\<lparr>p_pgdir := 0x80401000\<rparr>) t"
  have ru: "reach sched_init sched_step ?u"
    by (rule reach_step [OF rt], rule s_embryo) (simp_all add: ht p0 embryo_def NPROC_def)
  have pu: "procs ?u ! 0 = (procs t ! 0)\<lparr>p_pgdir := 0x80401000\<rparr>" using len by (simp add: NPROC_def)
  have ok: "L_ptable \<notin> held ?u" "0 < NPROC" "p_state (procs ?u ! 0) = EMBRYO" "p_pgdir (procs ?u ! 0) \<noteq> 0"
    unfolding pu p0 by (simp_all add: ht embryo_def NPROC_def)
  obtain v where v: "publish 0 ?u = Inr v" "held v = held ?u"
    "procs v = (procs ?u)[0 := (procs ?u ! 0)\<lparr>p_state := RUNNABLE\<rparr>]"
    using publish_ok [OF sched_sys.reach_inv [OF ru] ok] by blast
  have rv: "reach sched_init sched_step v" by (rule reach_step [OF ru], rule s_publish [OF ok v(1)])
  have cv: "cpu_proc v = cpu_proc ?u" "SCHEDULER v = SCHEDULER ?u"
    using v(1) ht(1) by (auto simp: publish_def Let_def enqueue_def release_Inr_iff elim!: bindE_InrE split: if_splits)
  have "procs v ! 0 = (procs t ! 0)\<lparr>p_pgdir := 0x80401000, p_state := RUNNABLE\<rparr>"
    using v(3) len by (simp add: NPROC_def)
  then have "0 \<in> runnables v" "p_pid (procs v ! 0) = 1" "p_priority (procs v ! 0) = 60"
    by (simp_all add: runnables_def NPROC_def p0 embryo_def)
  with rv cv ht v(2) show ?thesis by auto
qed

lemma mlfq_work_conserving:
  assumes "sinv {} {} s" and "L_ptable \<notin> held s" and "myproc s = None" and "SCHEDULER s = SCHED_MLFQ"
    and "scheduler s = Inr (r, t)"
  shows "r = None \<longleftrightarrow> runnables s = {}"
proof -
  obtain qs where qs: "queue_ok {} s qs" using sinvD(2) [OF assms(1)] assms(4) by (auto simp: mlfq_ok_def)
  obtain ps' qs' where a: "age_all (ticks s) (procs s, qs) = (ps', qs')" by fastforce
  have r: "r = first_head qs'" using scheduler_mlfq_ok [OF assms(1-4) qs a] assms(4,5) by (auto simp: scheduler_def)
  have ms: "mset (concat qs') = mset (concat qs)"
    using age_all_mset [OF qs _ a] table_okD(2) [OF sinvD(1) [OF assms(1)]] by blast
  have "r = None \<longleftrightarrow> concat qs' = []" unfolding r first_head_None by (induction qs') auto
  also have "\<dots> \<longleftrightarrow> mset (concat qs) = {#}" unfolding ms [symmetric] by simp
  also have "\<dots> \<longleftrightarrow> set (concat qs) = {}" by (metis set_empty mset_zero_iff)
  also have "\<dots> \<longleftrightarrow> runnables s = {}" using queue_okD(3) [OF qs] by simp
  finally show ?thesis .
qed

lemma rr_work_conserving:
  assumes "sinv {} {} s" and "L_ptable \<notin> held s" and "myproc s = None" and "SCHEDULER s = SCHED_RR"
    and "scheduler s = Inr (r, t)"
  shows "r = None \<longleftrightarrow> runnables s = {}"
proof -
  let ?s = "s\<lparr>held := insert L_ptable (held s)\<rparr>"
  have i: "sinv {} {} ?s" "held ?s = insert L_ptable (held s)" "myproc ?s = None" "SCHEDULER ?s \<noteq> SCHED_MLFQ"
    using assms by simp_all
  have "r = rr_select 0 (procs s)"
    using scheduler_rr_from_ok [OF i(1,2) assms(2) i(3,4), of 0] assms(2,4,5)
    by (auto simp: scheduler_def scheduler_rr_def)
  then show ?thesis
    using table_okD(2) [OF sinvD(1) [OF assms(1)]] by (auto simp: rr_select_None runnables_def)
qed

text \<open>\<dots> and the scheduler of CPU 0 runs it.\<close>

lemma example_running:
  "\<exists>(s :: pstate) i. reach sched_init sched_step s \<and> SCHEDULER s = SCHED_MLFQ \<and> held s = {} \<and> myproc s = Some i"
proof -
  obtain s :: pstate where s: "reach sched_init sched_step s" "SCHEDULER s = SCHED_MLFQ" "held s = {}"
    "cpu_proc s = (\<lambda>_. None)" "0 \<in> runnables s" using example_runnable [of SCHED_MLFQ] by blast
  note inv = sched_sys.reach_inv [OF s(1)]
  have m: "L_ptable \<notin> held s" "myproc s = None" using s by (simp_all add: myproc_def)
  obtain j t where t: "scheduler s = Inr (j, t)" "scheduled s j t" using scheduler_ok [OF inv m] by blast
  have "j \<noteq> None" using mlfq_work_conserving [OF inv m s(2) t(1)] s(5) by blast
  then obtain i where i: "j = Some i" by blast
  have rt: "reach sched_init sched_step t"
    by (rule reach_step [OF s(1)], rule s_schedule [OF s(3) m(2) t(1)])
  have ht: "held t = {L_ptable}" "myproc t = Some i" "SCHEDULER t = SCHED_MLFQ"
    using t(2) s(2,3) i by (simp_all add: scheduled_def)
  have "reach sched_init sched_step (t\<lparr>held := {}\<rparr>)"
    by (rule reach_step [OF rt], rule s_resume [OF ht(1,2)]) (simp add: yield_exit_def ht(1))
  with ht show ?thesis by (intro exI [of _ "t\<lparr>held := {}\<rparr>"] exI [of _ i]) simp
qed

section \<open>Reachable states\<close>

text \<open>
  C7: No process runs on two CPUs, and the processes in state RUNNING are exactly those
  that are some CPU's current process, in every state the system can reach, whatever the scheduler.
\<close>

theorem one_cpu_per_process:
  assumes "reach sched_init sched_step s"
  shows "(cpu_proc s c = Some p \<longrightarrow> cpu_proc s d = Some p \<longrightarrow> c = d) \<and>
    (p < NPROC \<longrightarrow> (p_state (procs s ! p) = RUNNING \<longleftrightarrow> (\<exists>c. cpu_proc s c = Some p)))"
  using cpu_okD [OF sinvD(3) [OF sched_sys.reach_inv [OF assms]]] by blast

theorem one_cpu_per_process_witness:
  "\<exists>(s :: pstate) i. reach sched_init sched_step s \<and> cpu_proc s (cpu_id s) = Some i \<and>
     cpu_proc s (Suc (cpu_id s)) \<noteq> Some i"
proof -
  obtain s :: pstate and i where s: "reach sched_init sched_step s" "myproc s = Some i" using example_running by blast
  then have "cpu_proc s (cpu_id s) = Some i" by (simp add: myproc_def)
  with s one_cpu_per_process [OF s(1), of "cpu_id s" i "Suc (cpu_id s)"] show ?thesis by force
qed

text \<open>
  C3: Under MLFQ the linked queues hold exactly the RUNNABLE processes, each in one node of
  one queue, and in the queue that its field queue names.
\<close>

theorem mlfq_queues_exact:
  assumes "reach sched_init sched_step s" and "SCHEDULER s = SCHED_MLFQ"
  shows "\<exists>qs. qbank s qs \<and> distinct (concat qs) \<and>
    set (concat qs) = {i. i < NPROC \<and> p_state (procs s ! i) = RUNNABLE} \<and>
    (\<forall>k < NUM_QUEUES. \<forall>p \<in> set (qs ! k). p_queue (procs s ! p) = int k)"
  using sinvD(2) [OF sched_sys.reach_inv [OF assms(1)]] assms(2)
  unfolding mlfq_ok_def queue_ok_def runnables_def by simp

theorem mlfq_queues_exact_witness:
  "\<exists>(s :: pstate) qs. reach sched_init sched_step s \<and> qbank s qs \<and> 0 \<in> set (concat qs)"
proof -
  obtain s :: pstate where s: "reach sched_init sched_step s" "SCHEDULER s = SCHED_MLFQ" "0 \<in> runnables s"
    using example_runnable [of SCHED_MLFQ] by blast
  from mlfq_queues_exact [OF s(1,2)] obtain qs where "qbank s qs"
    "set (concat qs) = {i. i < NPROC \<and> p_state (procs s ! i) = RUNNABLE}" by blast
  with s(1,3) show ?thesis by (intro exI [of _ s] exI [of _ qs]) (simp add: runnables_def del: set_concat)
qed

text \<open>
  C10: The scheduling code never fails in a reachable state: waking and killing succeed,
  an idle CPU completes an iteration of the scheduler, and a running process that yields or sleeps
  reaches the scheduler, which completes its iteration. In particular the queues never run out of nodes, no
  queue walk runs for ever and no panic of sched or switchuvm is reached.
\<close>

theorem scheduling_never_fails:
  assumes "reach sched_init sched_step s" and "L_ptable \<notin> held s"
  shows "(\<exists>t. wakeup ch s = Inr t) \<and> (\<exists>r t. kill pid s = Inr (r, t)) \<and>
    (myproc s = None \<longrightarrow> (\<exists>r t. scheduler s = Inr (r, t))) \<and>
    (myproc s = Some i \<longrightarrow> held s = {} \<longrightarrow> (\<exists>t r u. yield s = Inr t \<and> swtch_back t = Inr (r, u))) \<and>
    (myproc s = Some i \<longrightarrow> held s = {l} \<longrightarrow> (\<exists>t r u. sleep c (Some l) s = Inr t \<and> swtch_back t = Inr (r, u)))"
proof -
  note inv = sched_sys.reach_inv [OF assms(1)]
  have y: "\<exists>t r u. yield s = Inr t \<and> swtch_back t = Inr (r, u)" if "myproc s = Some i" "held s = {}"
    using yield_ok [OF inv that(2,1)] swtch_back_ok by metis
  have z: "\<exists>t r u. sleep c (Some l) s = Inr t \<and> swtch_back t = Inr (r, u)" if "myproc s = Some i" "held s = {l}"
    using sleep_ok [OF inv that(2,1), of c] swtch_back_ok by metis
  have w: "\<exists>t. wakeup ch s = Inr t" using wakeup_ok [OF inv assms(2)] by blast
  have k: "\<exists>r t. kill pid s = Inr (r, t)" using kill_ok [OF inv assms(2)] by blast
  have n: "\<exists>r t. scheduler s = Inr (r, t)" if "myproc s = None" using scheduler_ok [OF inv assms(2) that] by blast
  from y z w k n show ?thesis by blast
qed

theorem scheduling_never_fails_witness:
  "\<exists>(s :: pstate) i t r u. reach sched_init sched_step s \<and> myproc s = Some i \<and> yield s = Inr t \<and> swtch_back t = Inr (r, u)"
proof -
  obtain s :: pstate and i where s: "reach sched_init sched_step s" "held s = {}" "myproc s = Some i"
    using example_running by blast
  with scheduling_never_fails [OF s(1), of "Some Ch_ticks" 0 i L_log Ch_log] show ?thesis by simp blast
qed

section \<open>Which process runs\<close>

text \<open>
  C11: MLFQ runs the head of the first queue that is not empty, after aging has moved
  the overdue processes at the front of each queue to the end of the queue above; the abstract
  queues with the functional operations first_head and age_all are the specification that
  the linked nodes implement.
\<close>

theorem mlfq_runs_first_head:
  assumes "reach sched_init sched_step s" and "SCHEDULER s = SCHED_MLFQ"
    and "L_ptable \<notin> held s" and "myproc s = None"
  shows "\<exists>qs r t. qbank s qs \<and> scheduler s = Inr (r, t) \<and>
    r = first_head (snd (age_all (ticks s) (procs s, qs))) \<and> (r = None \<longleftrightarrow> runnables s = {})"
proof -
  note inv = sched_sys.reach_inv [OF assms(1)]
  obtain qs where qs: "queue_ok {} s qs" using sinvD(2) [OF inv] assms(2) by (auto simp: mlfq_ok_def)
  obtain ps' qs' where a: "age_all (ticks s) (procs s, qs) = (ps', qs')" by fastforce
  obtain r t where t: "scheduler_mlfq s = Inr (r, t)" "r = first_head qs'"
    using scheduler_mlfq_ok [OF inv assms(3,4,2) qs a] by blast
  then have "scheduler s = Inr (r, t)" using assms(2) by (simp add: scheduler_def)
  with mlfq_work_conserving [OF inv assms(3,4,2) this] t(2) a queue_okD(1) [OF qs] show ?thesis
    by (metis snd_conv)
qed

theorem mlfq_runs_first_head_witness:
  "\<exists>(s :: pstate) i t. reach sched_init sched_step s \<and> 0 \<in> runnables s \<and> scheduler s = Inr (Some i, t)"
proof -
  obtain s :: pstate where s: "reach sched_init sched_step s" "SCHEDULER s = SCHED_MLFQ" "held s = {}"
    "cpu_proc s = (\<lambda>_. None)" "0 \<in> runnables s" using example_runnable [of SCHED_MLFQ] by blast
  then have "L_ptable \<notin> held s" "myproc s = None" by (simp_all add: myproc_def)
  from mlfq_runs_first_head [OF s(1,2) this] s(1,5) show ?thesis by (metis empty_iff option.exhaust)
qed

text \<open>
  C19: FCFS runs the RUNNABLE process with the least creation time, the first one in the
  table if there are several; it finds none only if no RUNNABLE process was created before
  ticks + 100.
\<close>

theorem fcfs_runs_oldest:
  "(fcfs_select tk ps = Some j \<longleftrightarrow> j < length ps \<and> p_state (ps ! j) = RUNNABLE \<and>
      sint (p_start_time (ps ! j)) < sint (tk + 100) \<and>
      (\<forall>k < length ps. p_state (ps ! k) = RUNNABLE \<longrightarrow>
         sint (p_start_time (ps ! j)) \<le> sint (p_start_time (ps ! k)) \<and>
         (k < j \<longrightarrow> sint (p_start_time (ps ! j)) < sint (p_start_time (ps ! k))))) \<and>
   (fcfs_select tk ps = None \<longleftrightarrow>
      (\<forall>p \<in> set ps. p_state p = RUNNABLE \<longrightarrow> sint (tk + 100) \<le> sint (p_start_time p)))"
  by (auto simp: fcfs_select_def fcfs_loop_min_loop min_loop_iff min_loop_None_iff first_least_def)

definition example_table :: "proc list" where
  "example_table =
    [blank_proc\<lparr>p_state := RUNNABLE, p_start_time := 7, p_priority := 60, p_timeslices := 4\<rparr>,
     blank_proc\<lparr>p_state := SLEEPING, p_start_time := 1, p_priority := 10, p_timeslices := 0\<rparr>,
     blank_proc\<lparr>p_state := RUNNABLE, p_start_time := 3, p_priority := 60, p_timeslices := 2\<rparr>,
     blank_proc\<lparr>p_state := RUNNABLE, p_start_time := 3, p_priority := 70, p_timeslices := 0\<rparr>]"

theorem fcfs_runs_oldest_witness: "fcfs_select 20 example_table = Some 2"
  using fcfs_runs_oldest [of 20 example_table 2]
  by (simp add: example_table_def All_less_Suc2 numeral_eq_Suc)

text \<open>
  C20: PBS runs the RUNNABLE process with the least priority value, among these one
  with the fewest time slices, and of these the first in the table; with priorities at most 100
  it finds one whenever there is a RUNNABLE process.
\<close>

theorem pbs_runs_best:
  assumes "\<And>p. p \<in> set ps \<Longrightarrow> p_priority p \<le> 100"
  shows "(pbs_select tk ps = Some j \<longleftrightarrow> j < length ps \<and> p_state (ps ! j) = RUNNABLE \<and>
      (\<forall>k < length ps. p_state (ps ! k) = RUNNABLE \<longrightarrow>
         p_priority (ps ! j) < p_priority (ps ! k) \<or>
         p_priority (ps ! j) = p_priority (ps ! k) \<and>
         (sint (p_timeslices (ps ! j)) < sint (p_timeslices (ps ! k)) \<or>
          sint (p_timeslices (ps ! j)) = sint (p_timeslices (ps ! k)) \<and> j \<le> k))) \<and>
   (pbs_select tk ps = None \<longleftrightarrow> (\<forall>p \<in> set ps. p_state p \<noteq> RUNNABLE))"
proof -
  have b: "p_priority (ps ! k) \<le> 100" if "k < length ps" for k using assms that by simp
  have "pbs_select tk ps = Some j \<longleftrightarrow> first_least (\<lambda>p. p_state p = RUNNABLE)
      (\<lambda>p. (p_priority p, sint (p_timeslices p))) (101, sint (tk + 100)) ps j"
    by (simp add: pbs_select_def pbs_loop_min_loop min_loop_iff)
  moreover have "\<dots> \<longleftrightarrow> j < length ps \<and> p_state (ps ! j) = RUNNABLE \<and>
      (\<forall>k < length ps. p_state (ps ! k) = RUNNABLE \<longrightarrow>
         p_priority (ps ! j) < p_priority (ps ! k) \<or>
         p_priority (ps ! j) = p_priority (ps ! k) \<and>
         (sint (p_timeslices (ps ! j)) < sint (p_timeslices (ps ! k)) \<or>
          sint (p_timeslices (ps ! j)) = sint (p_timeslices (ps ! k)) \<and> j \<le> k))"
    using b by (fastforce simp: first_least_def less_prod_simp less_eq_prod_simp not_less)
  moreover have "pbs_select tk ps = None \<longleftrightarrow> (\<forall>p \<in> set ps. p_state p \<noteq> RUNNABLE)"
    using assms by (fastforce simp: pbs_select_def pbs_loop_min_loop min_loop_None_iff less_eq_prod_simp)
  ultimately show ?thesis by blast
qed

theorem pbs_runs_best_witness: "pbs_select 20 example_table = Some 2"
proof -
  have "\<And>p. p \<in> set example_table \<Longrightarrow> p_priority p \<le> 100" by (auto simp: example_table_def)
  from pbs_runs_best [where ps = example_table and tk = 20 and j = 2, OF this] show ?thesis
    by (simp add: example_table_def All_less_Suc2 numeral_eq_Suc)
qed

section \<open>Waking, killing, exiting\<close>

text \<open>A process that sleeps on a channel, with no other process ready.\<close>

lemma example_sleeping:
  "\<exists>(s :: pstate) i. reach sched_init sched_step s \<and> SCHEDULER s = SCHED_MLFQ \<and> held s = {} \<and> i < NPROC \<and>
     sleeps_on (Some Ch_ticks) (procs s ! i)"
proof -
  obtain s :: pstate and i where s: "reach sched_init sched_step s" "SCHEDULER s = SCHED_MLFQ" "held s = {}" "myproc s = Some i"
    using example_running by blast
  let ?s = "s\<lparr>cpu_id := cpu_id s, held := {L_tickslock}\<rparr>"
  have r: "reach sched_init sched_step ?s" by (rule reach_step [OF s(1)], rule s_cpu) (simp_all add: s(3))
  have m: "held ?s = {L_tickslock}" "L_tickslock \<noteq> L_ptable" "myproc ?s = Some i" using s(4) by (simp_all add: myproc_def)
  obtain t where t: "sleep Ch_ticks (Some L_tickslock) ?s = Inr t" "leaving i t"
    "t = upd_proc i (\<lambda>p. p\<lparr>p_chan := Some Ch_ticks, p_state := SLEEPING\<rparr>) (?s\<lparr>held := {L_ptable}\<rparr>)"
    using sleep_ok [OF sched_sys.reach_inv [OF r] m(1,3)] by blast
  have i: "i < length (procs s)"
    using cpu_okD(1) [OF sinvD(3) [OF sched_sys.reach_inv [OF s(1)]]] table_okD(2) [OF sinvD(1) [OF sched_sys.reach_inv [OF s(1)]]] s(4)
    by (auto simp: myproc_def)
  let ?u = "(set_myproc None (switchkvm t))\<lparr>held := {}\<rparr>"
  have f: "myproc t = Some i" "SCHEDULER t = SCHED_MLFQ" "held t = {L_ptable}" "p_state (procs t ! i) = SLEEPING" "p_chan (procs t ! i) = Some Ch_ticks"
    unfolding t(3) using s i m(3) by (simp_all add: myproc_def)
  have u: "swtch_back t = Inr (None, ?u)"
    using f by (simp add: swtch_back_def scheduler_back_def mlfq_requeue_def release_none_def switchkvm_def)
  have "reach sched_init sched_step ?u" by (rule reach_step [OF r], rule s_sleep [OF m t(1) u])
  then show ?thesis
    using f i table_okD(2) [OF sinvD(1) [OF sched_sys.reach_inv [OF s(1)]]]
    by (intro exI [of _ ?u] exI [of _ i]) (simp add: switchkvm_def sleeps_on_def)
qed

text \<open>
  C17: A wakeup makes exactly the processes that sleep on the channel runnable and leaves every other process as it
  was. Under MLFQ every one of them joins the end of the queue that its field names, in the order of the table, and the queues do not
  change otherwise; under the other schedulers they do not change at all. Nothing else of the state changes.
\<close>

theorem wakeup_exact:
  assumes "reach sched_init sched_step s" and "L_ptable \<notin> held s"
  shows "\<exists>t. wakeup ch s = Inr t \<and>
    t = s\<lparr>procs := procs t, queues := queues t, surplus_nodes := surplus_nodes t\<rparr> \<and>
    procs t = map (\<lambda>p. if p_state p = SLEEPING \<and> p_chan p = ch then
       (if SCHEDULER s = SCHED_MLFQ
        then p\<lparr>p_state := RUNNABLE, p_cur_timeslices := 0, p_age_time := ticks s\<rparr>
        else p\<lparr>p_state := RUNNABLE\<rparr>) else p) (procs s) \<and>
    (if SCHEDULER s = SCHED_MLFQ
     then \<exists>qs. qbank s qs \<and> qbank t (map (\<lambda>k. qs ! k @ filter (\<lambda>i. p_state (procs s ! i) = SLEEPING \<and> p_chan (procs s ! i) = ch \<and>
       p_queue (procs s ! i) = int k) [0..<NPROC]) [0..<NUM_QUEUES])
     else queues t = queues s \<and> surplus_nodes t = surplus_nodes s)"
proof -
  note inv = sched_sys.reach_inv [OF assms(1)]
  obtain t where t: "wakeup ch s = Inr t" "pframe s t" "procs t = map (\<lambda>p. if sleeps_on ch p then woken s p else p) (procs s)"
    using wakeup_ok [OF inv assms(2)] by blast
  note q = wakeup_queues [OF inv assms(2) t(1)]
  have "\<exists>qs. qbank s qs \<and> qbank t (map (\<lambda>k. qs ! k @ sleepers ch k NPROC s) [0..<NUM_QUEUES])" if "SCHEDULER s = SCHED_MLFQ"
    using sinvD(2) [OF inv] q(1) [OF that] that unfolding mlfq_ok_def queue_ok_def by blast
  then show ?thesis
    using t q(2) unfolding pframe_def sleeps_on_def woken_def sleepers_def by (intro exI [of _ t]) simp
qed

theorem wakeup_exact_witness:
  "\<exists>(s :: pstate) t i qs. wakeup (Some Ch_ticks) s = Inr t \<and> p_state (procs s ! i) = SLEEPING \<and> p_state (procs t ! i) = RUNNABLE \<and>
     qbank t qs \<and> i \<in> set (qs ! nat (p_queue (procs s ! i)))"
proof -
  obtain s :: pstate and i where s: "reach sched_init sched_step s" "SCHEDULER s = SCHED_MLFQ" "held s = {}" "i < NPROC"
    "sleeps_on (Some Ch_ticks) (procs s ! i)" using example_sleeping by blast
  have ok: "length (procs s) = NPROC" "0 \<le> p_queue (procs s ! i)" "nat (p_queue (procs s ! i)) < NUM_QUEUES"
    using table_okD(2) [OF sinvD(1) [OF sched_sys.reach_inv [OF s(1)]]] table_okD(1) [OF sinvD(1) [OF sched_sys.reach_inv [OF s(1)]] s(4)]
    by (auto simp: proc_ok_def)
  have "L_ptable \<notin> held s" using s(3) by simp
  then obtain t qs where t: "wakeup (Some Ch_ticks) s = Inr t"
    "procs t = map (\<lambda>p. if p_state p = SLEEPING \<and> p_chan p = Some Ch_ticks then
       (if SCHEDULER s = SCHED_MLFQ
        then p\<lparr>p_state := RUNNABLE, p_cur_timeslices := 0, p_age_time := ticks s\<rparr>
        else p\<lparr>p_state := RUNNABLE\<rparr>) else p) (procs s)"
    "qbank t (map (\<lambda>k. qs ! k @ filter (\<lambda>i. p_state (procs s ! i) = SLEEPING \<and> p_chan (procs s ! i) = Some Ch_ticks \<and>
       p_queue (procs s ! i) = int k) [0..<NPROC]) [0..<NUM_QUEUES])"
    using wakeup_exact [OF s(1), of "Some Ch_ticks"] s(2) by (simp only: simp_thms if_True) blast
  have "p_state (procs s ! i) = SLEEPING" "p_state (procs t ! i) = RUNNABLE" using s(2,4,5) ok(1) by (simp_all add: t(2) sleeps_on_def)
  moreover have "i \<in> set (map (\<lambda>k. qs ! k @ filter (\<lambda>i. p_state (procs s ! i) = SLEEPING \<and> p_chan (procs s ! i) = Some Ch_ticks \<and>
      p_queue (procs s ! i) = int k) [0..<NPROC]) [0..<NUM_QUEUES] ! nat (p_queue (procs s ! i)))"
    using s(4,5) ok by (simp add: sleeps_on_def)
  ultimately show ?thesis using t(1,3) by blast
qed

text \<open>
  C18: A process that exits becomes a zombie, its children and no others pass to
  init, and the CPU comes back to the scheduler, which goes on without failing.
\<close>

theorem exit_gives_up_children:
  assumes "reach sched_init sched_step s" and "held s = {}" and "myproc s = Some cur"
  shows "\<exists>t q u. exit_tail cur s = Inr t \<and> p_state (procs t ! cur) = ZOMBIE \<and>
    (\<forall>j < NPROC. p_parent (procs t ! j) =
       (if p_parent (procs s ! j) = Some cur then initproc s else p_parent (procs s ! j))) \<and>
    swtch_back t = Inr (q, u) \<and> q \<noteq> Some cur"
proof -
  obtain t where t: "exit_tail cur s = Inr t" "leaving cur t" "p_state (procs t ! cur) = ZOMBIE"
    "\<forall>j < NPROC. p_parent (procs t ! j) =
       (if p_parent (procs s ! j) = Some cur then initproc s else p_parent (procs s ! j))"
    using exit_tail_ok [OF sched_sys.reach_inv [OF assms(1)] assms(2,3)] by blast
  obtain q u where u: "swtch_back t = Inr (q, u)" "scheduled (t\<lparr>held := {}\<rparr>) q u"
    using swtch_back_ok [OF t(2)] by blast
  have "q \<noteq> Some cur" using u(2) t(3) by (auto simp: scheduled_def runnables_def)
  with t u(1) show ?thesis by blast
qed

theorem exit_gives_up_children_witness:
  "\<exists>(s :: pstate) cur t. myproc s = Some cur \<and> exit_tail cur s = Inr t \<and> p_state (procs t ! cur) = ZOMBIE"
proof -
  obtain s :: pstate and i where "reach sched_init sched_step s" "held s = {}" "myproc s = Some i"
    using example_running by blast
  with exit_gives_up_children [of s i] show ?thesis by blast
qed

text \<open>
  C37: A kill with the pid that a free table entry carries (0, as a process that was
  waited for leaves it and as boot leaves it) reports success and marks the free entry, and the process
  created next in that entry starts out killed.
\<close>

theorem kill_hits_free_entry:
  assumes "reach sched_init sched_step s" and "L_ptable \<notin> held s"
    and "scan (\<lambda>p. p_pid p = pid) 0 (procs s) = Some i"
    and "scan (\<lambda>p. p_state p = UNUSED) 0 (procs s) = Some i"
    and "kill pid s = Inr (r, t)" and "allocproc t = Inr (Some j, u)"
  shows "r = 0 \<and> j = i \<and> p_state (procs u ! i) = EMBRYO \<and> p_killed (procs u ! i)"
proof -
  have i: "i < length (procs s)" "p_state (procs s ! i) = UNUSED" using scan_SomeD [OF assms(4)] by auto
  have t: "r = 0" "procs t = (procs s)[i := (procs s ! i)\<lparr>p_killed := True\<rparr>]" "pframe s t"
    using kill_ok [OF sched_sys.reach_inv [OF assms(1)] assms(2), of pid] assms(3,5) i by auto
  have sc: "scan (\<lambda>p. p_state p = UNUSED) 0 (procs t) = Some i"
    using assms(4) i unfolding t(2) scan_Some_iff by (auto simp: nth_upd)
  have h: "L_ptable \<notin> held t" using assms(2) pframeD [OF t(3)] by simp
  show ?thesis
  proof (rule allocproc_Some [OF h sc assms(6)])
    fix k v
    assume k: "kalloc (upd_proc i (embryo (nextpid t) (ticks t)) (t\<lparr>nextpid := nextpid t + 1\<rparr>)) = Inr (k, v)"
      "k = 0 \<Longrightarrow> Some j = None \<and> u = upd_proc i (\<lambda>p. p\<lparr>p_kstack := 0, p_state := UNUSED\<rparr>) v"
      "k \<noteq> 0 \<Longrightarrow> Some j = Some i \<and> (\<exists>m. u = (upd_proc i (\<lambda>p. p\<lparr>p_kstack := k, p_tf := k + KSTACKSIZE - TF_SIZE,
         p_context := k + KSTACKSIZE - TF_SIZE - 4 - CONTEXT_SIZE\<rparr>) v)\<lparr>mem := m\<rparr>)"
    then have "k \<noteq> 0" by blast
    moreover have "procs v = (procs t)[i := embryo (nextpid t) (ticks t) (procs t ! i)]"
      using kframeD(1) [OF kalloc_frame [OF k(1)]] by simp
    ultimately show ?thesis using k(3) t i(1) by (auto simp: embryo_def)
  qed
qed

theorem kill_hits_free_entry_witness:
  "\<exists>t u. kill 0 (boot_example SCHED_RR) = Inr (0, t) \<and> allocproc t = Inr (Some 0, u) \<and> p_killed (procs u ! 0)"
proof -
  let ?b = "boot_example SCHED_RR"
  let ?t = "upd_proc 0 (\<lambda>p. p\<lparr>p_killed := True\<rparr>) ?b"
  have r: "reach sched_init sched_step ?b" by (rule reach_init) (rule boot_example_init)
  have h: "L_ptable \<notin> held ?b" "L_ptable \<notin> held ?t" "procs ?b = replicate NPROC blank_proc"
    by (simp_all add: boot_example_def)
  have sc: "scan (\<lambda>p. p_pid p = 0) 0 (procs ?b) = Some 0" "scan (\<lambda>p. p_state p = UNUSED) 0 (procs ?b) = Some 0"
    by (simp_all add: h(3) scan_replicate blank_proc_def NPROC_def)
  have sc': "scan (\<lambda>p. p_state p = UNUSED) 0 (procs ?t) = Some 0"
    by (simp add: scan_Some_iff h(3) nth_upd NPROC_def blank_proc_def)
  have k: "kill 0 ?b = Inr (0, ?t)"
    using sc(1) by (simp add: kill_def h(3) upd_proc_def boot_example_def NPROC_def blank_proc_def)
  have "\<exists>u. allocproc ?t = Inr (Some 0, u)"
    unfolding allocproc_eq [OF h(2) sc']
    by (simp add: kalloc_eq kmem_ok_def boot_example_def upd_proc_def Let_def)
  then obtain u where u: "allocproc ?t = Inr (Some 0, u)" by blast
  from kill_hits_free_entry [OF r h(1) sc k u] k u show ?thesis by blast
qed



end
