(* ===== verification/Sleeplock.thy ===== *)
theory Sleeplock
  imports Sched_System
begin

text \<open>
  Sleep locks (\<^verbatim>\<open>sleeplock.c\<close>): locks held across disk operations, for which a process gives up
  its CPU. The code is given a pointer to the lock; here it is a reference that reads and writes
  the lock in the state, with the spin lock inside it and the channel its waiters sleep on. One pass
  of the loop of \<^verbatim>\<open>acquiresleep\<close> takes the lock or ends in the switch to the scheduler; the file system
  above uses \<open>acquiresleep\<close>, a run of which that has to wait stops with \<^const>\<open>Blocked\<close>.
\<close>

record sleeplock =
  sl_locked :: bool
  sl_pid :: u32

record 's slref =
  sl_get :: "'s \<Rightarrow> sleeplock"
  sl_set :: "sleeplock \<Rightarrow> 's \<Rightarrow> 's"
  sl_spin :: lock
  sl_chan :: chan

definition initsleeplock :: "'s slref \<Rightarrow> 's \<Rightarrow> 's" where
  "initsleeplock r = sl_set r \<lparr>sl_locked = False, sl_pid = 0\<rparr>"

definition acquiresleep_iter ::
  "'a pstate_scheme slref \<Rightarrow> 'a pstate_scheme \<Rightarrow> kerr + bool \<times> 'a pstate_scheme" where
  "acquiresleep_iter r s =
     (if sl_locked (sl_get r s) then
        bindE (sleep (sl_chan r) (Some (sl_spin r)) s) (\<lambda>s. Inr (False, s))
      else case myproc s of
             None \<Rightarrow> Inl NullDeref
           | Some i \<Rightarrow>
               bindE (release (sl_spin r) (sl_set r \<lparr>sl_locked = True, sl_pid = p_pid (procs s ! i)\<rparr> s)) (\<lambda>s.
                 Inr (True, s)))"

definition acquiresleep_enter ::
  "'a pstate_scheme slref \<Rightarrow> 'a pstate_scheme \<Rightarrow> kerr + bool \<times> 'a pstate_scheme" where
  "acquiresleep_enter r s = bindE (acquire (sl_spin r) s) (acquiresleep_iter r)"

definition acquiresleep_resume ::
  "'a pstate_scheme slref \<Rightarrow> nat \<Rightarrow> 'a pstate_scheme \<Rightarrow> kerr + bool \<times> 'a pstate_scheme" where
  "acquiresleep_resume r i s = bindE (sleep_exit i (sl_spin r) s) (acquiresleep_iter r)"

definition acquiresleep :: "'a pstate_scheme slref \<Rightarrow> 'a pstate_scheme \<Rightarrow> kerr + 'a pstate_scheme" where
  "acquiresleep r s =
     bindE (acquiresleep_enter r s) (\<lambda>(got, s). if got then Inr s else Inl (Blocked (sl_chan r)))"

definition releasesleep :: "'a pstate_scheme slref \<Rightarrow> 'a pstate_scheme \<Rightarrow> kerr + 'a pstate_scheme" where
  "releasesleep r s =
     bindE (acquire (sl_spin r) s) (\<lambda>s.
     bindE (wakeup (Some (sl_chan r)) (sl_set r \<lparr>sl_locked = False, sl_pid = 0\<rparr> s))
       (release (sl_spin r)))"

definition holdingsleep :: "'a pstate_scheme slref \<Rightarrow> 'a pstate_scheme \<Rightarrow> kerr + bool \<times> 'a pstate_scheme" where
  "holdingsleep r s =
     bindE (acquire (sl_spin r) s) (\<lambda>s.
     bindE (if sl_locked (sl_get r s) then
              (case myproc s of
                 None \<Rightarrow> Inl NullDeref
               | Some i \<Rightarrow> Inr (sl_pid (sl_get r s) = p_pid (procs s ! i)))
            else Inr False) (\<lambda>h.
     bindE (release (sl_spin r) s) (\<lambda>s. Inr (h, s))))"

section \<open>In the context of a process\<close>

text \<open>
  File system code runs in a process that holds no spin lock. Its pid is what the locks
  record.
\<close>

definition in_proc :: "'a pstate_scheme \<Rightarrow> bool" where
  "in_proc s \<longleftrightarrow> held s = {} \<and> sinv {} {} s \<and> myproc s \<noteq> None"

definition mypid :: "'a pstate_scheme \<Rightarrow> u32" where
  "mypid s = (case myproc s of None \<Rightarrow> 0 | Some i \<Rightarrow> p_pid (procs s ! i))"

text \<open>
  Waking others changes only their states and the queues: what remains of a state when these are
  left out.
\<close>

definition pcore :: "proc \<Rightarrow> proc" where
  "pcore p = p\<lparr>p_state := UNUSED, p_cur_timeslices := 0, p_age_time := 0\<rparr>"

definition quiet :: "'a pstate_scheme \<Rightarrow> 'a pstate_scheme" where
  "quiet s = s\<lparr>procs := map pcore (procs s), queues := [], surplus_nodes := []\<rparr>"

lemma quiet_frame: "quiet t = quiet s \<Longrightarrow>
    t = s\<lparr>procs := procs t, queues := queues t, surplus_nodes := surplus_nodes t\<rparr>"
  unfolding quiet_def by (cases s, cases t) simp

lemma quiet_pframe: "pframe s t \<Longrightarrow> map pcore (procs t) = map pcore (procs s) \<Longrightarrow> quiet t = quiet s"
  unfolding pframe_def quiet_def by (cases s, cases t) simp

lemma quietD:
  assumes "quiet t = quiet s"
  shows "held t = held s" "cpu_proc t = cpu_proc s" "cpu_id t = cpu_id s" "myproc t = myproc s" "mem t = mem s"
    "ticks t = ticks s" "SCHEDULER t = SCHEDULER s" "map pcore (procs t) = map pcore (procs s)"
proof -
  show "held t = held s" "cpu_proc t = cpu_proc s" "cpu_id t = cpu_id s" "myproc t = myproc s" "mem t = mem s"
    "ticks t = ticks s" "SCHEDULER t = SCHEDULER s"
    by (subst quiet_frame [OF assms], simp add: myproc_def)+
  have "procs (quiet t) = procs (quiet s)" using assms by simp
  then show "map pcore (procs t) = map pcore (procs s)" by (simp add: quiet_def)
qed

lemma quiet_held: "quiet t = quiet (s\<lparr>held := h\<rparr>) \<Longrightarrow> quiet (t\<lparr>held := h'\<rparr>) = quiet (s\<lparr>held := h'\<rparr>)"
  unfolding quiet_def by (cases s, cases t) simp

lemma mypid_quiet:
  assumes "quiet t = quiet s" and "sinv {} {} s"
  shows "mypid t = mypid s"
proof (cases "myproc s")
  case None
  then show ?thesis using quietD(4) [OF assms(1)] by (simp add: mypid_def)
next
  case (Some i)
  note c = quietD(8) [OF assms(1)]
  have len: "length (procs t) = length (procs s)" using c by (metis length_map)
  have "i < length (procs s)"
    using cpu_okD(1) [OF sinvD(3) [OF assms(2)]] table_okD(2) [OF sinvD(1) [OF assms(2)]] Some
    by (auto simp: myproc_def)
  with c len have "pcore (procs t ! i) = pcore (procs s ! i)" by (metis nth_map)
  then have "p_pid (procs t ! i) = p_pid (procs s ! i)"
    by (cases "procs t ! i", cases "procs s ! i") (simp add: pcore_def)
  with Some quietD(4) [OF assms(1)] show ?thesis by (simp add: mypid_def)
qed

lemma wakeup_in_proc:
  assumes "sinv {} {} s" and "L_ptable \<notin> held s"
  shows "\<exists>t. wakeup ch s = Inr t \<and> quiet t = quiet s \<and> sinv {} {} t"
proof -
  obtain t where t: "wakeup ch s = Inr t" "sinv {} {} t" "pframe s t"
    "procs t = map (\<lambda>p. if sleeps_on ch p then woken s p else p) (procs s)"
    using wakeup_ok [OF assms(1,2), of ch] by blast
  have "map pcore (procs t) = map pcore (procs s)" by (simp add: t(4) woken_def pcore_def)
  with t quiet_pframe show ?thesis by blast
qed

section \<open>The operations on a lock in the state\<close>

text \<open>
  What a reference must satisfy: reading and writing do not depend on the spin locks held, writing changes no
  process, no queue and no spin lock, and the spin lock inside is not the one of the process table.
\<close>

locale sleeplock_ref =
  fixes r :: "'a pstate_scheme slref"
  assumes get_held: "sl_get r (s\<lparr>held := h\<rparr>) = sl_get r s"
    and set_held: "sl_set r l (s\<lparr>held := h\<rparr>) = (sl_set r l s)\<lparr>held := h\<rparr>"
    and set_frame: "held (sl_set r l s) = held s" "procs (sl_set r l s) = procs s" "queues (sl_set r l s) = queues s"
      "surplus_nodes (sl_set r l s) = surplus_nodes s" "cpu_proc (sl_set r l s) = cpu_proc s"
      "cpu_id (sl_set r l s) = cpu_id s" "SCHEDULER (sl_set r l s) = SCHEDULER s"
    and spin: "sl_spin r \<noteq> L_ptable"
begin

lemma sinv_set: "sinv X Y (sl_set r l s) \<longleftrightarrow> sinv X Y s"
  by (rule sinv_cong) (simp_all add: set_frame)

lemma myproc_set: "myproc (sl_set r l s) = myproc s" "mypid (sl_set r l s) = mypid s"
  by (simp_all add: myproc_def mypid_def set_frame split: option.split)

lemma in_proc_set: "in_proc (sl_set r l s) \<longleftrightarrow> in_proc s"
  by (simp add: in_proc_def sinv_set myproc_set set_frame)

lemma acquiresleep_free:
  assumes "in_proc s" and "\<not> sl_locked (sl_get r s)"
  shows "acquiresleep r s = Inr (sl_set r \<lparr>sl_locked = True, sl_pid = mypid s\<rparr> s)"
proof -
  obtain i where i: "myproc s = Some i" "held s = {}" using assms(1) by (auto simp: in_proc_def)
  have "sl_set r l s = (sl_set r l s)\<lparr>held := {}\<rparr>" for l
    using i(2) set_frame(1) [of l s] by simp
  with i assms(2) show ?thesis
    by (simp add: acquiresleep_def acquiresleep_enter_def acquiresleep_iter_def get_held set_held set_frame mypid_def)
qed

lemma acquiresleep_taken:
  assumes "in_proc s" and "sl_locked (sl_get r s)"
  shows "acquiresleep r s = Inl (Blocked (sl_chan r))"
proof -
  let ?s = "s\<lparr>held := {sl_spin r}\<rparr>"
  obtain i where i: "myproc s = Some i" "held s = {}" "sinv {} {} s" using assms(1) by (auto simp: in_proc_def)
  have "\<exists>t. sleep (sl_chan r) (Some (sl_spin r)) ?s = Inr t"
    using sleep_ok [of ?s "sl_spin r" i "sl_chan r"] i spin by auto
  with i assms(2) show ?thesis
    by (auto simp: acquiresleep_def acquiresleep_enter_def acquiresleep_iter_def get_held)
qed

lemma holdingsleep_eq:
  assumes "in_proc s"
  shows "holdingsleep r s = Inr (sl_locked (sl_get r s) \<and> sl_pid (sl_get r s) = mypid s, s)"
proof -
  obtain i where i: "myproc s = Some i" "held s = {}" using assms(1) by (auto simp: in_proc_def)
  then have "s\<lparr>held := {}\<rparr> = s" by simp
  with i show ?thesis by (simp add: holdingsleep_def get_held mypid_def)
qed

lemma releasesleep_ok:
  assumes "in_proc s"
  shows "\<exists>t. releasesleep r s = Inr t \<and> quiet t = quiet (sl_set r \<lparr>sl_locked = False, sl_pid = 0\<rparr> s) \<and> in_proc t"
proof -
  let ?u = "sl_set r \<lparr>sl_locked = False, sl_pid = 0\<rparr> s"
  let ?s = "?u\<lparr>held := {sl_spin r}\<rparr>"
  have s: "held s = {}" "sinv {} {} s" "myproc s \<noteq> None" using assms by (auto simp: in_proc_def)
  have "\<exists>t. wakeup (Some (sl_chan r)) ?s = Inr t \<and> quiet t = quiet ?s \<and> sinv {} {} t"
    by (rule wakeup_in_proc) (use s spin in \<open>simp_all add: sinv_set\<close>)
  then obtain t where t: "wakeup (Some (sl_chan r)) ?s = Inr t" "quiet t = quiet ?s" "sinv {} {} t" by blast
  have h: "held t = {sl_spin r}" "myproc t = myproc s" using quietD [OF t(2)] by (simp_all add: myproc_set)
  have "quiet (t\<lparr>held := {}\<rparr>) = quiet (?u\<lparr>held := {}\<rparr>)" by (rule quiet_held [OF t(2)])
  moreover have "?u\<lparr>held := {}\<rparr> = ?u" using s(1) set_frame(1) [of _ s] by simp
  moreover have "in_proc (t\<lparr>held := {}\<rparr>)" using t(3) h s(3) by (simp add: in_proc_def)
  moreover have "releasesleep r s = Inr (t\<lparr>held := {}\<rparr>)"
    using s(1) t(1) h(1) by (simp add: releasesleep_def set_held)
  ultimately show ?thesis by simp
qed

end

end
