(* ===== verification/Ring_List.thy ===== *)
theory Ring_List
  imports Xv6_Prelude
begin

text \<open>
  Circular doubly linked lists with a head node, as the buffer cache keeps its buffers. The links are two
  functions on nodes; \<open>ring\<close> relates them to the list of nodes after the head, and the
  lemmas say what searching, unlinking and linking at the front do to that list.
\<close>

fun path :: "('n \<Rightarrow> 'n) \<Rightarrow> 'n \<Rightarrow> 'n list \<Rightarrow> 'n \<Rightarrow> bool" where
  "path f a [] b \<longleftrightarrow> f a = b"
| "path f a (x # xs) b \<longleftrightarrow> f a = x \<and> path f x xs b"

lemma path_append: "path f a (xs @ y # ys) b \<longleftrightarrow> path f a xs y \<and> path f y ys b"
  by (induction xs arbitrary: a) auto

lemma path_upd: "u \<notin> set (a # xs) \<Longrightarrow> path (f(u := v)) a xs b \<longleftrightarrow> path f a xs b"
  by (induction xs arbitrary: a) auto

lemma path_upd_last: "path f a xs b \<Longrightarrow> distinct (a # xs) \<Longrightarrow> path (f(last (a # xs) := c)) a xs c"
  by (induction xs arbitrary: a) (auto split: if_splits)

lemma path_last: "path f a xs b \<Longrightarrow> f (last (a # xs)) = b"
  by (induction xs arbitrary: a) auto

lemma path_first: "path f a xs b \<Longrightarrow> f a = hd (xs @ [b])"
  by (cases xs) auto

definition ring :: "('n \<Rightarrow> 'n) \<Rightarrow> ('n \<Rightarrow> 'n) \<Rightarrow> 'n \<Rightarrow> 'n list \<Rightarrow> bool" where
  "ring nx pv h xs \<longleftrightarrow> distinct (h # xs) \<and> path nx h xs h \<and> path pv h (rev xs) h"

lemma ring_empty: "ring (nx(h := h)) (pv(h := h)) h []"
  by (simp add: ring_def)

lemma ring_nodes:
  assumes "ring nx pv h (ys @ b # zs)"
  shows "nx b = hd (zs @ [h])" "pv b = last (h # ys)"
proof -
  have "path nx b zs h" "path pv b (rev ys) h"
    using assms by (auto simp: ring_def path_append)
  then show "nx b = hd (zs @ [h])" "pv b = last (h # ys)"
    using path_first [of nx b zs h] path_first [of pv b "rev ys" h] by (auto simp: hd_append hd_rev)
qed

text \<open>\<^verbatim>\<open>b->next->prev = b->prev; b->prev->next = b->next\<close>\<close>

lemma ring_unlink:
  assumes "ring nx pv h (ys @ b # zs)"
  shows "ring (nx(pv b := nx b)) (pv(nx b := pv b)) h (ys @ zs)"
proof -
  note n = ring_nodes [OF assms]
  have d: "distinct (h # ys @ b # zs)" and p: "path nx h ys b" "path nx b zs h" "path pv h (rev zs) b" "path pv b (rev ys) h"
    using assms by (auto simp: ring_def path_append)
  have nx: "path (nx(last (h # ys) := hd (zs @ [h]))) h (ys @ zs) h"
  proof (cases zs)
    case Nil
    then show ?thesis using path_upd_last [OF p(1), of h] d by simp
  next
    case (Cons z zs')
    have "path (nx(last (h # ys) := z)) h ys z" using path_upd_last [OF p(1), of z] d by simp
    moreover have "last (h # ys) \<notin> set (z # zs')" using d Cons by (auto dest: last_in_set split: if_splits)
    then have "path (nx(last (h # ys) := z)) z zs' h" using p(2) Cons by (simp add: path_upd)
    ultimately show ?thesis using Cons by (simp add: path_append)
  qed
  have "path (pv(last (h # rev zs) := hd (rev ys @ [h]))) h (rev zs @ rev ys) h"
  proof (cases "rev ys")
    case Nil
    then show ?thesis using path_upd_last [OF p(3), of h] d by simp
  next
    case (Cons y ys')
    have "path (pv(last (h # rev zs) := y)) h (rev zs) y" using path_upd_last [OF p(3), of y] d by simp
    moreover have "set (y # ys') = set ys" using Cons by (metis set_rev)
    then have "last (h # rev zs) \<notin> set (y # ys')"
      using d last_in_set [of "h # rev zs"] by auto
    then have "path (pv(last (h # rev zs) := y)) y ys' h" using p(4) Cons by (simp add: path_upd)
    ultimately show ?thesis using Cons by (simp add: path_append)
  qed
  moreover have "last (h # rev zs) = hd (zs @ [h])" "hd (rev ys @ [h]) = last (h # ys)"
    by (cases zs, auto simp: last_rev hd_append hd_rev)
  ultimately show ?thesis using nx d n by (simp add: ring_def)
qed

text \<open>\<^verbatim>\<open>b->next = head.next; b->prev = &head; head.next->prev = b; head.next = b\<close>\<close>

lemma ring_link:
  assumes "ring nx pv h xs" and "b \<noteq> h" "b \<notin> set xs"
  shows "ring (nx(b := nx h, h := b)) (pv(b := h, nx h := b)) h (b # xs)"
proof -
  have d: "distinct (h # xs)" and p: "path nx h xs h" "path pv h (rev xs) h" using assms(1) by (auto simp: ring_def)
  have nh: "nx h = hd (xs @ [h])" using path_first [OF p(1)] .
  have "path (nx(b := nx h, h := b)) h (b # xs) h"
  proof (cases xs)
    case Nil
    then show ?thesis using assms nh by simp
  next
    case (Cons x xs')
    have "path (nx(b := nx h, h := b)) x xs' h"
      using p(1) Cons assms d by (subst path_upd, simp, subst path_upd) auto
    then show ?thesis using assms Cons nh by simp
  qed
  moreover have "path (pv(b := h, nx h := b)) h (rev xs @ [b]) h"
  proof -
    have "path (pv(b := h)) h (rev xs) h" using p(2) assms by (simp add: path_upd)
    from path_upd_last [OF this, of b] have "path (pv(b := h, last (h # rev xs) := b)) h (rev xs) b" using d by simp
    moreover have "last (h # rev xs) = nx h" using nh by (cases xs) auto
    moreover have "nx h \<noteq> b" using nh assms by (cases xs) auto
    ultimately show ?thesis by (simp add: path_append)
  qed
  ultimately show ?thesis using d assms by (simp add: ring_def)
qed

section \<open>Searching\<close>

text \<open>
  \<^verbatim>\<open>for(b = head.next; b != &head; b = b->next) if(P(b)) ...\<close>; the outer \<open>None\<close> is a search that
  never ends.
\<close>

partial_function (option) ring_find :: "('n \<Rightarrow> 'n) \<Rightarrow> ('n \<Rightarrow> bool) \<Rightarrow> 'n \<Rightarrow> 'n \<Rightarrow> 'n option option" where
  "ring_find f P h b =
     (if b = h then Some None else if P b then Some (Some b) else ring_find f P h (f b))"

declare ring_find.simps [code]

lemma ring_find_path:
  assumes "path f a xs h" and "h \<notin> set xs"
  shows "ring_find f P h (f a) = Some (List.find P xs)"
  using assms
proof (induction xs arbitrary: a)
  case Nil
  then show ?case by (simp add: ring_find.simps)
next
  case (Cons x xs)
  then show ?case by (subst ring_find.simps) auto
qed

lemma ring_find_next: "ring nx pv h xs \<Longrightarrow> ring_find nx P h (nx h) = Some (List.find P xs)"
  and ring_find_prev: "ring nx pv h xs \<Longrightarrow> ring_find pv P h (pv h) = Some (List.find P (rev xs))"
  by (auto simp: ring_def intro!: ring_find_path)

lemma find_SomeD: "List.find P xs = Some x \<Longrightarrow> x \<in> set xs \<and> P x"
  by (auto simp: find_Some_iff)

lemma find_NoneD: "List.find P xs = None \<Longrightarrow> x \<in> set xs \<Longrightarrow> \<not> P x"
  by (auto simp: find_None_iff)

end
