(* ===== verification/Bio.thy ===== *)
theory Bio
  imports Sleeplock Ring_List
begin

text \<open>
  The buffer cache (\<^verbatim>\<open>bio.c\<close>, \<^verbatim>\<open>buf.h\<close>) over the in-memory disk (\<^verbatim>\<open>memide.c\<close>). A pointer to a buffer
  is its index in \<^verbatim>\<open>bcache.buf\<close>; the list head is the entry after the last buffer. The bits \<^verbatim>\<open>B_VALID\<close> and
  \<^verbatim>\<open>B_DIRTY\<close> of \<^verbatim>\<open>flags\<close> are two truth values. \<open>memdisk\<close> is the disk by blocks, and \<open>dwrites\<close>, which no code
  reads, collects the block writes the disk has made, in their order: a crash leaves
  the disk as some prefix of them made it.
\<close>

definition BSIZE :: nat where "BSIZE = 512"

record buf =
  b_valid :: bool
  b_dirty :: bool
  b_dev :: u32
  b_blockno :: u32
  b_lock :: sleeplock
  b_refcnt :: u32
  b_prev :: nat
  b_next :: nat
  b_data :: "u8 list"

record bstate = pstate +
  bufs :: "buf list"
  memdisk :: "u8 list list"
  disksize :: u32
  dwrites :: "(u32 \<times> u8 list) list"

abbreviation HEAD :: nat where "HEAD \<equiv> NBUF"

definition upd_buf :: "nat \<Rightarrow> (buf \<Rightarrow> buf) \<Rightarrow> 'a bstate_scheme \<Rightarrow> 'a bstate_scheme" where
  "upd_buf i f s = s\<lparr>bufs := (bufs s)[i := f (bufs s ! i)]\<rparr>"

definition buf_lk :: "nat \<Rightarrow> 'a bstate_scheme slref" where
  "buf_lk i = \<lparr>sl_get = (\<lambda>s. b_lock (bufs s ! i)), sl_set = (\<lambda>l. upd_buf i (\<lambda>b. b\<lparr>b_lock := l\<rparr>)),
     sl_spin = L_buf_lk i, sl_chan = Ch_buf_lock i\<rparr>"

section \<open>The disk (memide.c)\<close>

text \<open>The image that the linker includes in the kernel, cut into blocks.\<close>

definition ideinit :: "u8 list \<Rightarrow> 'a bstate_scheme \<Rightarrow> 'a bstate_scheme" where
  "ideinit img s =
     s\<lparr>memdisk := map (\<lambda>k. take BSIZE (drop (k * BSIZE) img)) [0..<length img div BSIZE],
       disksize := of_nat (length img div BSIZE)\<rparr>"

definition ideintr :: "'a bstate_scheme \<Rightarrow> 'a bstate_scheme" where
  "ideintr s = s"

definition iderw :: "nat \<Rightarrow> 'a bstate_scheme \<Rightarrow> kerr + 'a bstate_scheme" where
  "iderw i s =
     bindE (holdingsleep (buf_lk i) s) (\<lambda>(h, s).
       let b = bufs s ! i; n = unat (b_blockno b) in
       if \<not> h then Inl (Panic ''iderw: buf not locked'')
       else if b_valid b \<and> \<not> b_dirty b then Inl (Panic ''iderw: nothing to do'')
       else if b_dev b \<noteq> 1 then Inl (Panic ''iderw: request not for disk 1'')
       else if b_blockno b \<ge> disksize s then Inl (Panic ''iderw: block out of range'')
       else if b_dirty b then
         Inr (upd_buf i (\<lambda>b. b\<lparr>b_dirty := False, b_valid := True\<rparr>)
               (s\<lparr>memdisk := (memdisk s)[n := b_data b], dwrites := dwrites s @ [(b_blockno b, b_data b)]\<rparr>))
       else Inr (upd_buf i (\<lambda>b. b\<lparr>b_data := memdisk s ! n, b_valid := True\<rparr>) s))"

section \<open>The cache (bio.c)\<close>

text \<open>A buffer becomes the most recently used one.\<close>

definition lru_link :: "nat \<Rightarrow> 'a bstate_scheme \<Rightarrow> 'a bstate_scheme" where
  "lru_link i s =
     (let s = upd_buf i (\<lambda>b. b\<lparr>b_next := b_next (bufs s ! HEAD)\<rparr>) s;
          s = upd_buf i (\<lambda>b. b\<lparr>b_prev := HEAD\<rparr>) s;
          s = upd_buf (b_next (bufs s ! HEAD)) (\<lambda>b. b\<lparr>b_prev := i\<rparr>) s
      in upd_buf HEAD (\<lambda>b. b\<lparr>b_next := i\<rparr>) s)"

definition lru_unlink :: "nat \<Rightarrow> 'a bstate_scheme \<Rightarrow> 'a bstate_scheme" where
  "lru_unlink i s =
     (let s = upd_buf (b_next (bufs s ! i)) (\<lambda>b. b\<lparr>b_prev := b_prev (bufs s ! i)\<rparr>) s
      in upd_buf (b_prev (bufs s ! i)) (\<lambda>b. b\<lparr>b_next := b_next (bufs s ! i)\<rparr>) s)"

definition binit :: "'a bstate_scheme \<Rightarrow> 'a bstate_scheme" where
  "binit s =
     (let s = upd_buf HEAD (\<lambda>b. b\<lparr>b_prev := HEAD, b_next := HEAD\<rparr>) s
      in fold (\<lambda>i s. lru_link i (initsleeplock (buf_lk i) s)) [0..<NBUF] s)"

definition bget :: "u32 \<Rightarrow> u32 \<Rightarrow> 'a bstate_scheme \<Rightarrow> kerr + nat \<times> 'a bstate_scheme" where
  "bget dev blockno s =
     bindE (acquire L_bcache s) (\<lambda>s.
       case ring_find (\<lambda>i. b_next (bufs s ! i)) (\<lambda>i. b_dev (bufs s ! i) = dev \<and> b_blockno (bufs s ! i) = blockno)
              HEAD (b_next (bufs s ! HEAD)) of
         None \<Rightarrow> Inl Loops
       | Some (Some i) \<Rightarrow>
           bindE (release L_bcache (upd_buf i (\<lambda>b. b\<lparr>b_refcnt := b_refcnt b + 1\<rparr>) s)) (\<lambda>s.
           bindE (acquiresleep (buf_lk i) s) (\<lambda>s. Inr (i, s)))
       | Some None \<Rightarrow>
          (case ring_find (\<lambda>i. b_prev (bufs s ! i)) (\<lambda>i. b_refcnt (bufs s ! i) = 0 \<and> \<not> b_dirty (bufs s ! i))
                  HEAD (b_prev (bufs s ! HEAD)) of
             None \<Rightarrow> Inl Loops
           | Some None \<Rightarrow> Inl (Panic ''bget: no buffers'')
           | Some (Some i) \<Rightarrow>
               bindE (release L_bcache (upd_buf i (\<lambda>b. b\<lparr>b_dev := dev, b_blockno := blockno,
                   b_valid := False, b_dirty := False, b_refcnt := 1\<rparr>) s)) (\<lambda>s.
               bindE (acquiresleep (buf_lk i) s) (\<lambda>s. Inr (i, s)))))"

definition bread :: "u32 \<Rightarrow> u32 \<Rightarrow> 'a bstate_scheme \<Rightarrow> kerr + nat \<times> 'a bstate_scheme" where
  "bread dev blockno s =
     bindE (bget dev blockno s) (\<lambda>(i, s).
     bindE (if \<not> b_valid (bufs s ! i) then iderw i s else Inr s) (\<lambda>s. Inr (i, s)))"

definition bwrite :: "nat \<Rightarrow> 'a bstate_scheme \<Rightarrow> kerr + 'a bstate_scheme" where
  "bwrite i s =
     bindE (holdingsleep (buf_lk i) s) (\<lambda>(h, s).
       if \<not> h then Inl (Panic ''bwrite'') else iderw i (upd_buf i (\<lambda>b. b\<lparr>b_dirty := True\<rparr>) s))"

definition brelse :: "nat \<Rightarrow> 'a bstate_scheme \<Rightarrow> kerr + 'a bstate_scheme" where
  "brelse i s =
     bindE (holdingsleep (buf_lk i) s) (\<lambda>(h, s).
       if \<not> h then Inl (Panic ''brelse'')
       else
         bindE (releasesleep (buf_lk i) s) (\<lambda>s.
         bindE (acquire L_bcache s) (\<lambda>s.
           let s = upd_buf i (\<lambda>b. b\<lparr>b_refcnt := b_refcnt b - 1\<rparr>) s;
               s = (if b_refcnt (bufs s ! i) = 0 then lru_link i (lru_unlink i s) else s)
           in release L_bcache s)))"

end
