(* ===== verification/Block_Store.thy ===== *)
theory Block_Store
  imports Xv6_Prelude
begin

text \<open>
  What the file system relies on when it uses the buffer cache. A store shows its clients, for every block, the content
  they read and the content on disk; the blocks a client holds; the blocks pinned until the log has written them;
  the writes made to the disk; and everything else in the state. The operations act on this view as the abstract
  operations below say, and fail in no case the laws admit. The lemmas are those of the log: copying one
  block over another on disk, and rewriting a block.
\<close>

record 'r bview =
  v_cur :: "u32 \<Rightarrow> u8 list"
  v_dsk :: "u32 \<Rightarrow> u8 list"
  v_held :: "u32 set"
  v_pin :: "u32 set"
  v_hist :: "(u32 \<times> u8 list) list"
  v_rest :: 'r

definition a_read :: "u32 \<Rightarrow> 'r bview \<Rightarrow> 'r bview" where
  "a_read b v = v\<lparr>v_held := insert b (v_held v)\<rparr>"

definition a_put :: "u32 \<Rightarrow> u8 list \<Rightarrow> 'r bview \<Rightarrow> 'r bview" where
  "a_put b d v = v\<lparr>v_cur := (v_cur v)(b := d)\<rparr>"

definition a_pin :: "u32 \<Rightarrow> 'r bview \<Rightarrow> 'r bview" where
  "a_pin b v = v\<lparr>v_pin := insert b (v_pin v)\<rparr>"

definition a_write :: "u32 \<Rightarrow> 'r bview \<Rightarrow> 'r bview" where
  "a_write b v = v\<lparr>v_dsk := (v_dsk v)(b := v_cur v b), v_pin := v_pin v - {b}, v_hist := v_hist v @ [(b, v_cur v b)]\<rparr>"

definition a_release :: "u32 \<Rightarrow> 'r bview \<Rightarrow> 'r bview" where
  "a_release b v = v\<lparr>v_held := v_held v - {b}\<rparr>"

lemmas a_defs = a_read_def a_put_def a_pin_def a_write_def a_release_def

locale block_store =
  fixes inv :: "'s \<Rightarrow> bool" and V :: "'s \<Rightarrow> 'r bview" and holds :: "'s \<Rightarrow> nat \<Rightarrow> u32 \<Rightarrow> bool"
    and nblocks :: "'r \<Rightarrow> u32" and nbuf :: nat and bsize :: nat
    and bread :: "u32 \<Rightarrow> 's \<Rightarrow> kerr + nat \<times> 's" and data :: "'s \<Rightarrow> nat \<Rightarrow> u8 list"
    and put :: "nat \<Rightarrow> u8 list \<Rightarrow> 's \<Rightarrow> 's" and pin :: "nat \<Rightarrow> 's \<Rightarrow> 's"
    and bwrite :: "nat \<Rightarrow> 's \<Rightarrow> kerr + 's" and brelse :: "nat \<Rightarrow> 's \<Rightarrow> kerr + 's"
  assumes read_ok: "inv s \<Longrightarrow> b < nblocks (v_rest (V s)) \<Longrightarrow> b \<notin> v_held (V s) \<Longrightarrow>
      b \<in> v_pin (V s) \<or> card (v_held (V s) \<union> v_pin (V s)) < nbuf \<Longrightarrow>
      \<exists>i t. bread b s = Inr (i, t) \<and> inv t \<and> holds t i b \<and> (\<forall>j c. holds s j c \<longrightarrow> holds t j c) \<and> V t = a_read b (V s)"
    and data_ok: "inv s \<Longrightarrow> holds s i b \<Longrightarrow> data s i = v_cur (V s) b"
    and put_ok: "inv s \<Longrightarrow> holds s i b \<Longrightarrow> length d = bsize \<Longrightarrow>
      inv (put i d s) \<and> holds (put i d s) = holds s \<and> V (put i d s) = a_put b d (V s)"
    and pin_ok: "inv s \<Longrightarrow> holds s i b \<Longrightarrow> inv (pin i s) \<and> holds (pin i s) = holds s \<and> V (pin i s) = a_pin b (V s)"
    and write_ok: "inv s \<Longrightarrow> holds s i b \<Longrightarrow>
      \<exists>t. bwrite i s = Inr t \<and> inv t \<and> holds t = holds s \<and> V t = a_write b (V s)"
    and release_ok: "inv s \<Longrightarrow> holds s i b \<Longrightarrow> b \<in> v_pin (V s) \<or> v_cur (V s) b = v_dsk (V s) b \<Longrightarrow>
      \<exists>t. brelse i s = Inr t \<and> inv t \<and> (\<forall>j c. c \<noteq> b \<longrightarrow> holds s j c \<longrightarrow> holds t j c) \<and> V t = a_release b (V s)"
    and clean: "inv s \<Longrightarrow> b \<notin> v_held (V s) \<Longrightarrow> b \<notin> v_pin (V s) \<Longrightarrow> v_cur (V s) b = v_dsk (V s) b"
    and finite_use: "inv s \<Longrightarrow> finite (v_held (V s) \<union> v_pin (V s))"
    and size_ok: "inv s \<Longrightarrow> b < nblocks (v_rest (V s)) \<Longrightarrow> length (v_cur (V s) b) = bsize"
begin

text \<open>Read two blocks, copy the second one's content into the first and write that.\<close>

lemma copy_to_first:
  assumes "inv s" and "v_held (V s) = {}" and "a < nblocks (v_rest (V s))" "b < nblocks (v_rest (V s))" "a \<noteq> b"
    and "b \<in> v_pin (V s)" "card (v_pin (V s)) < nbuf"
  shows "\<exists>t. bindE (bread a s) (\<lambda>(i, s). bindE (bread b s) (\<lambda>(j, s).
      bindE (bwrite i (put i (data s j) s)) (\<lambda>s. bindE (brelse j s) (brelse i)))) = Inr t \<and> inv t \<and>
    V t = a_write a (a_put a (v_cur (V s) b) (V s))"
proof -
  obtain i s1 where 1: "bread a s = Inr (i, s1)" "inv s1" "holds s1 i a" "V s1 = a_read a (V s)"
    using read_ok [OF assms(1,3)] assms(2,7) by auto
  obtain j s2 where 2: "bread b s1 = Inr (j, s2)" "inv s2" "holds s2 j b" "\<forall>k c. holds s1 k c \<longrightarrow> holds s2 k c"
    "V s2 = a_read b (V s1)"
    using read_ok [OF 1(2), of b] 1(4) assms(2,4-6) by (auto simp: a_read_def)
  have hi: "holds s2 i a" using 1(3) 2(4) by blast
  have d: "data s2 j = v_cur (V s) b" using data_ok [OF 2(2,3)] 2(5) 1(4) by (simp add: a_read_def)
  have len: "length (v_cur (V s) b) = bsize" using size_ok [OF assms(1,4)] .
  let ?s3 = "put i (data s2 j) s2"
  have 3: "inv ?s3" "holds ?s3 i a" "holds ?s3 j b" "V ?s3 = a_put a (v_cur (V s) b) (V s2)"
    using put_ok [OF 2(2) hi, of "data s2 j"] d len 2(3) hi by auto
  obtain s4 where 4: "bwrite i ?s3 = Inr s4" "inv s4" "holds s4 = holds ?s3" "V s4 = a_write a (V ?s3)"
    using write_ok [OF 3(1,2)] by blast
  have "b \<in> v_pin (V s4)" using assms(5,6) 4(4) 3(4) 2(5) 1(4) by (simp add: a_defs)
  then obtain s5 where 5: "brelse j s4 = Inr s5" "inv s5" "\<forall>k c. c \<noteq> b \<longrightarrow> holds s4 k c \<longrightarrow> holds s5 k c"
    "V s5 = a_release b (V s4)" using release_ok [OF 4(2)] 3(3) 4(3) by metis
  have "holds s5 i a" using 5(3) assms(5) 4(3) 3(2) by metis
  moreover have "v_cur (V s5) a = v_dsk (V s5) a" using 5(4) 4(4) by (simp add: a_defs)
  ultimately obtain t where t: "brelse i s5 = Inr t" "inv t" "V t = a_release a (V s5)" using release_ok [OF 5(2)] by metis
  have "V t = a_write a (a_put a (v_cur (V s) b) (V s))"
    using t(3) 5(4) 4(4) 3(4) 2(5) 1(4) assms(2) by (cases "V s") (auto simp: a_defs)
  with t 5(1) 4(1) 2(1) 1(1) show ?thesis by auto
qed

text \<open>Read two blocks, copy the first one's content into the second and write that.\<close>

lemma copy_to_second:
  assumes "inv s" and "v_held (V s) = {}" and "a < nblocks (v_rest (V s))" "b < nblocks (v_rest (V s))" "a \<noteq> b"
    and "a \<notin> v_pin (V s)" "b \<in> v_pin (V s) \<or> Suc (card (v_pin (V s))) < nbuf" "card (v_pin (V s)) < nbuf"
  shows "\<exists>t. bindE (bread a s) (\<lambda>(i, s). bindE (bread b s) (\<lambda>(j, s).
      bindE (bwrite j (put j (data s i) s)) (\<lambda>s. bindE (brelse i s) (brelse j)))) = Inr t \<and> inv t \<and>
    V t = a_write b (a_put b (v_cur (V s) a) (V s))"
proof -
  have fin: "finite (v_pin (V s))" using finite_use [OF assms(1)] by simp
  obtain i s1 where 1: "bread a s = Inr (i, s1)" "inv s1" "holds s1 i a" "V s1 = a_read a (V s)"
    using read_ok [OF assms(1,3)] assms(2,8) by auto
  have "b \<in> v_pin (V s1) \<or> card (v_held (V s1) \<union> v_pin (V s1)) < nbuf"
    using assms(2,6,7) fin 1(4) by (auto simp: a_read_def)
  then obtain j s2 where 2: "bread b s1 = Inr (j, s2)" "inv s2" "holds s2 j b" "\<forall>k c. holds s1 k c \<longrightarrow> holds s2 k c"
    "V s2 = a_read b (V s1)"
    using read_ok [OF 1(2), of b] 1(4) assms(2,4,5) by (auto simp: a_read_def)
  have hi: "holds s2 i a" using 1(3) 2(4) by blast
  have d: "data s2 i = v_cur (V s) a" using data_ok [OF 2(2) hi] 2(5) 1(4) by (simp add: a_read_def)
  have len: "length (v_cur (V s) a) = bsize" using size_ok [OF assms(1,3)] .
  let ?s3 = "put j (data s2 i) s2"
  have 3: "inv ?s3" "holds ?s3 i a" "holds ?s3 j b" "V ?s3 = a_put b (v_cur (V s) a) (V s2)"
    using put_ok [OF 2(2,3), of "data s2 i"] d len 2(3) hi by auto
  obtain s4 where 4: "bwrite j ?s3 = Inr s4" "inv s4" "holds s4 = holds ?s3" "V s4 = a_write b (V ?s3)"
    using write_ok [OF 3(1,3)] by blast
  have "v_cur (V s4) a = v_dsk (V s4) a"
    using clean [OF assms(1), of a] assms(2,5,6) 4(4) 3(4) 2(5) 1(4) by (simp add: a_defs)
  then obtain s5 where 5: "brelse i s4 = Inr s5" "inv s5" "\<forall>k c. c \<noteq> a \<longrightarrow> holds s4 k c \<longrightarrow> holds s5 k c"
    "V s5 = a_release a (V s4)" using release_ok [OF 4(2)] 3(2) 4(3) by metis
  have "holds s5 j b" using 5(3) assms(5) 4(3) 3(3) by metis
  moreover have "v_cur (V s5) b = v_dsk (V s5) b" using 5(4) 4(4) by (simp add: a_defs)
  ultimately obtain t where t: "brelse j s5 = Inr t" "inv t" "V t = a_release b (V s5)" using release_ok [OF 5(2)] by metis
  have "V t = a_write b (a_put b (v_cur (V s) a) (V s))"
    using t(3) 5(4) 4(4) 3(4) 2(5) 1(4) assms(2) by (cases "V s") (auto simp: a_defs)
  with t 5(1) 4(1) 2(1) 1(1) show ?thesis by auto
qed

text \<open>Read a block, and read, change and write a block.\<close>

lemma read_only:
  assumes "inv s" and "v_held (V s) = {}" and "a < nblocks (v_rest (V s))" "a \<notin> v_pin (V s)" "card (v_pin (V s)) < nbuf"
  shows "\<exists>i s1 t. bread a s = Inr (i, s1) \<and> data s1 i = v_cur (V s) a \<and> inv s1 \<and> holds s1 i a \<and> V s1 = a_read a (V s) \<and>
    brelse i s1 = Inr t \<and> inv t \<and> V t = V s"
proof -
  obtain i s1 where 1: "bread a s = Inr (i, s1)" "inv s1" "holds s1 i a" "V s1 = a_read a (V s)"
    using read_ok [OF assms(1,3)] assms(2,5) by auto
  have "v_cur (V s1) a = v_dsk (V s1) a" using clean [OF assms(1), of a] assms(2,4) 1(4) by (simp add: a_read_def)
  then obtain t where t: "brelse i s1 = Inr t" "inv t" "V t = a_release a (V s1)" using release_ok [OF 1(2,3)] by metis
  have "V t = V s" using t(3) 1(4) assms(2) by (cases "V s") (auto simp: a_defs)
  moreover have "data s1 i = v_cur (V s) a" using data_ok [OF 1(2,3)] 1(4) by (simp add: a_read_def)
  ultimately show ?thesis using 1 t by blast
qed

lemma rewrite_block:
  assumes "inv s" and "v_held (V s) = {}" and "a < nblocks (v_rest (V s))" "card (v_pin (V s)) < nbuf"
    and "length (f (v_cur (V s) a)) = bsize"
  shows "\<exists>t. bindE (bread a s) (\<lambda>(i, s). bindE (bwrite i (put i (f (data s i)) s)) (brelse i)) = Inr t \<and> inv t \<and>
    V t = a_write a (a_put a (f (v_cur (V s) a)) (V s))"
proof -
  obtain i s1 where 1: "bread a s = Inr (i, s1)" "inv s1" "holds s1 i a" "V s1 = a_read a (V s)"
    using read_ok [OF assms(1,3)] assms(2,4) by auto
  have d: "data s1 i = v_cur (V s) a" using data_ok [OF 1(2,3)] 1(4) by (simp add: a_read_def)
  let ?s2 = "put i (f (data s1 i)) s1"
  have 2: "inv ?s2" "holds ?s2 i a" "V ?s2 = a_put a (f (v_cur (V s) a)) (V s1)"
    using put_ok [OF 1(2,3), of "f (data s1 i)"] d assms(5) 1(3) by auto
  obtain s3 where 3: "bwrite i ?s2 = Inr s3" "inv s3" "holds s3 i a" "V s3 = a_write a (V ?s2)"
    using write_ok [OF 2(1,2)] 2(2) by metis
  have "v_cur (V s3) a = v_dsk (V s3) a" using 3(4) by (simp add: a_defs)
  then obtain t where t: "brelse i s3 = Inr t" "inv t" "V t = a_release a (V s3)" using release_ok [OF 3(2,3)] by metis
  have "V t = a_write a (a_put a (f (v_cur (V s) a)) (V s))"
    using t(3) 3(4) 2(3) 1(4) assms(2) by (cases "V s") (auto simp: a_defs)
  with t 3(1) 1(1) show ?thesis by auto
qed

end

end
