(* ===== verification/Bio_Inv.thy ===== *)
theory Bio_Inv
  imports Bio Block_Store
begin

text \<open>
  The buffer cache as a store of blocks (theory \<open>Block_Store\<close>): the cache with its linked list,
  its locks and its two flags implements it, as seen by one process while no other one holds a buffer.
\<close>

section \<open>The list of buffers\<close>

definition linked :: "buf list \<Rightarrow> nat list \<Rightarrow> bool" where
  "linked bs xs \<longleftrightarrow> length bs = Suc NBUF \<and> set xs = {..<NBUF} \<and>
     ring (\<lambda>i. b_next (bs ! i)) (\<lambda>i. b_prev (bs ! i)) HEAD xs"

definition bcore :: "buf \<Rightarrow> buf" where
  "bcore b = b\<lparr>b_prev := 0, b_next := 0\<rparr>"

definition same_core :: "buf list \<Rightarrow> buf list \<Rightarrow> bool" where
  "same_core bs cs \<longleftrightarrow> length bs = length cs \<and> (\<forall>i < length cs. bcore (bs ! i) = bcore (cs ! i))"

lemma bcoreD:
  assumes "bcore b = bcore c"
  shows "b_valid b = b_valid c" "b_dirty b = b_dirty c" "b_dev b = b_dev c" "b_blockno b = b_blockno c"
    "b_lock b = b_lock c" "b_refcnt b = b_refcnt c" "b_data b = b_data c"
  using assms by (cases b; cases c; simp add: bcore_def)+

lemma bcore_links [simp]: "bcore (b\<lparr>b_prev := p\<rparr>) = bcore b" "bcore (b\<lparr>b_next := n\<rparr>) = bcore b"
  by (simp_all add: bcore_def)

lemma same_core_trans: "same_core as bs \<Longrightarrow> same_core bs cs \<Longrightarrow> same_core as cs"
  by (simp add: same_core_def)

lemma same_core_upd: "bcore x = bcore (bs ! i) \<Longrightarrow> same_core (bs[i := x]) bs"
  by (auto simp: same_core_def nth_upd)

lemma upd_buf_simps [simp]: "bufs (upd_buf i f s) = (bufs s)[i := f (bufs s ! i)]"
  "upd_buf i f (s\<lparr>bufs := bs\<rparr>) = s\<lparr>bufs := bs[i := f (bs ! i)]\<rparr>"
  by (simp_all add: upd_buf_def)

lemma next_upd: "i < length bs \<Longrightarrow> (\<lambda>j. b_next (bs[i := x] ! j)) = (\<lambda>j. b_next (bs ! j))(i := b_next x)"
  by (auto simp: nth_upd fun_eq_iff)

lemma prev_upd: "i < length bs \<Longrightarrow> (\<lambda>j. b_prev (bs[i := x] ! j)) = (\<lambda>j. b_prev (bs ! j))(i := b_prev x)"
  by (auto simp: nth_upd fun_eq_iff)

lemma ring_ranges:
  assumes "linked bs (ys @ i # zs)"
  shows "b_next (bs ! i) < length bs" "b_prev (bs ! i) < length bs"
proof -
  have r: "ring (\<lambda>i. b_next (bs ! i)) (\<lambda>i. b_prev (bs ! i)) HEAD (ys @ i # zs)" and l: "length bs = Suc NBUF"
    and n: "\<And>k. k \<in> set (ys @ i # zs) \<Longrightarrow> k < NBUF"
    using assms by (auto simp: linked_def)
  have "hd (zs @ [HEAD]) \<in> set (zs @ [HEAD])" "last (HEAD # ys) \<in> set (HEAD # ys)" by (intro hd_in_set last_in_set; simp)+
  with ring_nodes [OF r] n l show "b_next (bs ! i) < length bs" "b_prev (bs ! i) < length bs"
    by (auto simp: less_Suc_eq)
qed

lemma unlink_ring:
  assumes "linked (bufs s) (ys @ i # zs)"
  shows "\<exists>bs. lru_unlink i s = s\<lparr>bufs := bs\<rparr> \<and> length bs = Suc NBUF \<and> same_core bs (bufs s) \<and>
    ring (\<lambda>j. b_next (bs ! j)) (\<lambda>j. b_prev (bs ! j)) HEAD (ys @ zs)"
proof -
  let ?bs = "bufs s"
  let ?n = "b_next (?bs ! i)" and ?p = "b_prev (?bs ! i)"
  have r: "ring (\<lambda>j. b_next (?bs ! j)) (\<lambda>j. b_prev (?bs ! j)) HEAD (ys @ i # zs)" and len: "length ?bs = Suc NBUF"
    using assms by (auto simp: linked_def)
  note rg = ring_ranges [OF assms]
  have ni: "?n \<noteq> i" using ring_nodes(1) [OF r] r by (cases zs) (auto simp: ring_def)
  let ?b1 = "?bs[?n := (?bs ! ?n)\<lparr>b_prev := ?p\<rparr>]"
  let ?b2 = "?b1[?p := (?b1 ! ?p)\<lparr>b_next := ?n\<rparr>]"
  have e: "lru_unlink i s = s\<lparr>bufs := ?b2\<rparr>" using ni by (simp add: lru_unlink_def Let_def upd_buf_def)
  have "same_core ?b2 ?bs" by (rule same_core_trans, rule same_core_upd, simp, rule same_core_upd, simp)
  moreover have "(\<lambda>j. b_next (?b2 ! j)) = (\<lambda>j. b_next (?bs ! j))(?p := ?n)"
    using rg by (auto simp: nth_upd fun_eq_iff)
  moreover have "(\<lambda>j. b_prev (?b2 ! j)) = (\<lambda>j. b_prev (?bs ! j))(?n := ?p)"
    using rg by (auto simp: nth_upd fun_eq_iff)
  ultimately show ?thesis using ring_unlink [OF r] e len by (intro exI [of _ ?b2]) simp
qed

lemma link_ring:
  assumes "ring (\<lambda>j. b_next (bufs s ! j)) (\<lambda>j. b_prev (bufs s ! j)) HEAD xs" and len: "length (bufs s) = Suc NBUF"
    and "i < NBUF" "i \<notin> set xs" "set xs \<subseteq> {..<NBUF}"
  shows "\<exists>bs. lru_link i s = s\<lparr>bufs := bs\<rparr> \<and> length bs = Suc NBUF \<and> same_core bs (bufs s) \<and>
    ring (\<lambda>j. b_next (bs ! j)) (\<lambda>j. b_prev (bs ! j)) HEAD (i # xs)"
proof -
  let ?bs = "bufs s"
  let ?h = "b_next (?bs ! HEAD)"
  have h: "?h < length ?bs"
  proof -
    have "?h = hd (xs @ [HEAD])" using assms(1) path_first by (fastforce simp: ring_def)
    then show ?thesis using assms(5) len by (cases xs) auto
  qed
  let ?b1 = "?bs[i := (?bs ! i)\<lparr>b_next := ?h, b_prev := HEAD\<rparr>]"
  let ?b2 = "?b1[?h := (?b1 ! ?h)\<lparr>b_prev := i\<rparr>]"
  let ?b3 = "?b2[HEAD := (?b2 ! HEAD)\<lparr>b_next := i\<rparr>]"
  have "lru_link i s = s\<lparr>bufs := ?b3\<rparr>"
    using assms(3) len by (simp add: lru_link_def Let_def upd_buf_def)
  moreover have "same_core ?b3 ?bs"
    by (rule same_core_trans, rule same_core_upd, simp, rule same_core_trans, rule same_core_upd, simp,
        rule same_core_upd) (simp add: bcore_def)
  moreover have "(\<lambda>j. b_next (?b3 ! j)) = (\<lambda>j. b_next (?bs ! j))(i := ?h, HEAD := i)"
    using assms(3) len h by (auto simp: nth_upd fun_eq_iff)
  moreover have "(\<lambda>j. b_prev (?b3 ! j)) = (\<lambda>j. b_prev (?bs ! j))(i := HEAD, ?h := i)"
    using assms(3) len h by (auto simp: nth_upd fun_eq_iff)
  ultimately show ?thesis
    using ring_link [OF assms(1), of i] assms(3,4) len by (intro exI [of _ ?b3]) simp
qed

lemma lru_touch:
  assumes "linked (bufs s) xs" and "i < NBUF"
  shows "\<exists>bs ys. lru_link i (lru_unlink i s) = s\<lparr>bufs := bs\<rparr> \<and> linked bs ys \<and> same_core bs (bufs s)"
proof -
  have "i \<in> set xs" using assms by (simp add: linked_def)
  then obtain ys zs where xs: "xs = ys @ i # zs" by (meson split_list)
  obtain bs where bs: "lru_unlink i s = s\<lparr>bufs := bs\<rparr>" "length bs = Suc NBUF" "same_core bs (bufs s)"
    "ring (\<lambda>j. b_next (bs ! j)) (\<lambda>j. b_prev (bs ! j)) HEAD (ys @ zs)"
    using unlink_ring assms(1) unfolding xs by blast
  have d: "distinct (ys @ i # zs)" "set (ys @ i # zs) = {..<NBUF}" using assms(1) unfolding xs by (auto simp: linked_def ring_def)
  then have i: "i \<notin> set (ys @ zs)" "set (ys @ zs) \<subseteq> {..<NBUF}" "set (i # ys @ zs) = {..<NBUF}" by auto
  from link_ring [of "s\<lparr>bufs := bs\<rparr>" "ys @ zs" i] bs(2,4) assms(2) i(1,2) obtain cs where
    cs: "lru_link i (s\<lparr>bufs := bs\<rparr>) = s\<lparr>bufs := cs\<rparr>" "length cs = Suc NBUF" "same_core cs bs"
    "ring (\<lambda>j. b_next (cs ! j)) (\<lambda>j. b_prev (cs ! j)) HEAD (i # ys @ zs)" by auto
  have "linked cs (i # ys @ zs)" using cs(2,4) i(3) by (simp add: linked_def)
  moreover have "same_core cs (bufs s)" using cs(3) bs(3) by (rule same_core_trans)
  ultimately show ?thesis using cs(1) bs(1) by auto
qed

section \<open>The invariant and the view\<close>

definition buf_ok :: "u32 \<Rightarrow> u8 list list \<Rightarrow> buf \<Rightarrow> bool" where
  "buf_ok pid dk b \<longleftrightarrow>
     (b_dirty b \<longrightarrow> b_dev b = 1) \<and> (b_dev b = 1 \<longleftrightarrow> b_valid b) \<and>
     (b_valid b \<longrightarrow> unat (b_blockno b) < length dk \<and> length (b_data b) = BSIZE) \<and>
     (sl_locked (b_lock b) \<longrightarrow> b_dev b = 1 \<and> sl_pid (b_lock b) = pid) \<and>
     b_refcnt b = (if sl_locked (b_lock b) then 1 else 0) \<and>
     (b_valid b \<and> \<not> b_dirty b \<and> \<not> sl_locked (b_lock b) \<longrightarrow> b_data b = dk ! unat (b_blockno b))"

definition uniq :: "buf list \<Rightarrow> bool" where
  "uniq bs \<longleftrightarrow> (\<forall>i < NBUF. \<forall>j < NBUF. b_dev (bs ! i) = 1 \<longrightarrow> b_dev (bs ! j) = 1 \<longrightarrow>
     b_blockno (bs ! i) = b_blockno (bs ! j) \<longrightarrow> i = j)"

definition bio_inv :: "'a bstate_scheme \<Rightarrow> bool" where
  "bio_inv s \<longleftrightarrow> in_proc s \<and> (\<exists>xs. linked (bufs s) xs) \<and> uniq (bufs s) \<and>
     (\<forall>i < NBUF. buf_ok (mypid s) (memdisk s) (bufs s ! i)) \<and>
     length (memdisk s) = unat (disksize s) \<and> (\<forall>d \<in> set (memdisk s). length d = BSIZE)"

text \<open>The buffer that caches a block, the content of a block now and on disk, and the blocks that are held or pinned.\<close>

definition caches :: "buf list \<Rightarrow> u32 \<Rightarrow> nat option" where
  "caches bs b = scan (\<lambda>x. b_dev x = 1 \<and> b_blockno x = b) 0 (take NBUF bs)"

definition bcur :: "'a bstate_scheme \<Rightarrow> u32 \<Rightarrow> u8 list" where
  "bcur s b = (case caches (bufs s) b of None \<Rightarrow> memdisk s ! unat b | Some i \<Rightarrow> b_data (bufs s ! i))"

definition bdsk :: "'a bstate_scheme \<Rightarrow> u32 \<Rightarrow> u8 list" where
  "bdsk s b = memdisk s ! unat b"

definition holds :: "'a bstate_scheme \<Rightarrow> nat \<Rightarrow> u32 \<Rightarrow> bool" where
  "holds s i b \<longleftrightarrow> i < NBUF \<and> b_dev (bufs s ! i) = 1 \<and> b_blockno (bufs s ! i) = b \<and> sl_locked (b_lock (bufs s ! i))"

definition pins :: "'a bstate_scheme \<Rightarrow> nat \<Rightarrow> u32 \<Rightarrow> bool" where
  "pins s i b \<longleftrightarrow> i < NBUF \<and> b_dev (bufs s ! i) = 1 \<and> b_blockno (bufs s ! i) = b \<and> b_dirty (bufs s ! i)"

definition bheld :: "'a bstate_scheme \<Rightarrow> u32 set" where
  "bheld s = {b. \<exists>i. holds s i b}"

definition bpinned :: "'a bstate_scheme \<Rightarrow> u32 set" where
  "bpinned s = {b. \<exists>i. pins s i b}"

definition brest :: "'a bstate_scheme \<Rightarrow> 'a bstate_scheme" where
  "brest s = (quiet s)\<lparr>bufs := [], memdisk := [], dwrites := []\<rparr>"

definition put_data :: "nat \<Rightarrow> u8 list \<Rightarrow> 'a bstate_scheme \<Rightarrow> 'a bstate_scheme" where
  "put_data i d = upd_buf i (\<lambda>b. b\<lparr>b_data := d\<rparr>)"

definition pin :: "nat \<Rightarrow> 'a bstate_scheme \<Rightarrow> 'a bstate_scheme" where
  "pin i = upd_buf i (\<lambda>b. b\<lparr>b_dirty := True\<rparr>)"

lemma bio_invD:
  assumes "bio_inv s"
  shows "in_proc s" "length (bufs s) = Suc NBUF" "uniq (bufs s)"
    "i < NBUF \<Longrightarrow> buf_ok (mypid s) (memdisk s) (bufs s ! i)"
    "length (memdisk s) = unat (disksize s)" "d \<in> set (memdisk s) \<Longrightarrow> length d = BSIZE"
  using assms by (auto simp: bio_inv_def linked_def)

lemma uniqD: "uniq bs \<Longrightarrow> i < NBUF \<Longrightarrow> j < NBUF \<Longrightarrow> b_dev (bs ! i) = 1 \<Longrightarrow> b_dev (bs ! j) = 1 \<Longrightarrow>
    b_blockno (bs ! i) = b_blockno (bs ! j) \<Longrightarrow> i = j"
  unfolding uniq_def by blast

lemma caches_Some:
  assumes "uniq bs" "length bs = Suc NBUF" "i < NBUF" "b_dev (bs ! i) = 1" "b_blockno (bs ! i) = b"
  shows "caches bs b = Some i"
proof -
  have "\<not> (b_dev (bs ! k) = 1 \<and> b_blockno (bs ! k) = b)" if "k < i" for k
    using uniqD [OF assms(1), of i k] assms that by auto
  then show ?thesis using assms by (simp add: caches_def scan_Some_iff)
qed

lemma caches_iff:
  assumes "uniq bs" "length bs = Suc NBUF"
  shows "caches bs b = Some i \<longleftrightarrow> i < NBUF \<and> b_dev (bs ! i) = 1 \<and> b_blockno (bs ! i) = b"
  using assms caches_Some [OF assms, of i b] by (auto simp: caches_def scan_Some_iff)

lemma holds_cur: "bio_inv s \<Longrightarrow> holds s i b \<Longrightarrow> bcur s b = b_data (bufs s ! i)"
  using caches_Some [of "bufs s" i b] bio_invD(2,3) [of s] by (auto simp: bcur_def holds_def)

lemma holds_unique: "bio_inv s \<Longrightarrow> holds s i b \<Longrightarrow> holds s j b \<Longrightarrow> i = j"
  using uniqD [OF bio_invD(3)] by (auto simp: holds_def)

text \<open>A block that is neither held nor pinned has the same content in the cache and on disk.\<close>

lemma bcur_clean:
  assumes "bio_inv s" and "b \<notin> bheld s" "b \<notin> bpinned s"
  shows "bcur s b = bdsk s b"
proof (cases "caches (bufs s) b")
  case None
  then show ?thesis by (simp add: bcur_def bdsk_def)
next
  case (Some i)
  then have i: "i < NBUF" "b_dev (bufs s ! i) = 1" "b_blockno (bufs s ! i) = b"
    using caches_iff [OF bio_invD(3,2) [OF assms(1)]] by auto
  then have "\<not> sl_locked (b_lock (bufs s ! i))" "\<not> b_dirty (bufs s ! i)"
    using assms(2,3) by (auto simp: bheld_def bpinned_def holds_def pins_def)
  then show ?thesis using bio_invD(4) [OF assms(1) i(1)] i Some by (simp add: buf_ok_def bcur_def bdsk_def)
qed

lemma bcur_length:
  assumes "bio_inv s" and "b < disksize s"
  shows "length (bcur s b) = BSIZE"
proof (cases "caches (bufs s) b")
  case None
  have "unat b < length (memdisk s)" using assms bio_invD(5) [OF assms(1)] by (simp add: word_less_nat_alt)
  then show ?thesis using None bio_invD(6) [OF assms(1)] by (simp add: bcur_def)
next
  case (Some i)
  then have i: "i < NBUF" "b_dev (bufs s ! i) = 1" using caches_iff [OF bio_invD(3,2) [OF assms(1)]] by auto
  then show ?thesis using bio_invD(4) [OF assms(1) i(1)] Some by (simp add: buf_ok_def bcur_def)
qed

section \<open>Changing one buffer\<close>

lemma in_proc_bio [simp]:
  "in_proc (s\<lparr>bufs := bs\<rparr>) \<longleftrightarrow> in_proc s" "in_proc (s\<lparr>memdisk := d\<rparr>) \<longleftrightarrow> in_proc s"
  "in_proc (s\<lparr>dwrites := w\<rparr>) \<longleftrightarrow> in_proc s"
proof -
  have "sinv X Y (s\<lparr>bufs := bs\<rparr>) \<longleftrightarrow> sinv X Y s" "sinv X Y (s\<lparr>memdisk := d\<rparr>) \<longleftrightarrow> sinv X Y s"
    "sinv X Y (s\<lparr>dwrites := w\<rparr>) \<longleftrightarrow> sinv X Y s" for X Y by (rule sinv_cong; simp)+
  then show "in_proc (s\<lparr>bufs := bs\<rparr>) \<longleftrightarrow> in_proc s" "in_proc (s\<lparr>memdisk := d\<rparr>) \<longleftrightarrow> in_proc s"
    "in_proc (s\<lparr>dwrites := w\<rparr>) \<longleftrightarrow> in_proc s"
    by (simp_all add: in_proc_def myproc_def)
qed

lemma mypid_bio [simp]: "mypid (s\<lparr>bufs := bs\<rparr>) = mypid s" "mypid (s\<lparr>memdisk := d\<rparr>) = mypid s"
  "mypid (s\<lparr>dwrites := w\<rparr>) = mypid s"
  by (simp_all add: mypid_def myproc_def split: option.split)

lemma brest_bio [simp]: "brest (s\<lparr>bufs := bs\<rparr>) = brest s" "brest (s\<lparr>memdisk := d\<rparr>) = brest s"
  "brest (s\<lparr>dwrites := w\<rparr>) = brest s"
  by (simp_all add: brest_def quiet_def)

lemma linked_upd:
  assumes "linked bs xs" and "b_prev x = b_prev (bs ! i)" "b_next x = b_next (bs ! i)"
  shows "linked (bs[i := x]) xs"
proof (cases "i < length bs")
  case True
  then have "(\<lambda>j. b_next (bs[i := x] ! j)) = (\<lambda>j. b_next (bs ! j))" "(\<lambda>j. b_prev (bs[i := x] ! j)) = (\<lambda>j. b_prev (bs ! j))"
    using assms(2,3) by (auto simp: fun_eq_iff nth_upd)
  then show ?thesis using assms(1) by (simp add: linked_def)
qed (use assms(1) in \<open>simp add: list_update_beyond\<close>)

text \<open>A new value for buffer \<open>i\<close> that the invariant allows.\<close>

definition fits :: "'a bstate_scheme \<Rightarrow> nat \<Rightarrow> buf \<Rightarrow> bool" where
  "fits s i x \<longleftrightarrow> i < NBUF \<and> b_prev x = b_prev (bufs s ! i) \<and> b_next x = b_next (bufs s ! i) \<and>
     buf_ok (mypid s) (memdisk s) x \<and>
     (\<forall>j < NBUF. j \<noteq> i \<longrightarrow> b_dev (bufs s ! j) = 1 \<longrightarrow> b_dev x = 1 \<longrightarrow> b_blockno (bufs s ! j) \<noteq> b_blockno x)"

lemma fits_same_key:
  assumes "bio_inv s" and "i < NBUF" and "buf_ok (mypid s) (memdisk s) x"
    and "b_prev x = b_prev (bufs s ! i)" "b_next x = b_next (bufs s ! i)"
    and "b_dev x = b_dev (bufs s ! i)" "b_blockno x = b_blockno (bufs s ! i)"
  shows "fits s i x"
proof -
  have "b_blockno (bufs s ! j) \<noteq> b_blockno x" if "j < NBUF" "j \<noteq> i" "b_dev (bufs s ! j) = 1" "b_dev x = 1" for j
    using uniqD [OF bio_invD(3) [OF assms(1)] assms(2) that(1)] assms(6,7) that by auto
  with assms(2-5) show ?thesis by (simp add: fits_def)
qed

lemma set_buf_inv:
  assumes "bio_inv s" and "fits s i x"
  shows "bio_inv (s\<lparr>bufs := (bufs s)[i := x]\<rparr>)"
proof -
  note b = bio_invD [OF assms(1)]
  have x: "i < NBUF" "b_prev x = b_prev (bufs s ! i)" "b_next x = b_next (bufs s ! i)" "buf_ok (mypid s) (memdisk s) x"
    and u: "\<And>j. j < NBUF \<Longrightarrow> j \<noteq> i \<Longrightarrow> b_dev (bufs s ! j) = 1 \<Longrightarrow> b_dev x = 1 \<Longrightarrow> b_blockno (bufs s ! j) \<noteq> b_blockno x"
    using assms(2) by (auto simp: fits_def)
  have "uniq ((bufs s)[i := x])" unfolding uniq_def
  proof (intro allI impI)
    fix j k
    assume "j < NBUF" "k < NBUF" "b_dev ((bufs s)[i := x] ! j) = 1" "b_dev ((bufs s)[i := x] ! k) = 1"
      "b_blockno ((bufs s)[i := x] ! j) = b_blockno ((bufs s)[i := x] ! k)"
    then show "j = k"
      using u [of j] u [of k] x(1) b(2) uniqD [OF b(3), of j k] by (cases "j = i"; cases "k = i") auto
  qed
  moreover obtain xs where "linked (bufs s) xs" using assms(1) by (auto simp: bio_inv_def)
  then have "linked ((bufs s)[i := x]) xs" using x(2,3) by (rule linked_upd)
  moreover have "buf_ok (mypid s) (memdisk s) ((bufs s)[i := x] ! j)" if "j < NBUF" for j
    using b(4) [OF that] x(4) by (simp add: nth_upd)
  moreover have "\<forall>d \<in> set (memdisk s). length d = BSIZE" using b(6) by blast
  ultimately show ?thesis using b(1,5) unfolding bio_inv_def by simp blast
qed

lemma holds_set: "length (bufs s) = Suc NBUF \<Longrightarrow> holds (s\<lparr>bufs := (bufs s)[i := x]\<rparr>) j c \<longleftrightarrow>
    (if j = i then i < NBUF \<and> b_dev x = 1 \<and> b_blockno x = c \<and> sl_locked (b_lock x) else holds s j c)"
  by (auto simp: holds_def nth_upd)

lemma pins_set: "length (bufs s) = Suc NBUF \<Longrightarrow> pins (s\<lparr>bufs := (bufs s)[i := x]\<rparr>) j c \<longleftrightarrow>
    (if j = i then i < NBUF \<and> b_dev x = 1 \<and> b_blockno x = c \<and> b_dirty x else pins s j c)"
  by (auto simp: pins_def nth_upd)

lemma bcur_set:
  assumes "bio_inv s" and "fits s i x"
  shows "bcur (s\<lparr>bufs := (bufs s)[i := x]\<rparr>) c =
    (if b_dev x = 1 \<and> b_blockno x = c then b_data x
     else if b_dev (bufs s ! i) = 1 \<and> b_blockno (bufs s ! i) = c then memdisk s ! unat c
     else bcur s c)"
proof -
  let ?t = "s\<lparr>bufs := (bufs s)[i := x]\<rparr>"
  note inv = set_buf_inv [OF assms]
  note b = bio_invD(2,3) [OF assms(1)] bio_invD(2,3) [OF inv]
  have i: "i < NBUF" using assms(2) by (simp add: fits_def)
  have c: "caches (bufs ?t) c = Some j \<longleftrightarrow> j < NBUF \<and> b_dev ((bufs s)[i := x] ! j) = 1 \<and> b_blockno ((bufs s)[i := x] ! j) = c" for j
    using caches_iff [OF b(4,3)] by simp
  show ?thesis
  proof (cases "b_dev x = 1 \<and> b_blockno x = c")
    case True
    then have "caches (bufs ?t) c = Some i" using c [of i] i b(1) by simp
    then show ?thesis using True i b(1) by (simp add: bcur_def)
  next
    case nx: False
    show ?thesis
    proof (cases "b_dev (bufs s ! i) = 1 \<and> b_blockno (bufs s ! i) = c")
      case True
      have "caches (bufs ?t) c \<noteq> Some j" for j
      proof
        assume "caches (bufs ?t) c = Some j"
        then have j: "j < NBUF" "b_dev ((bufs s)[i := x] ! j) = 1" "b_blockno ((bufs s)[i := x] ! j) = c"
          using c [of j] by blast+
        then have "j \<noteq> i" using nx i b(1) by auto
        with j True uniqD [OF b(2) i j(1)] show False by simp
      qed
      then have "caches (bufs ?t) c = None" by (metis option.exhaust)
      then show ?thesis using True nx by (auto simp: bcur_def)
    next
      case False
      have "caches (bufs ?t) c = Some j \<longleftrightarrow> caches (bufs s) c = Some j" for j
        unfolding c caches_iff [OF b(2,1), of c] using nx False i b(1) by (cases "j = i") auto
      then have "caches (bufs ?t) c = caches (bufs s) c" by (metis option.exhaust)
      moreover have "caches (bufs s) c \<noteq> Some i" using False caches_iff [OF b(2,1), of c i] by auto
      ultimately show ?thesis using nx False by (auto simp: bcur_def nth_upd split: option.split)
    qed
  qed
qed

section \<open>The operations\<close>

interpretation buf_lock: sleeplock_ref "buf_lk i" for i
  by unfold_locales (simp_all add: buf_lk_def upd_buf_def)

lemma buf_lk_simps [simp]: "sl_get (buf_lk i) s = b_lock (bufs s ! i)"
  "sl_set (buf_lk i) l s = upd_buf i (\<lambda>b. b\<lparr>b_lock := l\<rparr>) s"
  by (simp_all add: buf_lk_def)

lemma holds_mine:
  assumes "bio_inv s" and "holds s i b"
  shows "holdingsleep (buf_lk i) s = Inr (True, s)"
proof -
  have "buf_ok (mypid s) (memdisk s) (bufs s ! i)" using bio_invD(4) [OF assms(1)] assms(2) by (simp add: holds_def)
  then show ?thesis
    using buf_lock.holdingsleep_eq [OF bio_invD(1) [OF assms(1)], of i] assms(2) by (simp add: holds_def buf_ok_def)
qed

lemma put_data_ok:
  assumes "bio_inv s" and "holds s i b" and "length d = BSIZE"
  shows "bio_inv (put_data i d s)" "holds (put_data i d s) = holds s" "bcur (put_data i d s) = (bcur s)(b := d)"
    "bdsk (put_data i d s) = bdsk s" "bheld (put_data i d s) = bheld s" "bpinned (put_data i d s) = bpinned s"
    "brest (put_data i d s) = brest s" "dwrites (put_data i d s) = dwrites s"
proof -
  let ?x = "(bufs s ! i)\<lparr>b_data := d\<rparr>"
  have e: "put_data i d s = s\<lparr>bufs := (bufs s)[i := ?x]\<rparr>" by (simp add: put_data_def upd_buf_def)
  have h: "i < NBUF" "b_dev (bufs s ! i) = 1" "b_blockno (bufs s ! i) = b" "sl_locked (b_lock (bufs s ! i))"
    using assms(2) by (auto simp: holds_def)
  have f: "fits s i ?x"
    by (rule fits_same_key [OF assms(1) h(1)]) (use bio_invD(4) [OF assms(1) h(1)] assms(3) h in \<open>simp_all add: buf_ok_def\<close>)
  note len = bio_invD(2) [OF assms(1)]
  show "bio_inv (put_data i d s)" unfolding e by (rule set_buf_inv [OF assms(1) f])
  have ho: "holds (put_data i d s) = holds s" unfolding e by (intro ext) (auto simp: holds_def nth_upd split: if_splits)
  have "pins (put_data i d s) = pins s" unfolding e by (intro ext) (auto simp: pins_def nth_upd split: if_splits)
  with ho show "holds (put_data i d s) = holds s" "bheld (put_data i d s) = bheld s" "bpinned (put_data i d s) = bpinned s"
    by (simp_all add: bheld_def bpinned_def)
  show "bcur (put_data i d s) = (bcur s)(b := d)"
    unfolding e by (intro ext) (simp add: bcur_set [OF assms(1) f] h)
  show "bdsk (put_data i d s) = bdsk s" "brest (put_data i d s) = brest s" "dwrites (put_data i d s) = dwrites s"
    unfolding e by (simp_all add: bdsk_def fun_eq_iff)
qed

lemma pin_ok:
  assumes "bio_inv s" and "holds s i b"
  shows "bio_inv (pin i s)" "holds (pin i s) = holds s" "bcur (pin i s) = bcur s"
    "bdsk (pin i s) = bdsk s" "bheld (pin i s) = bheld s" "bpinned (pin i s) = insert b (bpinned s)"
    "brest (pin i s) = brest s" "dwrites (pin i s) = dwrites s"
proof -
  let ?x = "(bufs s ! i)\<lparr>b_dirty := True\<rparr>"
  have e: "pin i s = s\<lparr>bufs := (bufs s)[i := ?x]\<rparr>" by (simp add: pin_def upd_buf_def)
  have h: "i < NBUF" "b_dev (bufs s ! i) = 1" "b_blockno (bufs s ! i) = b" "sl_locked (b_lock (bufs s ! i))"
    using assms(2) by (auto simp: holds_def)
  have f: "fits s i ?x"
    by (rule fits_same_key [OF assms(1) h(1)]) (use bio_invD(4) [OF assms(1) h(1)] h in \<open>simp_all add: buf_ok_def\<close>)
  note len = bio_invD(2) [OF assms(1)]
  show "bio_inv (pin i s)" unfolding e by (rule set_buf_inv [OF assms(1) f])
  have ho: "holds (pin i s) = holds s" unfolding e by (intro ext) (auto simp: holds_def nth_upd split: if_splits)
  have "pins (pin i s) j c \<longleftrightarrow> pins s j c \<or> j = i \<and> c = b" for j c
    unfolding e using h len by (auto simp: pins_def nth_upd split: if_splits)
  then show "bpinned (pin i s) = insert b (bpinned s)" by (auto simp: bpinned_def)
  from ho show "holds (pin i s) = holds s" "bheld (pin i s) = bheld s" by (simp_all add: bheld_def)
  show "bcur (pin i s) = bcur s"
    unfolding e by (intro ext) (use h holds_cur [OF assms] in \<open>auto simp: bcur_set [OF assms(1) f]\<close>)
  show "bdsk (pin i s) = bdsk s" "brest (pin i s) = brest s" "dwrites (pin i s) = dwrites s"
    unfolding e by (simp_all add: bdsk_def fun_eq_iff)
qed

lemma bwrite_eq:
  assumes "bio_inv s" and "holds s i b"
  shows "bwrite i s = Inr (s\<lparr>memdisk := (memdisk s)[unat b := b_data (bufs s ! i)],
    dwrites := dwrites s @ [(b, b_data (bufs s ! i))], bufs := (bufs s)[i := (bufs s ! i)\<lparr>b_dirty := False\<rparr>]\<rparr>)"
proof -
  have h: "i < NBUF" "b_dev (bufs s ! i) = 1" "b_blockno (bufs s ! i) = b" using assms(2) by (auto simp: holds_def)
  have ok: "b_valid (bufs s ! i)" "\<not> b \<ge> disksize s"
    using bio_invD(4) [OF assms(1) h(1)] h bio_invD(5) [OF assms(1)] by (auto simp: buf_ok_def word_le_nat_alt)
  have x: "(bufs s ! i)\<lparr>b_dirty := False, b_valid := True\<rparr> = (bufs s ! i)\<lparr>b_dirty := False\<rparr>"
    using ok(1) by (cases "bufs s ! i") simp
  let ?u = "s\<lparr>bufs := (bufs s)[i := (bufs s ! i)\<lparr>b_dirty := True\<rparr>]\<rparr>"
  have e: "upd_buf i (\<lambda>b. b\<lparr>b_dirty := True\<rparr>) s = ?u" "pin i s = ?u" by (simp_all add: pin_def upd_buf_def)
  have "holdingsleep (buf_lk i) ?u = Inr (True, ?u)"
    using holds_mine [OF pin_ok(1) [OF assms]] pin_ok(2) [OF assms] assms(2) by (simp add: e)
  then have "iderw i ?u = Inr (upd_buf i (\<lambda>b. b\<lparr>b_dirty := False, b_valid := True\<rparr>) (?u\<lparr>
      memdisk := (memdisk s)[unat b := b_data (bufs s ! i)], dwrites := dwrites s @ [(b, b_data (bufs s ! i))]\<rparr>))"
    using h ok bio_invD(2) [OF assms(1)] by (simp add: iderw_def)
  moreover have "bwrite i s = iderw i ?u" by (simp only: bwrite_def holds_mine [OF assms] e bindE_simps prod.case) simp
  ultimately show ?thesis using h x bio_invD(2) [OF assms(1)] by (simp add: upd_buf_def)
qed

lemma bwrite_ok:
  assumes "bio_inv s" and "holds s i b"
  shows "\<exists>t. bwrite i s = Inr t \<and> bio_inv t \<and> holds t = holds s \<and> bcur t = bcur s \<and>
    bdsk t = (bdsk s)(b := bcur s b) \<and> bheld t = bheld s \<and> bpinned t = bpinned s - {b} \<and>
    brest t = brest s \<and> dwrites t = dwrites s @ [(b, bcur s b)]"
proof -
  let ?x = "(bufs s ! i)\<lparr>b_dirty := False\<rparr>" and ?d = "b_data (bufs s ! i)"
  let ?u = "s\<lparr>bufs := (bufs s)[i := ?x]\<rparr>"
  let ?t = "s\<lparr>memdisk := (memdisk s)[unat b := ?d], dwrites := dwrites s @ [(b, ?d)], bufs := (bufs s)[i := ?x]\<rparr>"
  have h: "i < NBUF" "b_dev (bufs s ! i) = 1" "b_blockno (bufs s ! i) = b" "sl_locked (b_lock (bufs s ! i))"
    using assms(2) by (auto simp: holds_def)
  note len = bio_invD(2) [OF assms(1)]
  have ok: "buf_ok (mypid s) (memdisk s) (bufs s ! i)" using bio_invD(4) [OF assms(1) h(1)] .
  have f: "fits s i ?x" by (rule fits_same_key [OF assms(1) h(1)]) (use ok h in \<open>simp_all add: buf_ok_def\<close>)
  note u = set_buf_inv [OF assms(1) f]
  have bn: "unat b < length (memdisk s)" "length ?d = BSIZE" using ok h by (auto simp: buf_ok_def)
  have bok: "buf_ok (mypid s) ((memdisk s)[unat b := ?d]) (bufs ?u ! j)" if j: "j < NBUF" for j
  proof (cases "j = i")
    case True
    then show ?thesis using bio_invD(4) [OF u h(1)] h len by (simp add: buf_ok_def)
  next
    case False
    have "b_dev (bufs s ! j) = 1 \<Longrightarrow> unat (b_blockno (bufs s ! j)) \<noteq> unat b"
      using uniqD [OF bio_invD(3) [OF assms(1)] j h(1)] False h by (auto simp flip: word_unat_eq_iff)
    then show ?thesis using bio_invD(4) [OF assms(1) j] False bn
      by (auto simp: buf_ok_def nth_upd)
  qed
  have "length e = BSIZE" if "e \<in> set ((memdisk s)[unat b := ?d])" for e
    using that bn(2) bio_invD(6) [OF assms(1)] set_update_subset_insert [of "memdisk s" "unat b" ?d] by blast
  moreover obtain xs where "linked (bufs ?u) xs" using u by (auto simp: bio_inv_def)
  ultimately have inv: "bio_inv ?t"
    using bio_invD(1,3,5) [OF u] bok unfolding bio_inv_def by simp blast
  have cur: "bcur ?u = bcur s" by (intro ext) (use h holds_cur [OF assms] in \<open>auto simp: bcur_set [OF assms(1) f]\<close>)
  have "bcur ?t c = bcur ?u c" for c
  proof (cases "caches (bufs ?u) c")
    case None
    then have "c \<noteq> b" using caches_iff [OF bio_invD(3,2) [OF u], of b i] h len by auto
    then show ?thesis using None by (auto simp: bcur_def nth_upd simp flip: word_unat_eq_iff)
  next
    case (Some k)
    then show ?thesis by (simp add: bcur_def)
  qed
  then have "bcur ?t = bcur s" using cur by (simp add: fun_eq_iff)
  moreover have "holds ?t = holds s" using len by (intro ext) (auto simp: holds_def nth_upd split: if_splits)
  moreover have "pins ?t j c \<longleftrightarrow> pins s j c \<and> c \<noteq> b" for j c
  proof (cases "j = i")
    case True
    then show ?thesis using h len by (auto simp: pins_def)
  next
    case False
    then have "pins s j c \<Longrightarrow> c \<noteq> b"
      using h uniqD [OF bio_invD(3) [OF assms(1)] h(1), of j] by (auto simp: pins_def)
    with False show ?thesis by (auto simp: pins_def)
  qed
  then have "bpinned ?t = bpinned s - {b}" by (auto simp: bpinned_def)
  moreover have "bdsk ?t = (bdsk s)(b := bcur s b)"
    using holds_cur [OF assms] bn by (auto simp: bdsk_def fun_eq_iff nth_upd simp flip: word_unat_eq_iff)
  ultimately show ?thesis
    using bwrite_eq [OF assms] inv holds_cur [OF assms] by (intro exI [of _ ?t]) (simp add: bheld_def)
qed

text \<open>\<^verbatim>\<open>bget\<close>: the search under the lock of the cache, and then the lock of the buffer found.\<close>

lemma bget_take:
  assumes "in_proc s" and "i < length (bufs s)" and "\<not> sl_locked (b_lock (f (bufs s ! i)))"
  shows "bindE (release L_bcache (upd_buf i f (s\<lparr>held := {L_bcache}\<rparr>))) (\<lambda>s.
      bindE (acquiresleep (buf_lk i) s) (\<lambda>s. Inr (i, s))) =
    Inr (i, s\<lparr>bufs := (bufs s)[i := (f (bufs s ! i))\<lparr>b_lock := \<lparr>sl_locked = True, sl_pid = mypid s\<rparr>\<rparr>]\<rparr>)"
proof -
  let ?u = "s\<lparr>bufs := (bufs s)[i := f (bufs s ! i)]\<rparr>"
  have h: "held s = {}" using assms(1) by (simp add: in_proc_def)
  have "release L_bcache (upd_buf i f (s\<lparr>held := {L_bcache}\<rparr>)) = Inr ?u"
    using h by (cases s) (simp add: upd_buf_def)
  moreover have "acquiresleep (buf_lk i) ?u = Inr (sl_set (buf_lk i) \<lparr>sl_locked = True, sl_pid = mypid ?u\<rparr> ?u)"
    by (rule buf_lock.acquiresleep_free) (use assms in simp_all)
  ultimately show ?thesis using assms(2) by simp
qed

lemma bget_hit:
  assumes "bio_inv s" and "i < NBUF" "b_dev (bufs s ! i) = 1" "b_blockno (bufs s ! i) = b"
    and "\<not> sl_locked (b_lock (bufs s ! i))"
  shows "bget 1 b s = Inr (i, s\<lparr>bufs := (bufs s)[i := (bufs s ! i)\<lparr>b_refcnt := 1,
    b_lock := \<lparr>sl_locked = True, sl_pid = mypid s\<rparr>\<rparr>]\<rparr>)"
proof -
  note inv = bio_invD [OF assms(1)]
  obtain xs where xs: "linked (bufs s) xs" using assms(1) by (auto simp: bio_inv_def)
  let ?P = "\<lambda>i. b_dev (bufs s ! i) = 1 \<and> b_blockno (bufs s ! i) = b"
  have "List.find ?P xs = Some i"
  proof (cases "List.find ?P xs")
    case None
    then show ?thesis using find_NoneD [OF None, of i] xs assms(2-4) by (simp add: linked_def)
  next
    case (Some j)
    then have "j < NBUF" "?P j" using find_SomeD [OF Some] xs by (auto simp: linked_def)
    then show ?thesis using uniqD [OF inv(3) assms(2), of j] assms(3,4) Some by simp
  qed
  then have f: "ring_find (\<lambda>i. b_next (bufs s ! i)) ?P HEAD (b_next (bufs s ! HEAD)) = Some (Some i)"
    using ring_find_next [of "\<lambda>i. b_next (bufs s ! i)" _ HEAD xs] xs by (auto simp: linked_def)
  have h: "held s = {}" using inv(1) by (simp add: in_proc_def)
  have r: "b_refcnt (bufs s ! i) = 0" using inv(4) [OF assms(2)] assms(5) by (simp add: buf_ok_def)
  show ?thesis
    using f bget_take [OF inv(1), of i "\<lambda>b. b\<lparr>b_refcnt := b_refcnt b + 1\<rparr>"] inv(2) assms(2,5) r
    by (simp add: bget_def h)
qed

lemma bget_miss:
  assumes "bio_inv s" and "\<And>i. i < NBUF \<Longrightarrow> \<not> (b_dev (bufs s ! i) = 1 \<and> b_blockno (bufs s ! i) = b)"
    and "k < NBUF" "\<not> sl_locked (b_lock (bufs s ! k))" "\<not> b_dirty (bufs s ! k)"
  shows "\<exists>i < NBUF. \<not> sl_locked (b_lock (bufs s ! i)) \<and> \<not> b_dirty (bufs s ! i) \<and>
    bget 1 b s = Inr (i, s\<lparr>bufs := (bufs s)[i := (bufs s ! i)\<lparr>b_dev := 1, b_blockno := b,
      b_valid := False, b_dirty := False, b_refcnt := 1,
      b_lock := \<lparr>sl_locked = True, sl_pid = mypid s\<rparr>\<rparr>]\<rparr>)"
proof -
  note inv = bio_invD [OF assms(1)]
  obtain xs where xs: "linked (bufs s) xs" using assms(1) by (auto simp: bio_inv_def)
  let ?P = "\<lambda>i. b_dev (bufs s ! i) = 1 \<and> b_blockno (bufs s ! i) = b"
  let ?Q = "\<lambda>i. b_refcnt (bufs s ! i) = 0 \<and> \<not> b_dirty (bufs s ! i)"
  have ref: "b_refcnt (bufs s ! j) = 0 \<longleftrightarrow> \<not> sl_locked (b_lock (bufs s ! j))" if "j < NBUF" for j
    using inv(4) [OF that] by (auto simp: buf_ok_def split: if_splits)
  have "List.find ?P xs = None" using assms(2) xs by (auto simp: find_None_iff linked_def)
  then have f: "ring_find (\<lambda>i. b_next (bufs s ! i)) ?P HEAD (b_next (bufs s ! HEAD)) = Some None"
    using ring_find_next [of "\<lambda>i. b_next (bufs s ! i)" _ HEAD xs] xs by (auto simp: linked_def)
  have "List.find ?Q (rev xs) \<noteq> None"
    using find_NoneD [of ?Q "rev xs" k] xs assms(3-5) ref by (auto simp: linked_def)
  then obtain i where fi: "List.find ?Q (rev xs) = Some i" by blast
  then have i: "i < NBUF" "?Q i" using find_SomeD [OF fi] xs by (auto simp: linked_def)
  have g: "ring_find (\<lambda>i. b_prev (bufs s ! i)) ?Q HEAD (b_prev (bufs s ! HEAD)) = Some (Some i)"
    using ring_find_prev [of _ "\<lambda>i. b_prev (bufs s ! i)" HEAD xs] xs fi by (auto simp: linked_def)
  have h: "held s = {}" using inv(1) by (simp add: in_proc_def)
  have "bget 1 b s = Inr (i, s\<lparr>bufs := (bufs s)[i := (bufs s ! i)\<lparr>b_dev := 1, b_blockno := b,
      b_valid := False, b_dirty := False, b_refcnt := 1, b_lock := \<lparr>sl_locked = True, sl_pid = mypid s\<rparr>\<rparr>]\<rparr>)"
    using f g bget_take [OF inv(1), of i "\<lambda>x. x\<lparr>b_dev := 1, b_blockno := b, b_valid := False, b_dirty := False,
      b_refcnt := 1\<rparr>"] inv(2) i ref [OF i(1)] by (simp add: bget_def h)
  with i ref [OF i(1)] show ?thesis by blast
qed

lemma in_use_finite: "finite (bheld s)" "finite (bpinned s)"
proof -
  have "bheld s \<subseteq> (\<lambda>i. b_blockno (bufs s ! i)) ` {..<NBUF}" "bpinned s \<subseteq> (\<lambda>i. b_blockno (bufs s ! i)) ` {..<NBUF}"
    by (auto simp: bheld_def bpinned_def holds_def pins_def)
  then show "finite (bheld s)" "finite (bpinned s)" by (meson finite_imageI finite_lessThan finite_subset)+
qed

lemma room:
  assumes "bio_inv s" and "card (bheld s \<union> bpinned s) < NBUF"
  shows "\<exists>k < NBUF. \<not> sl_locked (b_lock (bufs s ! k)) \<and> \<not> b_dirty (bufs s ! k)"
proof (rule ccontr)
  assume "\<not> ?thesis"
  then have all: "sl_locked (b_lock (bufs s ! k)) \<or> b_dirty (bufs s ! k)" if "k < NBUF" for k using that by blast
  have dev: "b_dev (bufs s ! k) = 1" if "k < NBUF" for k
    using all [OF that] bio_invD(4) [OF assms(1) that] by (auto simp: buf_ok_def)
  let ?f = "\<lambda>i. b_blockno (bufs s ! i)"
  have "inj_on ?f {..<NBUF}"
  proof (rule inj_onI)
    fix i j
    assume "i \<in> {..<NBUF}" "j \<in> {..<NBUF}" "?f i = ?f j"
    then show "i = j" using uniqD [OF bio_invD(3) [OF assms(1)], of i j] dev by simp
  qed
  moreover have "?f ` {..<NBUF} \<subseteq> bheld s \<union> bpinned s"
    using all dev by (force simp: bheld_def bpinned_def holds_def pins_def)
  ultimately have "card {..<NBUF} \<le> card (bheld s \<union> bpinned s)"
    by (intro card_inj_on_le [of ?f]) (auto simp: in_use_finite)
  with assms(2) show False by simp
qed

text \<open>What \<^verbatim>\<open>bread\<close> does to the buffer it returns.\<close>

lemma bread_buf:
  assumes "bio_inv s" and "b < disksize s" and "b \<notin> bheld s" and "b \<in> bpinned s \<or> card (bheld s \<union> bpinned s) < NBUF"
  shows "\<exists>i x. bread 1 b s = Inr (i, s\<lparr>bufs := (bufs s)[i := x]\<rparr>) \<and> fits s i x \<and> b_dev x = 1 \<and> b_blockno x = b \<and>
    sl_locked (b_lock x) \<and> b_data x = bcur s b \<and> (b_dirty x \<longleftrightarrow> b \<in> bpinned s) \<and>
    \<not> sl_locked (b_lock (bufs s ! i)) \<and>
    (b_dev (bufs s ! i) = 1 \<longrightarrow> b_blockno (bufs s ! i) = b \<or> \<not> b_dirty (bufs s ! i))"
proof (cases "\<exists>i < NBUF. b_dev (bufs s ! i) = 1 \<and> b_blockno (bufs s ! i) = b")
  case True
  then obtain i where i: "i < NBUF" "b_dev (bufs s ! i) = 1" "b_blockno (bufs s ! i) = b" by blast
  have nl: "\<not> sl_locked (b_lock (bufs s ! i))" using assms(3) i by (auto simp: bheld_def holds_def)
  note inv = bio_invD [OF assms(1)]
  let ?x = "(bufs s ! i)\<lparr>b_refcnt := 1, b_lock := \<lparr>sl_locked = True, sl_pid = mypid s\<rparr>\<rparr>"
  have v: "b_valid (bufs s ! i)" using inv(4) [OF i(1)] i by (simp add: buf_ok_def)
  have "bread 1 b s = Inr (i, s\<lparr>bufs := (bufs s)[i := ?x]\<rparr>)"
    using bget_hit [OF assms(1) i nl] v inv(2) i(1) by (simp add: bread_def)
  moreover have "fits s i ?x"
    by (rule fits_same_key [OF assms(1) i(1)]) (use inv(4) [OF i(1)] i in \<open>simp_all add: buf_ok_def\<close>)
  moreover have "b_data ?x = bcur s b" using caches_Some [OF inv(3,2) i] by (simp add: bcur_def)
  moreover have "j = i" if "pins s j b" for j using uniqD [OF inv(3) i(1), of j] that i by (simp add: pins_def)
  then have "b_dirty ?x \<longleftrightarrow> b \<in> bpinned s" using i by (auto simp: bpinned_def pins_def)
  ultimately show ?thesis using i nl by (intro exI [of _ i] exI [of _ ?x]) simp
next
  case False
  then have nc: "\<not> (b_dev (bufs s ! i) = 1 \<and> b_blockno (bufs s ! i) = b)" if "i < NBUF" for i using that by blast
  then have np: "b \<notin> bpinned s" by (auto simp: bpinned_def pins_def)
  note inv = bio_invD [OF assms(1)]
  obtain k where k: "k < NBUF" "\<not> sl_locked (b_lock (bufs s ! k))" "\<not> b_dirty (bufs s ! k)"
    using room [OF assms(1)] assms(4) np by blast
  let ?y = "\<lambda>i. (bufs s ! i)\<lparr>b_dev := 1, b_blockno := b, b_valid := False, b_dirty := False, b_refcnt := 1,
      b_lock := \<lparr>sl_locked = True, sl_pid = mypid s\<rparr>\<rparr>"
  from bget_miss [OF assms(1) nc k] obtain i where
    i: "i < NBUF" "\<not> sl_locked (b_lock (bufs s ! i))" "\<not> b_dirty (bufs s ! i)"
      "bget 1 b s = Inr (i, s\<lparr>bufs := (bufs s)[i := ?y i]\<rparr>)" by blast
  let ?s = "s\<lparr>bufs := (bufs s)[i := ?y i]\<rparr>"
  let ?x = "(?y i)\<lparr>b_data := memdisk s ! unat b, b_valid := True\<rparr>"
  have bn: "unat b < length (memdisk s)" using assms(2) inv(5) by (simp add: word_less_nat_alt)
  have "holdingsleep (buf_lk i) ?s = Inr (True, ?s)"
    using buf_lock.holdingsleep_eq [of ?s i] inv(1,2) i(1) by simp
  then have "iderw i ?s = Inr (s\<lparr>bufs := (bufs s)[i := ?x]\<rparr>)"
    using i(1) inv(2) linorder_not_le [THEN iffD2, OF assms(2)] by (simp add: iderw_def Let_def)
  then have "bread 1 b s = Inr (i, s\<lparr>bufs := (bufs s)[i := ?x]\<rparr>)" using i(1,4) inv(2) by (simp add: bread_def)
  moreover have "fits s i ?x"
    using i(1) bn inv(6) nc by (auto simp: fits_def buf_ok_def)
  moreover have "caches (bufs s) b = None" using nc caches_iff [OF inv(3,2), of b] by (cases "caches (bufs s) b") auto
  then have "b_data ?x = bcur s b" by (simp add: bcur_def)
  ultimately show ?thesis using i np by (intro exI [of _ i] exI [of _ ?x]) simp
qed

lemma bread_ok:
  assumes "bio_inv s" and "b < disksize s" and "b \<notin> bheld s" and "b \<in> bpinned s \<or> card (bheld s \<union> bpinned s) < NBUF"
  shows "\<exists>i t. bread 1 b s = Inr (i, t) \<and> bio_inv t \<and> holds t i b \<and> (\<forall>j c. holds s j c \<longrightarrow> holds t j c) \<and>
    bcur t = bcur s \<and> bdsk t = bdsk s \<and> bheld t = insert b (bheld s) \<and> bpinned t = bpinned s \<and>
    brest t = brest s \<and> dwrites t = dwrites s"
proof -
  obtain i x where r: "bread 1 b s = Inr (i, s\<lparr>bufs := (bufs s)[i := x]\<rparr>)" and f: "fits s i x"
    and x: "b_dev x = 1" "b_blockno x = b" "sl_locked (b_lock x)" "b_data x = bcur s b" "b_dirty x \<longleftrightarrow> b \<in> bpinned s"
    and o: "\<not> sl_locked (b_lock (bufs s ! i))"
      "b_dev (bufs s ! i) = 1 \<longrightarrow> b_blockno (bufs s ! i) = b \<or> \<not> b_dirty (bufs s ! i)"
    using bread_buf [OF assms] by blast
  let ?t = "s\<lparr>bufs := (bufs s)[i := x]\<rparr>"
  note inv = bio_invD [OF assms(1)]
  have i: "i < NBUF" using f by (simp add: fits_def)
  have ho: "holds ?t j c \<longleftrightarrow> holds s j c \<or> j = i \<and> c = b" for j c
    unfolding holds_set [OF inv(2)] using i x o(1) by (auto simp: holds_def)
  have "pins ?t j c \<longleftrightarrow> (if j = i then c = b \<and> b \<in> bpinned s else pins s j c)" for j c
    unfolding pins_set [OF inv(2)] using i x by auto
  moreover have "c = b \<and> b \<in> bpinned s" if "pins s i c" for c using that o(2) by (auto simp: bpinned_def pins_def)
  ultimately have "bpinned ?t = bpinned s" unfolding bpinned_def by auto metis+
  moreover have "bcur ?t c = bcur s c" for c
  proof (cases "c = b")
    case False
    show ?thesis
    proof (cases "b_dev (bufs s ! i) = 1 \<and> b_blockno (bufs s ! i) = c")
      case True
      then have "bcur s c = b_data (bufs s ! i)" using caches_Some [OF inv(3,2) i] by (simp add: bcur_def)
      then show ?thesis using False True o inv(4) [OF i] x by (auto simp: bcur_set [OF assms(1) f] buf_ok_def)
    qed (use False x in \<open>auto simp: bcur_set [OF assms(1) f]\<close>)
  qed (use x in \<open>simp add: bcur_set [OF assms(1) f]\<close>)
  moreover have "bheld ?t = insert b (bheld s)" using ho by (auto simp: bheld_def)
  ultimately show ?thesis
    using r ho set_buf_inv [OF assms(1) f] by (intro exI [of _ i] exI [of _ ?t]) (simp add: bdsk_def fun_eq_iff)
qed

lemma quiet_bio:
  assumes "quiet t = quiet s"
  shows "bufs t = bufs s" "memdisk t = memdisk s" "disksize t = disksize s" "dwrites t = dwrites s" "brest t = brest s"
proof -
  show "bufs t = bufs s" "memdisk t = memdisk s" "disksize t = disksize s" "dwrites t = dwrites s"
    by (subst quiet_frame [OF assms], simp)+
  show "brest t = brest s" using assms by (simp add: brest_def)
qed

text \<open>The order of the buffers is invisible.\<close>

lemma same_core_nth:
  assumes "same_core bs cs" "i < length cs"
  shows "b_valid (bs ! i) = b_valid (cs ! i)" "b_dirty (bs ! i) = b_dirty (cs ! i)" "b_dev (bs ! i) = b_dev (cs ! i)"
    "b_blockno (bs ! i) = b_blockno (cs ! i)" "b_lock (bs ! i) = b_lock (cs ! i)" "b_refcnt (bs ! i) = b_refcnt (cs ! i)"
    "b_data (bs ! i) = b_data (cs ! i)"
proof -
  have "bcore (bs ! i) = bcore (cs ! i)" using assms by (simp add: same_core_def)
  note c = bcoreD [OF this]
  show "b_valid (bs ! i) = b_valid (cs ! i)" "b_dirty (bs ! i) = b_dirty (cs ! i)" "b_dev (bs ! i) = b_dev (cs ! i)"
    "b_blockno (bs ! i) = b_blockno (cs ! i)" "b_lock (bs ! i) = b_lock (cs ! i)" "b_refcnt (bs ! i) = b_refcnt (cs ! i)"
    "b_data (bs ! i) = b_data (cs ! i)" by (fact c)+
qed

lemma bio_inv_core:
  assumes inv: "bio_inv s" and "in_proc t" "mypid t = mypid s" and core: "same_core (bufs t) (bufs s)" and "linked (bufs t) ys"
    and d: "memdisk t = memdisk s" "disksize t = disksize s"
  shows "bio_inv t \<and> holds t = holds s \<and> pins t = pins s \<and> bcur t = bcur s \<and> bdsk t = bdsk s"
proof -
  note i = bio_invD [OF inv]
  have n: "b_valid (bufs t ! k) = b_valid (bufs s ! k)" "b_dirty (bufs t ! k) = b_dirty (bufs s ! k)"
    "b_dev (bufs t ! k) = b_dev (bufs s ! k)" "b_blockno (bufs t ! k) = b_blockno (bufs s ! k)"
    "b_lock (bufs t ! k) = b_lock (bufs s ! k)" "b_refcnt (bufs t ! k) = b_refcnt (bufs s ! k)"
    "b_data (bufs t ! k) = b_data (bufs s ! k)" if "k < NBUF" for k
    using same_core_nth [OF core, of k] that i(2) by simp_all
  have u: "uniq (bufs t)" using i(3) n(3,4) unfolding uniq_def by simp
  have "buf_ok (mypid t) (memdisk t) (bufs t ! k)" if "k < NBUF" for k
    using i(4) [OF that] n [OF that] assms(3) d by (simp add: buf_ok_def)
  then have it: "bio_inv t" using assms u i(5,6) unfolding bio_inv_def by auto
  have hp: "holds t = holds s" "pins t = pins s" using n by (auto simp: holds_def pins_def fun_eq_iff)
  have "caches (bufs t) b = caches (bufs s) b" for b
  proof -
    have "caches (bufs t) b = Some j \<longleftrightarrow> caches (bufs s) b = Some j" for j
      unfolding caches_iff [OF i(3,2)] caches_iff [OF bio_invD(3,2) [OF it]] using n by auto
    then show ?thesis by (metis option.exhaust)
  qed
  moreover have "b_data (bufs t ! j) = b_data (bufs s ! j)" if "caches (bufs s) b = Some j" for b j
    using that n(7) by (simp add: caches_iff [OF i(3,2)])
  ultimately have "bcur t b = bcur s b" for b using d by (simp add: bcur_def split: option.split)
  then show ?thesis using it d hp by (simp add: bdsk_def fun_eq_iff)
qed

lemma brelse_ok:
  assumes "bio_inv s" and "holds s i b" and "b \<in> bpinned s \<or> bcur s b = bdsk s b"
  shows "\<exists>t. brelse i s = Inr t \<and> bio_inv t \<and> (\<forall>j c. c \<noteq> b \<longrightarrow> holds s j c \<longrightarrow> holds t j c) \<and>
    bcur t = bcur s \<and> bdsk t = bdsk s \<and> bheld t = bheld s - {b} \<and> bpinned t = bpinned s \<and>
    brest t = brest s \<and> dwrites t = dwrites s"
proof -
  note inv = bio_invD [OF assms(1)]
  have h: "i < NBUF" "b_dev (bufs s ! i) = 1" "b_blockno (bufs s ! i) = b" "sl_locked (b_lock (bufs s ! i))"
    using assms(2) by (auto simp: holds_def)
  have ok: "buf_ok (mypid s) (memdisk s) (bufs s ! i)" by (rule inv(4) [OF h(1)])
  let ?n = "\<lparr>sl_locked = False, sl_pid = 0\<rparr>"
  let ?l = "(bufs s ! i)\<lparr>b_lock := ?n\<rparr>" and ?x = "(bufs s ! i)\<lparr>b_lock := ?n, b_refcnt := 0\<rparr>"
  let ?s = "s\<lparr>bufs := (bufs s)[i := ?x]\<rparr>"
  have "j = i" if "pins s j b" for j using uniqD [OF inv(3) h(1), of j] that h by (simp add: pins_def)
  then have dirty: "b \<in> bpinned s \<longleftrightarrow> b_dirty (bufs s ! i)" using h by (auto simp: bpinned_def pins_def)
  have f: "fits s i ?x"
    by (rule fits_same_key [OF assms(1) h(1)])
      (use ok h assms(3) dirty holds_cur [OF assms(1,2)] in \<open>auto simp: buf_ok_def bdsk_def\<close>)
  note s1 = set_buf_inv [OF assms(1) f]
  obtain u where u: "releasesleep (buf_lk i) s = Inr u" "quiet u = quiet (s\<lparr>bufs := (bufs s)[i := ?l]\<rparr>)" "in_proc u"
    using buf_lock.releasesleep_ok [OF inv(1), of i] by (auto simp: upd_buf_def)
  note q = quiet_bio [OF u(2)]
  have len: "length (bufs u) = Suc NBUF" "held u = {}" using q(1) inv(2) u(3) by (simp_all add: in_proc_def)
  let ?u = "u\<lparr>held := {L_bcache}, bufs := (bufs s)[i := ?x]\<rparr>"
  obtain xs where "linked (bufs s) xs" using assms(1) by (auto simp: bio_inv_def)
  then have "linked (bufs ?u) xs" using linked_upd [of "bufs s" xs ?x i] by simp
  then obtain bs ys where bs: "lru_link i (lru_unlink i ?u) = ?u\<lparr>bufs := bs\<rparr>" "linked bs ys" "same_core bs (bufs ?u)"
    using lru_touch h(1) by blast
  let ?t = "u\<lparr>bufs := bs\<rparr>"
  have ref: "b_refcnt (bufs s ! i) = 1" using ok h by (simp add: buf_ok_def)
  have up: "upd_buf i (\<lambda>b. b\<lparr>b_refcnt := b_refcnt b - 1\<rparr>) (u\<lparr>held := {L_bcache}\<rparr>) = ?u"
    using q(1) h(1) inv(2) ref by (simp add: upd_buf_def)
  have tl: "u\<lparr>bufs := bs, held := {}\<rparr> = ?t" using len(2) by (cases u) simp
  have a: "acquire L_bcache u = Inr (u\<lparr>held := {L_bcache}\<rparr>)" using len(2) by simp
  have r0: "b_refcnt (bufs ?u ! i) = 0" using h(1) inv(2) by simp
  have rl: "release L_bcache (?u\<lparr>bufs := bs\<rparr>) = Inr ?t" using tl by simp
  have "brelse i s = Inr ?t"
    by (simp only: brelse_def holds_mine [OF assms(1,2)] bindE_simps prod.case u(1) a Let_def up r0 bs(1) rl
        if_True if_False not_True_eq_False refl [of "0 :: u32", THEN eqTrueI])
  moreover have "bio_inv ?t \<and> holds ?t = holds ?s \<and> pins ?t = pins ?s \<and> bcur ?t = bcur ?s \<and> bdsk ?t = bdsk ?s"
  proof (rule bio_inv_core [OF s1])
    have "quiet ?t = quiet (s\<lparr>bufs := bs\<rparr>)" using u(2) unfolding quiet_def by (cases u, cases s) simp
    moreover have "sinv {} {} s" using inv(1) by (simp add: in_proc_def)
    then have "sinv {} {} (s\<lparr>bufs := bs\<rparr>)" by (subst sinv_cong) simp_all
    ultimately show "mypid ?t = mypid ?s" using mypid_quiet by fastforce
  qed (use u(3) bs q in simp_all)
  moreover have "bcur ?s c = bcur s c" for c
    using h holds_cur [OF assms(1,2)] by (auto simp: bcur_set [OF assms(1) f])
  moreover have ho: "holds ?s j c \<longleftrightarrow> holds s j c \<and> j \<noteq> i" for j c unfolding holds_set [OF inv(2)] by (simp add: holds_def)
  then have "bheld ?s = bheld s - {b}"
    using holds_unique [OF assms(1,2)] h(2,3) by (auto simp: bheld_def holds_def)
  moreover have "pins ?s = pins s" unfolding pins_set [OF inv(2)] using h by (auto simp: pins_set [OF inv(2)] pins_def fun_eq_iff)
  moreover have "brest ?t = brest s" "dwrites ?t = dwrites s" using q by simp_all
  ultimately show ?thesis
    using h ho by (intro exI [of _ ?t]) (auto simp: bheld_def bpinned_def bdsk_def fun_eq_iff holds_def)
qed

section \<open>The cache implements the store\<close>

definition bio_view :: "'a bstate_scheme \<Rightarrow> 'a bstate_scheme bview" where
  "bio_view s = \<lparr>v_cur = bcur s, v_dsk = bdsk s, v_held = bheld s, v_pin = bpinned s, v_hist = dwrites s,
     v_rest = brest s\<rparr>"

lemma bio_view_simps [simp]:
  "v_cur (bio_view s) = bcur s" "v_dsk (bio_view s) = bdsk s" "v_held (bio_view s) = bheld s"
  "v_pin (bio_view s) = bpinned s" "v_hist (bio_view s) = dwrites s" "v_rest (bio_view s) = brest s"
  by (simp_all add: bio_view_def)

lemma disksize_brest [simp]: "disksize (brest s) = disksize s"
  by (simp add: brest_def quiet_def)

interpretation bio: block_store bio_inv bio_view holds disksize NBUF BSIZE "bread 1" "\<lambda>s i. b_data (bufs s ! i)"
  put_data pin bwrite brelse
proof unfold_locales
  fix s :: "'a bstate_scheme" and b :: u32
  assume a: "bio_inv s" "b < disksize (v_rest (bio_view s))" "b \<notin> v_held (bio_view s)"
    "b \<in> v_pin (bio_view s) \<or> card (v_held (bio_view s) \<union> v_pin (bio_view s)) < NBUF"
  from bread_ok [OF a(1)] a(2-4) show "\<exists>i t. bread 1 b s = Inr (i, t) \<and> bio_inv t \<and> holds t i b \<and>
      (\<forall>j c. holds s j c \<longrightarrow> holds t j c) \<and> bio_view t = a_read b (bio_view s)"
    unfolding bio_view_def a_read_def by simp metis
next
  fix s :: "'a bstate_scheme" and i b and d :: "u8 list"
  assume a: "bio_inv s" "holds s i b"
  show "b_data (bufs s ! i) = v_cur (bio_view s) b" using holds_cur [OF a] by simp
  show "bio_inv (put_data i d s) \<and> holds (put_data i d s) = holds s \<and> bio_view (put_data i d s) = a_put b d (bio_view s)"
    if "length d = BSIZE"
    using put_data_ok [OF a that] unfolding bio_view_def a_put_def by simp
  show "bio_inv (pin i s) \<and> holds (pin i s) = holds s \<and> bio_view (pin i s) = a_pin b (bio_view s)"
    using pin_ok [OF a] unfolding bio_view_def a_pin_def by simp
  show "\<exists>t. bwrite i s = Inr t \<and> bio_inv t \<and> holds t = holds s \<and> bio_view t = a_write b (bio_view s)"
    using bwrite_ok [OF a] unfolding bio_view_def a_write_def by simp metis
  show "\<exists>t. brelse i s = Inr t \<and> bio_inv t \<and> (\<forall>j c. c \<noteq> b \<longrightarrow> holds s j c \<longrightarrow> holds t j c) \<and>
      bio_view t = a_release b (bio_view s)" if "b \<in> v_pin (bio_view s) \<or> v_cur (bio_view s) b = v_dsk (bio_view s) b"
    using brelse_ok [OF a] that unfolding bio_view_def a_release_def by simp metis
next
  fix s :: "'a bstate_scheme" and b
  assume a: "bio_inv s"
  show "v_cur (bio_view s) b = v_dsk (bio_view s) b" if "b \<notin> v_held (bio_view s)" "b \<notin> v_pin (bio_view s)"
    using bcur_clean [OF a] that by simp
  show "finite (v_held (bio_view s) \<union> v_pin (bio_view s))" by (simp add: in_use_finite)
  show "length (v_cur (bio_view s) b) = BSIZE" if "b < disksize (v_rest (bio_view s))" using bcur_length [OF a] that by simp
qed

section \<open>Initialisation\<close>

definition unlocked :: "buf \<Rightarrow> buf" where
  "unlocked b = b\<lparr>b_lock := \<lparr>sl_locked = False, sl_pid = 0\<rparr>\<rparr>"

lemma bcore_unlocked: "bcore b = bcore c \<Longrightarrow> bcore (unlocked b) = bcore (unlocked c)"
  by (cases b, cases c) (simp add: bcore_def unlocked_def)

lemma binit_loop:
  assumes "length (bufs s) = Suc NBUF" and "n \<le> NBUF"
  shows "\<exists>bs. fold (\<lambda>i s. lru_link i (initsleeplock (buf_lk i) s)) [0..<n]
      (upd_buf HEAD (\<lambda>b. b\<lparr>b_prev := HEAD, b_next := HEAD\<rparr>) s) = s\<lparr>bufs := bs\<rparr> \<and> length bs = Suc NBUF \<and>
    ring (\<lambda>j. b_next (bs ! j)) (\<lambda>j. b_prev (bs ! j)) HEAD (rev [0..<n]) \<and>
    (\<forall>i < NBUF. bcore (bs ! i) = bcore (if i < n then unlocked (bufs s ! i) else bufs s ! i))"
  using assms(2)
proof (induction n)
  case 0
  let ?bs = "(bufs s)[HEAD := (bufs s ! HEAD)\<lparr>b_prev := HEAD, b_next := HEAD\<rparr>]"
  show ?case using assms(1) by (intro exI [of _ ?bs]) (auto simp: upd_buf_def ring_def nth_upd)
next
  case (Suc n)
  then obtain bs where bs: "fold (\<lambda>i s. lru_link i (initsleeplock (buf_lk i) s)) [0..<n]
      (upd_buf HEAD (\<lambda>b. b\<lparr>b_prev := HEAD, b_next := HEAD\<rparr>) s) = s\<lparr>bufs := bs\<rparr>" "length bs = Suc NBUF"
    "ring (\<lambda>j. b_next (bs ! j)) (\<lambda>j. b_prev (bs ! j)) HEAD (rev [0..<n])"
    "\<forall>i < NBUF. bcore (bs ! i) = bcore (if i < n then unlocked (bufs s ! i) else bufs s ! i)" by auto
  let ?u = "s\<lparr>bufs := bs[n := unlocked (bs ! n)]\<rparr>"
  have u: "initsleeplock (buf_lk n) (s\<lparr>bufs := bs\<rparr>) = ?u" by (simp add: initsleeplock_def unlocked_def)
  have "(\<lambda>j. b_next (bufs ?u ! j)) = (\<lambda>j. b_next (bs ! j))" "(\<lambda>j. b_prev (bufs ?u ! j)) = (\<lambda>j. b_prev (bs ! j))"
    by (auto simp: fun_eq_iff nth_upd unlocked_def)
  moreover have "set (rev [0..<n]) \<subseteq> {..<NBUF}" using Suc.prems by auto
  ultimately obtain cs where cs: "lru_link n ?u = s\<lparr>bufs := cs\<rparr>" "length cs = Suc NBUF" "same_core cs (bufs ?u)"
    "ring (\<lambda>j. b_next (cs ! j)) (\<lambda>j. b_prev (cs ! j)) HEAD (n # rev [0..<n])"
    using link_ring [of ?u "rev [0..<n]" n] bs(2,3) Suc.prems by auto
  have "bcore (cs ! i) = bcore (if i < Suc n then unlocked (bufs s ! i) else bufs s ! i)" if "i < NBUF" for i
    using cs(3) bs(2,4) that bcore_unlocked [of "bs ! n" "bufs s ! n"] by (auto simp: same_core_def nth_upd less_Suc_eq)
  with cs bs(1) u show ?case by auto
qed

text \<open>The state of a buffer before \<^verbatim>\<open>binit\<close>: static storage, all zero.\<close>

definition fresh_buf :: "buf \<Rightarrow> bool" where
  "fresh_buf b \<longleftrightarrow> \<not> b_valid b \<and> \<not> b_dirty b \<and> b_dev b = 0 \<and> b_refcnt b = 0"

lemma binit_ok:
  assumes "length (bufs s) = Suc NBUF" "\<forall>b \<in> set (bufs s). fresh_buf b" and "in_proc s"
    and "length (memdisk s) = unat (disksize s)" "\<forall>d \<in> set (memdisk s). length d = BSIZE"
  shows "bio_inv (binit s) \<and> bheld (binit s) = {} \<and> bpinned (binit s) = {} \<and> bcur (binit s) = bdsk s \<and>
    bdsk (binit s) = bdsk s \<and> brest (binit s) = brest s \<and> dwrites (binit s) = dwrites s"
proof -
  obtain bs where bs: "binit s = s\<lparr>bufs := bs\<rparr>" "length bs = Suc NBUF"
    "ring (\<lambda>j. b_next (bs ! j)) (\<lambda>j. b_prev (bs ! j)) HEAD (rev [0..<NBUF])"
    "\<forall>i < NBUF. bcore (bs ! i) = bcore (unlocked (bufs s ! i))"
    using binit_loop [OF assms(1) order.refl] by (auto simp: binit_def Let_def)
  have f: "\<not> b_valid (bs ! i)" "\<not> b_dirty (bs ! i)" "b_dev (bs ! i) = 0" "b_refcnt (bs ! i) = 0"
    "\<not> sl_locked (b_lock (bs ! i))" if i: "i < NBUF" for i
  proof -
    have "fresh_buf (bufs s ! i)" using assms(1,2) i by simp
    then show "\<not> b_valid (bs ! i)" "\<not> b_dirty (bs ! i)" "b_dev (bs ! i) = 0" "b_refcnt (bs ! i) = 0"
      "\<not> sl_locked (b_lock (bs ! i))"
      using bcoreD [OF bs(4) [rule_format, OF i]] by (auto simp: fresh_buf_def unlocked_def)
  qed
  have "linked bs (rev [0..<NBUF])" using bs(2,3) by (auto simp: linked_def)
  moreover have "uniq bs" using f(3) by (auto simp: uniq_def)
  moreover have "buf_ok p d (bs ! i)" if "i < NBUF" for p d i using f [OF that] by (simp add: buf_ok_def)
  ultimately have inv: "bio_inv (binit s)" using assms(3-5) bs(1) unfolding bio_inv_def by auto
  moreover have "bheld (binit s) = {}" "bpinned (binit s) = {}"
    using f by (auto simp: bs(1) bheld_def bpinned_def holds_def pins_def)
  moreover from this have "bcur (binit s) = bdsk (binit s)" using bcur_clean [OF inv] by auto
  moreover have "bdsk (binit s) = bdsk s" by (simp add: bs(1) bdsk_def fun_eq_iff)
  ultimately show ?thesis by (simp add: bs(1))
qed

end
