(* ===== verification/Disk_Format.thy ===== *)
theory Disk_Format
  imports Xv6_Prelude
begin

text \<open>
  Bytes and structures on disk (\<^verbatim>\<open>fs.h\<close>). The kernel overlays C structures on the data of a buffer; here a structure is
  read from and written into a list of bytes at an offset, least significant byte first as on the
  machine. Reading a structure gives back what was written, and leaves other offsets alone.
\<close>

section \<open>Parts of a block\<close>

definition part :: "nat \<Rightarrow> nat \<Rightarrow> 'a list \<Rightarrow> 'a list" where
  "part off n d = take n (drop off d)"

definition patch :: "nat \<Rightarrow> 'a list \<Rightarrow> 'a list \<Rightarrow> 'a list" where
  "patch off xs d = take off d @ xs @ drop (off + length xs) d"

lemma length_part [simp]: "off + n \<le> length d \<Longrightarrow> length (part off n d) = n"
  by (simp add: part_def)

lemma nth_part: "off + n \<le> length d \<Longrightarrow> i < n \<Longrightarrow> part off n d ! i = d ! (off + i)"
  unfolding part_def by (subst nth_take) (auto intro!: nth_drop)

lemma length_patch [simp]: "off + length xs \<le> length d \<Longrightarrow> length (patch off xs d) = length d"
  by (simp add: patch_def)

lemma nth_patch:
  assumes "off + length xs \<le> length d"
  shows "patch off xs d ! i = (if off \<le> i \<and> i < off + length xs then xs ! (i - off) else d ! i)"
proof (cases "i < off")
  case True
  then show ?thesis using assms by (simp add: patch_def nth_append)
next
  case False
  then show ?thesis using assms by (auto simp: patch_def nth_append less_diff_conv2)
qed

lemma part_eqI:
  "off + n \<le> length d \<Longrightarrow> off' + n \<le> length d' \<Longrightarrow> (\<And>i. i < n \<Longrightarrow> d ! (off + i) = d' ! (off' + i)) \<Longrightarrow>
   part off n d = part off' n d'"
  by (intro nth_equalityI) (simp_all add: nth_part)

lemma part_patch [simp]: "off + length xs \<le> length d \<Longrightarrow> part off (length xs) (patch off xs d) = xs"
  by (intro nth_equalityI) (simp_all add: nth_part nth_patch)

lemma part_patch_other:
  assumes "off + length xs \<le> length d" "p + n \<le> length d" "p + n \<le> off \<or> off + length xs \<le> p"
  shows "part p n (patch off xs d) = part p n d"
  using assms by (intro part_eqI) (auto simp: nth_patch)

section \<open>Integers\<close>

definition bytes16 :: "u16 \<Rightarrow> u8 list" where
  "bytes16 v = [ucast v, ucast (drop_bit 8 v)]"

definition word16 :: "u8 list \<Rightarrow> u16" where
  "word16 bs = ucast (bs ! 0) OR push_bit 8 (ucast (bs ! 1))"

definition bytes32 :: "u32 \<Rightarrow> u8 list" where
  "bytes32 v = [ucast v, ucast (drop_bit 8 v), ucast (drop_bit 16 v), ucast (drop_bit 24 v)]"

definition word32 :: "u8 list \<Rightarrow> u32" where
  "word32 bs = ucast (bs ! 0) OR push_bit 8 (ucast (bs ! 1)) OR
     push_bit 16 (ucast (bs ! 2)) OR push_bit 24 (ucast (bs ! 3))"

definition get16 :: "nat \<Rightarrow> u8 list \<Rightarrow> u16" where "get16 off d = word16 (part off 2 d)"
definition put16 :: "nat \<Rightarrow> u16 \<Rightarrow> u8 list \<Rightarrow> u8 list" where "put16 off v = patch off (bytes16 v)"
definition get32 :: "nat \<Rightarrow> u8 list \<Rightarrow> u32" where "get32 off d = word32 (part off 4 d)"
definition put32 :: "nat \<Rightarrow> u32 \<Rightarrow> u8 list \<Rightarrow> u8 list" where "put32 off v = patch off (bytes32 v)"

lemma length_bytes [simp]: "length (bytes16 v) = 2" "length (bytes32 w) = 4"
  by (simp_all add: bytes16_def bytes32_def)

lemma word16_bytes16 [simp]: "word16 (bytes16 v) = v"
proof (rule bit_word_eqI)
  fix n
  assume n: "n < LENGTH(16)"
  then consider "n < 8" | "8 \<le> n" by linarith
  then show "bit (word16 (bytes16 v)) n = bit v n"
    using n by cases (simp_all add: word16_def bytes16_def bit_simps less_diff_conv2)
qed

lemma word32_bytes32 [simp]: "word32 (bytes32 v) = v"
proof (rule bit_word_eqI)
  fix n
  assume n: "n < LENGTH(32)"
  then consider "n < 8" | "8 \<le> n" "n < 16" | "16 \<le> n" "n < 24" | "24 \<le> n" by linarith
  then show "bit (word32 (bytes32 v)) n = bit v n"
    using n by cases (simp_all add: word32_def bytes32_def bit_simps less_diff_conv2)
qed

lemma length_put [simp]: "off + 2 \<le> length d \<Longrightarrow> length (put16 off v d) = length d"
  "off + 4 \<le> length d \<Longrightarrow> length (put32 off w d) = length d"
  by (simp_all add: put16_def put32_def)

lemma get_put_same [simp]: "off + 2 \<le> length d \<Longrightarrow> get16 off (put16 off v d) = v"
  "off + 4 \<le> length d \<Longrightarrow> get32 off (put32 off w d) = w"
  using part_patch [of off "bytes16 v" d] part_patch [of off "bytes32 w" d]
  by (simp_all add: get16_def put16_def get32_def put32_def)

lemma get_put_other:
  "off + 4 \<le> length d \<Longrightarrow> p + 4 \<le> length d \<Longrightarrow> p + 4 \<le> off \<or> off + 4 \<le> p \<Longrightarrow> get32 p (put32 off w d) = get32 p d"
  "off + 4 \<le> length d \<Longrightarrow> p + 2 \<le> length d \<Longrightarrow> p + 2 \<le> off \<or> off + 4 \<le> p \<Longrightarrow> get16 p (put32 off w d) = get16 p d"
  "off + 2 \<le> length d \<Longrightarrow> p + 4 \<le> length d \<Longrightarrow> p + 4 \<le> off \<or> off + 2 \<le> p \<Longrightarrow> get32 p (put16 off v d) = get32 p d"
  "off + 2 \<le> length d \<Longrightarrow> p + 2 \<le> length d \<Longrightarrow> p + 2 \<le> off \<or> off + 2 \<le> p \<Longrightarrow> get16 p (put16 off v d) = get16 p d"
  by (simp_all add: get16_def put16_def get32_def put32_def part_patch_other)

section \<open>Arrays of integers\<close>

definition get32s :: "nat \<Rightarrow> nat \<Rightarrow> u8 list \<Rightarrow> u32 list" where
  "get32s off n d = map (\<lambda>k. get32 (off + 4 * k) d) [0..<n]"

fun put32s :: "nat \<Rightarrow> u32 list \<Rightarrow> u8 list \<Rightarrow> u8 list" where
  "put32s off [] d = d"
| "put32s off (v # vs) d = put32s (off + 4) vs (put32 off v d)"

lemma length_put32s [simp]: "off + 4 * length vs \<le> length d \<Longrightarrow> length (put32s off vs d) = length d"
  by (induction off vs d rule: put32s.induct) simp_all

lemma get32_put32s_below:
  "off + 4 * length vs \<le> length d \<Longrightarrow> p + 4 \<le> off \<Longrightarrow> get32 p (put32s off vs d) = get32 p d"
  by (induction off vs d rule: put32s.induct) (simp_all add: get_put_other)

lemma get16_put32s_below:
  "off + 4 * length vs \<le> length d \<Longrightarrow> p + 2 \<le> off \<Longrightarrow> get16 p (put32s off vs d) = get16 p d"
  by (induction off vs d rule: put32s.induct) (simp_all add: get_put_other)

lemma get32_put32s:
  "off + 4 * length vs \<le> length d \<Longrightarrow> k < length vs \<Longrightarrow> get32 (off + 4 * k) (put32s off vs d) = vs ! k"
proof (induction off vs d arbitrary: k rule: put32s.induct)
  case (2 off v vs d)
  show ?case
  proof (cases k)
    case 0
    then show ?thesis using 2 by (simp add: get32_put32s_below)
  next
    case (Suc j)
    with 2 show ?thesis by (simp add: algebra_simps)
  qed
qed simp

lemma get32s_put32s: "off + 4 * length vs \<le> length d \<Longrightarrow> get32s off (length vs) (put32s off vs d) = vs"
  by (intro nth_equalityI) (simp_all add: get32s_def get32_put32s)

section \<open>The super block\<close>

record superblock =
  sb_size :: u32
  sb_nblocks :: u32
  sb_ninodes :: u32
  sb_nlog :: u32
  sb_logstart :: u32
  sb_inodestart :: u32
  sb_bmapstart :: u32

definition get_superblock :: "u8 list \<Rightarrow> superblock" where
  "get_superblock d = \<lparr>sb_size = get32 0 d, sb_nblocks = get32 4 d, sb_ninodes = get32 8 d, sb_nlog = get32 12 d,
     sb_logstart = get32 16 d, sb_inodestart = get32 20 d, sb_bmapstart = get32 24 d\<rparr>"

definition put_superblock :: "superblock \<Rightarrow> u8 list \<Rightarrow> u8 list" where
  "put_superblock sb = put32s 0 [sb_size sb, sb_nblocks sb, sb_ninodes sb, sb_nlog sb, sb_logstart sb, sb_inodestart sb,
     sb_bmapstart sb]"

section \<open>Inodes\<close>

definition NDIRECT :: nat where "NDIRECT = 12"
definition NINDIRECT :: nat where "NINDIRECT = 128"
definition MAXFILE :: nat where "MAXFILE = NDIRECT + NINDIRECT"
definition IPB :: nat where "IPB = 8"
definition DINODE_SIZE :: nat where "DINODE_SIZE = 64"

record dinode =
  di_type :: u16
  di_major :: u16
  di_minor :: u16
  di_nlink :: u16
  di_size :: u32
  di_addrs :: "u32 list"

definition get_dinode :: "nat \<Rightarrow> u8 list \<Rightarrow> dinode" where
  "get_dinode off d = \<lparr>di_type = get16 off d, di_major = get16 (off + 2) d, di_minor = get16 (off + 4) d,
     di_nlink = get16 (off + 6) d, di_size = get32 (off + 8) d, di_addrs = get32s (off + 12) (NDIRECT + 1) d\<rparr>"

definition put_dinode :: "nat \<Rightarrow> dinode \<Rightarrow> u8 list \<Rightarrow> u8 list" where
  "put_dinode off i d =
     put32s (off + 12) (di_addrs i) (put32 (off + 8) (di_size i) (put16 (off + 6) (di_nlink i)
       (put16 (off + 4) (di_minor i) (put16 (off + 2) (di_major i) (put16 off (di_type i) d)))))"

section \<open>Directory entries\<close>

definition DIRSIZ :: nat where "DIRSIZ = 14"
definition DIRENT_SIZE :: nat where "DIRENT_SIZE = 16"

record dirent =
  de_inum :: u16
  de_name :: "u8 list"

definition get_dirent :: "u8 list \<Rightarrow> dirent" where
  "get_dirent d = \<lparr>de_inum = get16 0 d, de_name = part 2 DIRSIZ d\<rparr>"

definition put_dirent :: "dirent \<Rightarrow> u8 list" where
  "put_dirent e = bytes16 (de_inum e) @ de_name e"

lemma superblock_roundtrip: "28 \<le> length d \<Longrightarrow> get_superblock (put_superblock sb d) = sb"
  by (cases sb) (simp add: get_superblock_def put_superblock_def get_put_other)

lemma length_put_dinode [simp]:
  "off + DINODE_SIZE \<le> length d \<Longrightarrow> length (di_addrs i) = NDIRECT + 1 \<Longrightarrow> length (put_dinode off i d) = length d"
  by (simp add: put_dinode_def DINODE_SIZE_def NDIRECT_def)

lemma dinode_roundtrip:
  assumes "off + DINODE_SIZE \<le> length d" "length (di_addrs i) = NDIRECT + 1"
  shows "get_dinode off (put_dinode off i d) = i"
proof -
  note s = assms [unfolded DINODE_SIZE_def NDIRECT_def]
  have "get32s (off + 12) (NDIRECT + 1) (put_dinode off i d) = di_addrs i"
    unfolding put_dinode_def assms(2) [symmetric] by (rule get32s_put32s) (use s in simp)
  moreover have "get16 off (put_dinode off i d) = di_type i" "get16 (off + 2) (put_dinode off i d) = di_major i"
    "get16 (off + 4) (put_dinode off i d) = di_minor i" "get16 (off + 6) (put_dinode off i d) = di_nlink i"
    "get32 (off + 8) (put_dinode off i d) = di_size i"
    unfolding put_dinode_def using s by (simp_all add: get16_put32s_below get32_put32s_below get_put_other)
  ultimately show ?thesis by (simp add: get_dinode_def)
qed

lemma dirent_roundtrip: "length (de_name e) = DIRSIZ \<Longrightarrow> get_dirent (put_dirent e) = e"
  by (simp add: get_dirent_def put_dirent_def get16_def part_def)

end
