(* ===== verification/Log.thy ===== *)
theory Log
  imports Bio_Inv Disk_Format
begin

text \<open>
  The write-ahead log (\<^verbatim>\<open>log.c\<close>). \<^verbatim>\<open>log.lh.block\<close> is a list of \<^verbatim>\<open>LOGSIZE\<close> numbers; \<^verbatim>\<open>log.lh.n\<close> is an integer because
  recovery reads it from the disk. \<^verbatim>\<open>begin_op\<close> is one pass of its loop: it admits the operation or ends
  in the switch to the scheduler, and as a step of a system call a wait stops the run with \<^const>\<open>Blocked\<close>.
\<close>

record lstate = bstate +
  log_start :: u32
  log_size :: int
  log_outstanding :: int
  log_committing :: bool
  log_dev :: u32
  lh_n :: int
  lh_block :: "u32 list"

text \<open>\<^verbatim>\<open>readsb\<close> of \<^verbatim>\<open>fs.c\<close>.\<close>

definition readsb :: "u32 \<Rightarrow> 'a bstate_scheme \<Rightarrow> kerr + superblock \<times> 'a bstate_scheme" where
  "readsb dev s =
     bindE (bread dev 1 s) (\<lambda>(i, s).
     let sb = get_superblock (b_data (bufs s ! i)) in
     bindE (brelse i s) (\<lambda>s. Inr (sb, s)))"

definition install_one :: "nat \<Rightarrow> 'a lstate_scheme \<Rightarrow> kerr + 'a lstate_scheme" where
  "install_one tail s =
     bindE (bread (log_dev s) (log_start s + of_nat tail + 1) s) (\<lambda>(lbuf, s).
     bindE (bread (log_dev s) (lh_block s ! tail) s) (\<lambda>(dbuf, s).
     bindE (bwrite dbuf (put_data dbuf (b_data (bufs s ! lbuf)) s)) (\<lambda>s.
     bindE (brelse lbuf s) (brelse dbuf))))"

definition install_trans :: "'a lstate_scheme \<Rightarrow> kerr + 'a lstate_scheme" where
  "install_trans s = foldE install_one [0..<nat (lh_n s)] s"

text \<open>
  A header with more than \<^verbatim>\<open>LOGSIZE\<close> entries is copied past the end of \<^verbatim>\<open>log.lh.block\<close>.
\<close>

definition read_head :: "'a lstate_scheme \<Rightarrow> kerr + 'a lstate_scheme" where
  "read_head s =
     bindE (bread (log_dev s) (log_start s) s) (\<lambda>(i, s).
     let d = b_data (bufs s ! i); n = sint (get32 0 d) in
     if n > int LOGSIZE then Inl PageFault
     else brelse i (s\<lparr>lh_n := n, lh_block := get32s 4 (nat n) d @ drop (nat n) (lh_block s)\<rparr>))"

definition write_head :: "'a lstate_scheme \<Rightarrow> kerr + 'a lstate_scheme" where
  "write_head s =
     bindE (bread (log_dev s) (log_start s) s) (\<lambda>(i, s).
     let d = put32s 4 (take (nat (lh_n s)) (lh_block s)) (put32 0 (word_of_int (lh_n s)) (b_data (bufs s ! i))) in
     bindE (bwrite i (put_data i d s)) (brelse i))"

definition recover_from_log :: "'a lstate_scheme \<Rightarrow> kerr + 'a lstate_scheme" where
  "recover_from_log s =
     bindE (read_head s) (\<lambda>s.
     bindE (install_trans s) (\<lambda>s. write_head (s\<lparr>lh_n := 0\<rparr>)))"

definition initlog :: "u32 \<Rightarrow> 'a lstate_scheme \<Rightarrow> kerr + 'a lstate_scheme" where
  "initlog dev s =
     (if 4 + 4 * LOGSIZE \<ge> BSIZE then Inl (Panic ''initlog: too big logheader'')
      else
        bindE (readsb dev s) (\<lambda>(sb, s).
          recover_from_log (s\<lparr>log_start := sb_logstart sb, log_size := sint (sb_nlog sb), log_dev := dev\<rparr>)))"

definition begin_op_iter :: "'a lstate_scheme \<Rightarrow> kerr + bool \<times> 'a lstate_scheme" where
  "begin_op_iter s =
     (if log_committing s \<or> lh_n s + (log_outstanding s + 1) * int MAXOPBLOCKS > int LOGSIZE then
        bindE (sleep Ch_log (Some L_log) s) (\<lambda>s. Inr (False, s))
      else bindE (release L_log (s\<lparr>log_outstanding := log_outstanding s + 1\<rparr>)) (\<lambda>s. Inr (True, s)))"

definition begin_op_enter :: "'a lstate_scheme \<Rightarrow> kerr + bool \<times> 'a lstate_scheme" where
  "begin_op_enter s = bindE (acquire L_log s) begin_op_iter"

definition begin_op_resume :: "nat \<Rightarrow> 'a lstate_scheme \<Rightarrow> kerr + bool \<times> 'a lstate_scheme" where
  "begin_op_resume i s = bindE (sleep_exit i L_log s) begin_op_iter"

definition begin_op :: "'a lstate_scheme \<Rightarrow> kerr + 'a lstate_scheme" where
  "begin_op s = bindE (begin_op_enter s) (\<lambda>(go, s). if go then Inr s else Inl (Blocked Ch_log))"

definition write_log_one :: "nat \<Rightarrow> 'a lstate_scheme \<Rightarrow> kerr + 'a lstate_scheme" where
  "write_log_one tail s =
     bindE (bread (log_dev s) (log_start s + of_nat tail + 1) s) (\<lambda>(to, s).
     bindE (bread (log_dev s) (lh_block s ! tail) s) (\<lambda>(from, s).
     bindE (bwrite to (put_data to (b_data (bufs s ! from)) s)) (\<lambda>s.
     bindE (brelse from s) (brelse to))))"

definition write_log :: "'a lstate_scheme \<Rightarrow> kerr + 'a lstate_scheme" where
  "write_log s = foldE write_log_one [0..<nat (lh_n s)] s"

definition commit :: "'a lstate_scheme \<Rightarrow> kerr + 'a lstate_scheme" where
  "commit s =
     (if lh_n s > 0 then
        bindE (write_log s) (\<lambda>s.
        bindE (write_head s) (\<lambda>s.
        bindE (install_trans s) (\<lambda>s. write_head (s\<lparr>lh_n := 0\<rparr>))))
      else Inr s)"

definition end_op :: "'a lstate_scheme \<Rightarrow> kerr + 'a lstate_scheme" where
  "end_op s =
     bindE (acquire L_log s) (\<lambda>s.
     let s = s\<lparr>log_outstanding := log_outstanding s - 1\<rparr> in
     if log_committing s then Inl (Panic ''log.committing'')
     else
       (let do_commit = (log_outstanding s = 0) in
        bindE (if do_commit then Inr (s\<lparr>log_committing := True\<rparr>) else wakeup (Some Ch_log) s) (\<lambda>s.
        bindE (release L_log s) (\<lambda>s.
          if do_commit then
            bindE (commit s) (\<lambda>s.
            bindE (acquire L_log s) (\<lambda>s.
            bindE (wakeup (Some Ch_log) (s\<lparr>log_committing := False\<rparr>)) (release L_log)))
          else Inr s))))"

definition log_write :: "nat \<Rightarrow> 'a lstate_scheme \<Rightarrow> kerr + 'a lstate_scheme" where
  "log_write b s =
     (if lh_n s \<ge> int LOGSIZE \<or> lh_n s \<ge> log_size s - 1 then Inl (Panic ''too big a transaction'')
      else if log_outstanding s < 1 then Inl (Panic ''log_write outside of trans'')
      else
        bindE (acquire L_log s) (\<lambda>s.
        let n = nat (lh_n s); blk = b_blockno (bufs s ! b);
            i = (case scan (\<lambda>x. x = blk) 0 (take n (lh_block s)) of None \<Rightarrow> n | Some i \<Rightarrow> i);
            s = s\<lparr>lh_block := (lh_block s)[i := blk]\<rparr>;
            s = (if int i = lh_n s then s\<lparr>lh_n := lh_n s + 1\<rparr> else s)
        in release L_log (pin b s)))"

end
