(* ===== verification/Log_Inv.thy ===== *)
theory Log_Inv
  imports Log
begin

text \<open>
  What a transaction does to the disk. The steps of \<^verbatim>\<open>commit\<close> are followed on the view of the block store; the disk
  writes they make come in the order log blocks, header, home locations, empty header; recovery from any
  prefix of them leaves every home block as before the transaction or every one as after it.
\<close>

section \<open>The log's own fields\<close>

lemma more_log:
  assumes "bstate.more t = bstate.more s"
  shows "log_start t = log_start s" "log_size t = log_size s" "log_outstanding t = log_outstanding s"
    "log_committing t = log_committing s" "log_dev t = log_dev s" "lh_n t = lh_n s" "lh_block t = lh_block s"
  using assms by (cases s; cases t; simp)+

lemma acquiresleep_buf_more: "acquiresleep (buf_lk i) s = Inr t \<Longrightarrow> bstate.more t = bstate.more s"
  by (auto simp: acquiresleep_def acquiresleep_enter_def acquiresleep_iter_def acquire_Inr_iff release_Inr_iff upd_buf_def
      elim!: bindE_InrE split: if_splits option.splits)

lemma holdingsleep_more: "holdingsleep (buf_lk i) s = Inr (h, t) \<Longrightarrow> bstate.more t = bstate.more s"
  by (auto simp: holdingsleep_def acquire_Inr_iff release_Inr_iff elim!: bindE_InrE)

lemma iderw_more: "iderw i s = Inr t \<Longrightarrow> bstate.more t = bstate.more s"
  by (auto simp: iderw_def Let_def upd_buf_def dest!: holdingsleep_more elim!: bindE_InrE split: if_splits)

lemma bread_more: "bread dev b s = Inr (i, t) \<Longrightarrow> bstate.more t = bstate.more s"
  by (auto simp: bread_def bget_def acquire_Inr_iff release_Inr_iff upd_buf_def dest!: iderw_more acquiresleep_buf_more
      elim!: bindE_InrE split: option.splits if_splits)

lemma brest_log:
  assumes "brest t = brest s"
  shows "log_start t = log_start s" "log_size t = log_size s" "log_outstanding t = log_outstanding s"
    "log_committing t = log_committing s" "log_dev t = log_dev s" "lh_n t = lh_n s" "lh_block t = lh_block s"
    "disksize t = disksize s"
proof -
  have "bstate.more (brest t) = bstate.more (brest s)" using assms by simp
  then have m: "bstate.more t = bstate.more s" by (simp add: brest_def quiet_def)
  show "log_start t = log_start s" "log_size t = log_size s" "log_outstanding t = log_outstanding s"
    "log_committing t = log_committing s" "log_dev t = log_dev s" "lh_n t = lh_n s" "lh_block t = lh_block s"
    by (rule more_log [OF m])+
  show "disksize t = disksize s" using assms disksize_brest by metis
qed

lemma brest_lh_n: "brest (s\<lparr>lh_n := n\<rparr>) = (brest s)\<lparr>lh_n := n\<rparr>"
  by (simp add: brest_def quiet_def)

lemma bio_cong:
  assumes "bufs t = bufs s" "memdisk t = memdisk s" "disksize t = disksize s" "dwrites t = dwrites s"
    and "procs t = procs s" "queues t = queues s" "surplus_nodes t = surplus_nodes s" "cpu_proc t = cpu_proc s"
    "cpu_id t = cpu_id s" "held t = held s" "SCHEDULER t = SCHEDULER s"
  shows "bio_inv t = bio_inv s" "bcur t = bcur s" "bdsk t = bdsk s" "holds t = holds s" "bheld t = bheld s"
    "bpinned t = bpinned s"
proof -
  have "sinv {} {} t = sinv {} {} s" using assms by (intro sinv_cong) simp_all
  then have "in_proc t = in_proc s" "mypid t = mypid s" using assms by (simp_all add: in_proc_def mypid_def myproc_def split: option.split)
  with assms show "bio_inv t = bio_inv s" by (simp add: bio_inv_def)
  show "bcur t = bcur s" "bdsk t = bdsk s" "holds t = holds s" "bheld t = bheld s" "bpinned t = bpinned s"
    using assms by (simp_all add: bcur_def bdsk_def holds_def bheld_def bpinned_def pins_def fun_eq_iff split: option.split)
qed

lemma bio_log_upd [simp]:
  "bio_inv (s\<lparr>lh_n := n\<rparr>) = bio_inv s" "bcur (s\<lparr>lh_n := n\<rparr>) = bcur s" "bdsk (s\<lparr>lh_n := n\<rparr>) = bdsk s"
  "holds (s\<lparr>lh_n := n\<rparr>) = holds s" "bheld (s\<lparr>lh_n := n\<rparr>) = bheld s" "bpinned (s\<lparr>lh_n := n\<rparr>) = bpinned s"
  "bio_inv (s\<lparr>lh_block := bl\<rparr>) = bio_inv s" "bcur (s\<lparr>lh_block := bl\<rparr>) = bcur s" "bdsk (s\<lparr>lh_block := bl\<rparr>) = bdsk s"
  "holds (s\<lparr>lh_block := bl\<rparr>) = holds s" "bheld (s\<lparr>lh_block := bl\<rparr>) = bheld s"
  "bpinned (s\<lparr>lh_block := bl\<rparr>) = bpinned s"
  by (rule bio_cong; simp)+

section \<open>Sequences of disk writes\<close>

definition apply_writes :: "(u32 \<times> u8 list) list \<Rightarrow> (u32 \<Rightarrow> u8 list) \<Rightarrow> u32 \<Rightarrow> u8 list" where
  "apply_writes ws d = fold (\<lambda>(b, x) d. d(b := x)) ws d"

lemma apply_writes_simps [simp]:
  "apply_writes [] d = d" "apply_writes (w # ws) d = apply_writes ws (d(fst w := snd w))"
  "apply_writes (us @ ws) d = apply_writes ws (apply_writes us d)"
  by (simp_all add: apply_writes_def split: prod.split)

lemma apply_writes_other: "b \<notin> fst ` set ws \<Longrightarrow> apply_writes ws d b = d b"
  by (induction ws arbitrary: d) auto

lemma apply_writes_map:
  assumes "distinct (map L ks)" and "k \<in> set ks"
  shows "apply_writes (map (\<lambda>k. (L k, X k)) ks) d (L k) = X k"
  using assms
proof (induction ks arbitrary: d)
  case (Cons j ks)
  show ?case
  proof (cases "k = j")
    case True
    with Cons.prems(1) have "L k \<notin> fst ` set (map (\<lambda>k. (L k, X k)) ks)" by (auto simp: image_image)
    with True show ?thesis by (simp add: apply_writes_other)
  next
    case False
    with Cons show ?thesis by simp
  qed
qed simp

lemma apply_writes_upt:
  "b \<notin> L ` {..<m} \<Longrightarrow> apply_writes (map (\<lambda>k. (L k, X k)) [0..<m]) d b = d b"
  by (rule apply_writes_other) (simp add: image_image atLeast0LessThan)

definition copies :: "(nat \<Rightarrow> u32) \<Rightarrow> (nat \<Rightarrow> u8 list) \<Rightarrow> nat \<Rightarrow> 'r bview \<Rightarrow> 'r bview" where
  "copies L X m v = fold (\<lambda>k v. a_write (L k) (a_put (L k) (X k) v)) [0..<m] v"

lemma copies_fields:
  "v_cur (copies L X m v) = apply_writes (map (\<lambda>k. (L k, X k)) [0..<m]) (v_cur v)"
  "v_dsk (copies L X m v) = apply_writes (map (\<lambda>k. (L k, X k)) [0..<m]) (v_dsk v)"
  "v_pin (copies L X m v) = v_pin v - L ` {..<m}"
  "v_hist (copies L X m v) = v_hist v @ map (\<lambda>k. (L k, X k)) [0..<m]"
  "v_held (copies L X m v) = v_held v" "v_rest (copies L X m v) = v_rest v"
  by (induction m) (auto simp: copies_def a_defs lessThan_Suc)

lemma copies_0 [simp]: "copies L X 0 v = v"
  and copies_Suc: "copies L X (Suc m) v = a_write (L m) (a_put (L m) (X m) (copies L X m v))"
  by (simp_all add: copies_def)

section \<open>The log area\<close>

definition lblk :: "'a lstate_scheme \<Rightarrow> nat \<Rightarrow> u32" where
  "lblk s k = log_start s + of_nat k + 1"

definition log_area :: "'a lstate_scheme \<Rightarrow> u32 set" where
  "log_area s = insert (log_start s) (lblk s ` {..<nat (log_size s - 1)})"

definition homes :: "'a lstate_scheme \<Rightarrow> u32 list" where
  "homes s = take (nat (lh_n s)) (lh_block s)"

text \<open>The log of device 1 lies on the disk and has at most \<^verbatim>\<open>LOGSIZE\<close> blocks, as \<^verbatim>\<open>mkfs\<close> makes it.\<close>

definition log_geom :: "'a lstate_scheme \<Rightarrow> bool" where
  "log_geom s \<longleftrightarrow> log_dev s = 1 \<and> 1 \<le> log_size s \<and> log_size s \<le> int LOGSIZE \<and>
     unat (log_start s) + nat (log_size s) \<le> unat (disksize s)"

definition log_ok :: "'a lstate_scheme \<Rightarrow> bool" where
  "log_ok s \<longleftrightarrow> bio_inv s \<and> bheld s = {} \<and> log_geom s \<and> length (lh_block s) = LOGSIZE \<and>
     0 \<le> lh_n s \<and> lh_n s \<le> log_size s - 1 \<and> distinct (homes s) \<and>
     (\<forall>h \<in> set (homes s). h < disksize s \<and> h \<notin> log_area s)"

lemma log_geomD:
  assumes "log_geom s"
  shows "unat (log_start s) + nat (log_size s - 1) < unat (disksize s)" "nat (log_size s - 1) < LOGSIZE" "log_dev s = 1"
proof -
  have "nat (log_size s) = nat (log_size s - 1) + 1" using assms unfolding log_geom_def by linarith
  with assms show "unat (log_start s) + nat (log_size s - 1) < unat (disksize s)" "nat (log_size s - 1) < LOGSIZE"
    "log_dev s = 1" unfolding log_geom_def by linarith+
qed

lemma unat_lblk:
  assumes "log_geom s" and "k < nat (log_size s - 1)"
  shows "unat (lblk s k) = unat (log_start s) + k + 1"
proof -
  have "unat (log_start s) + k + 1 < 4294967296"
    using log_geomD(1) [OF assms(1)] assms(2) unat_u32_bound [of "disksize s"] by linarith
  then have "unat (log_start s + of_nat k) = unat (log_start s) + k" "unat (log_start s) + k + unat (1 :: u32) < 4294967296"
    by (simp_all add: unat_add_u32 unat_of_nat_u32)
  then show ?thesis unfolding lblk_def by (subst unat_add_u32) simp_all
qed

lemma lblk_bound:
  assumes "log_geom s" and "k < nat (log_size s - 1)"
  shows "lblk s k < disksize s" "lblk s k \<noteq> log_start s" "lblk s k \<in> log_area s"
proof -
  note u = unat_lblk [OF assms]
  show "lblk s k < disksize s" using u log_geomD(1) [OF assms(1)] assms(2) unfolding word_less_nat_alt by linarith
  show "lblk s k \<noteq> log_start s"
  proof
    assume "lblk s k = log_start s"
    with u show False by simp
  qed
  show "lblk s k \<in> log_area s" using assms(2) by (simp add: log_area_def)
qed

lemma start_bound: "log_geom s \<Longrightarrow> log_start s < disksize s"
  using log_geomD(1) [of s] unfolding word_less_nat_alt by linarith

lemma lblk_inj:
  assumes "log_geom s" and "j < nat (log_size s - 1)" "k < nat (log_size s - 1)" "lblk s j = lblk s k"
  shows "j = k"
  using arg_cong [OF assms(4), of unat] unfolding unat_lblk [OF assms(1,2)] unat_lblk [OF assms(1,3)] by linarith

lemma lblk_distinct:
  assumes "log_geom s" and "m \<le> nat (log_size s - 1)"
  shows "distinct (map (lblk s) [0..<m])"
proof -
  have "inj_on (lblk s) (set [0..<m])" by (rule inj_onI, rule lblk_inj [OF assms(1)]) (use assms(2) in auto)
  then show ?thesis by (simp add: distinct_map)
qed

lemma log_okD:
  assumes "log_ok s"
  shows "bio_inv s" "bheld s = {}" "log_geom s" "length (lh_block s) = LOGSIZE" "distinct (homes s)"
    "nat (lh_n s) \<le> nat (log_size s - 1)" "nat (lh_n s) < LOGSIZE" "length (homes s) = nat (lh_n s)" "0 \<le> lh_n s"
    "k < nat (lh_n s) \<Longrightarrow> homes s ! k < disksize s" "k < nat (lh_n s) \<Longrightarrow> homes s ! k \<notin> log_area s"
proof -
  show 1: "bio_inv s" "bheld s = {}" "log_geom s" "length (lh_block s) = LOGSIZE" "distinct (homes s)" "0 \<le> lh_n s"
    using assms by (simp_all add: log_ok_def)
  show 2: "nat (lh_n s) \<le> nat (log_size s - 1)" using assms by (auto simp: log_ok_def)
  then show 3: "nat (lh_n s) < LOGSIZE" using log_geomD(2) [OF 1(3)] by linarith
  then show 4: "length (homes s) = nat (lh_n s)" using 1(4) by (simp add: homes_def)
  have h: "\<forall>h \<in> set (homes s). h < disksize s \<and> h \<notin> log_area s" using assms by (simp add: log_ok_def)
  then show "k < nat (lh_n s) \<Longrightarrow> homes s ! k < disksize s" "k < nat (lh_n s) \<Longrightarrow> homes s ! k \<notin> log_area s"
    using 4 by simp_all
qed

lemma homes_nth: "k < nat (lh_n s) \<Longrightarrow> homes s ! k = lh_block s ! k"
  by (simp add: homes_def)

section \<open>The steps of a commit\<close>

lemma write_log_one_eq:
  assumes "log_dev s = 1"
  shows "write_log_one k s = bindE (bread 1 (lblk s k) s) (\<lambda>(i, s'). bindE (bread 1 (lh_block s ! k) s') (\<lambda>(j, s').
    bindE (bwrite i (put_data i (b_data (bufs s' ! j)) s')) (\<lambda>s'. bindE (brelse j s') (brelse i))))"
  unfolding write_log_one_def assms lblk_def [symmetric]
  by (rule bindE_cong [OF refl]) (auto simp: more_log [OF bread_more] assms split: prod.split)

lemma install_one_eq:
  assumes "log_dev s = 1"
  shows "install_one k s = bindE (bread 1 (lblk s k) s) (\<lambda>(i, s'). bindE (bread 1 (lh_block s ! k) s') (\<lambda>(j, s').
    bindE (bwrite j (put_data j (b_data (bufs s' ! i)) s')) (\<lambda>s'. bindE (brelse i s') (brelse j))))"
  unfolding install_one_def assms lblk_def [symmetric]
  by (rule bindE_cong [OF refl]) (auto simp: more_log [OF bread_more] assms split: prod.split)

definition enc_head :: "int \<Rightarrow> u32 list \<Rightarrow> u8 list \<Rightarrow> u8 list" where
  "enc_head n bl d = put32s 4 (take (nat n) bl) (put32 0 (word_of_int n) d)"

lemma write_head_eq:
  assumes "log_dev s = 1"
  shows "write_head s = bindE (bread 1 (log_start s) s) (\<lambda>(i, s').
    bindE (bwrite i (put_data i (enc_head (lh_n s) (lh_block s) (b_data (bufs s' ! i))) s')) (brelse i))"
  unfolding write_head_def assms enc_head_def Let_def
  by (rule bindE_cong [OF refl]) (auto simp: more_log [OF bread_more] split: prod.split)

lemma write_log_prefix:
  assumes ok: "log_ok s" and pin: "bpinned s = set (homes s)" and "m \<le> nat (lh_n s)"
  shows "\<exists>t. foldE write_log_one [0..<m] s = Inr t \<and> bio_inv t \<and>
    bio_view t = copies (lblk s) (\<lambda>k. bcur s (homes s ! k)) m (bio_view s)"
  using assms(3)
proof (induction m)
  case 0
  then show ?case using log_okD(1) [OF ok] by simp
next
  case (Suc m)
  note o = log_okD [OF ok]
  let ?X = "\<lambda>k. bcur s (homes s ! k)"
  from Suc obtain t where t: "foldE write_log_one [0..<m] s = Inr t" "bio_inv t"
    "bio_view t = copies (lblk s) ?X m (bio_view s)" by auto
  have "brest t = brest s" using arg_cong [OF t(3), of v_rest] by (simp add: copies_fields)
  note l = brest_log [OF this]
  have m: "m < nat (lh_n s)" "m < nat (log_size s - 1)" using Suc.prems o(6) by linarith+
  have dis: "homes s ! m \<notin> lblk s ` {..<m}" "lblk s m \<noteq> homes s ! m"
    using o(11) [OF m(1)] lblk_bound(3) [OF o(3)] lblk_bound(3) [OF o(3) m(2)] m by (auto, metis)
  have v: "v_held (bio_view t) = {}" "v_pin (bio_view t) = bpinned s - lblk s ` {..<m}"
    "v_cur (bio_view t) (homes s ! m) = ?X m"
    using o(2) dis(1) unfolding t(3) copies_fields by (simp_all add: apply_writes_upt)
  have pins: "homes s ! m \<in> v_pin (bio_view t)" unfolding v(2) pin using dis(1) m(1) o(8) by simp
  have "v_pin (bio_view t) \<subseteq> set (homes s)" unfolding v(2) pin by blast
  then have "card (v_pin (bio_view t)) \<le> length (homes s)"
    using card_mono [OF finite_set] card_length [of "homes s"] by (meson order.trans)
  then have room: "card (v_pin (bio_view t)) < NBUF" using o(7,8) by (simp add: NBUF_def LOGSIZE_def)
  have b: "lblk s m < disksize (v_rest (bio_view t))" "homes s ! m < disksize (v_rest (bio_view t))"
    using lblk_bound(1) [OF o(3) m(2)] o(10) [OF m(1)] l(8) by simp_all
  let ?h = "homes s ! m"
  obtain u where u: "bindE (bread 1 (lblk s m) t) (\<lambda>(i, s). bindE (bread 1 ?h s) (\<lambda>(j, s).
      bindE (bwrite i (put_data i (b_data (bufs s ! j)) s)) (\<lambda>s. bindE (brelse j s) (brelse i)))) = Inr u" "bio_inv u"
    "bio_view u = a_write (lblk s m) (a_put (lblk s m) (?X m) (bio_view t))"
    using bio.copy_to_first [OF t(2) v(1) b dis(2) pins room] unfolding v(3) by blast
  have "write_log_one m t = Inr u"
    using u(1) log_geomD(3) [OF o(3)] homes_nth [OF m(1)] by (simp add: write_log_one_eq l lblk_def)
  with t(1) u(2,3) t(3) show ?case by (simp add: foldE_snoc copies_Suc)
qed

lemma install_prefix:
  assumes ok: "log_ok s" and pin: "bpinned s = set (homes s) \<or> bpinned s = {}" and "m \<le> nat (lh_n s)"
  shows "\<exists>t. foldE install_one [0..<m] s = Inr t \<and> bio_inv t \<and>
    bio_view t = copies (\<lambda>k. homes s ! k) (\<lambda>k. bcur s (lblk s k)) m (bio_view s)"
  using assms(3)
proof (induction m)
  case 0
  then show ?case using log_okD(1) [OF ok] by simp
next
  case (Suc m)
  note o = log_okD [OF ok]
  let ?X = "\<lambda>k. bcur s (lblk s k)" and ?H = "\<lambda>k. homes s ! k"
  from Suc obtain t where t: "foldE install_one [0..<m] s = Inr t" "bio_inv t"
    "bio_view t = copies ?H ?X m (bio_view s)" by auto
  have "brest t = brest s" using arg_cong [OF t(3), of v_rest] by (simp add: copies_fields)
  note l = brest_log [OF this]
  have m: "m < nat (lh_n s)" "m < nat (log_size s - 1)" using Suc.prems o(6) by linarith+
  note lb = lblk_bound [OF o(3) m(2)]
  have nl: "?H k \<noteq> lblk s m" if "k \<le> m" for k using o(11) [of k] lb(3) that m(1) by auto
  have "lblk s m \<notin> ?H ` {..<m}" using nl by (metis imageE lessThan_iff less_imp_le)
  then have v: "v_held (bio_view t) = {}" "v_pin (bio_view t) = bpinned s - ?H ` {..<m}" "v_cur (bio_view t) (lblk s m) = ?X m"
    using o(2) unfolding t(3) copies_fields by (simp_all add: apply_writes_upt)
  have sub: "v_pin (bio_view t) \<subseteq> set (homes s)" unfolding v(2) using pin by blast
  then have "card (v_pin (bio_view t)) \<le> length (homes s)"
    using card_mono [OF finite_set] card_length [of "homes s"] by (meson order.trans)
  then have room: "card (v_pin (bio_view t)) < NBUF" using o(7,8) by (simp add: NBUF_def LOGSIZE_def)
  have "?H k \<noteq> ?H m" if "k < m" for k using that m(1) o(5,8) by (simp add: nth_eq_iff_index_eq)
  then have "?H m \<notin> ?H ` {..<m}" by (metis imageE lessThan_iff)
  then have room2: "?H m \<in> v_pin (bio_view t) \<or> Suc (card (v_pin (bio_view t))) < NBUF"
    unfolding v(2) using pin m(1) o(8) by (auto simp: NBUF_def MAXOPBLOCKS_def)
  have "lblk s m \<notin> set (homes s)" using o(11) lb(3) o(8) by (metis in_set_conv_nth)
  then have np: "lblk s m \<notin> v_pin (bio_view t)" using sub by blast
  have b: "lblk s m < disksize (v_rest (bio_view t))" "?H m < disksize (v_rest (bio_view t))"
    using lb(1) o(10) [OF m(1)] l(8) by simp_all
  let ?h = "?H m"
  obtain u where u: "bindE (bread 1 (lblk s m) t) (\<lambda>(i, s). bindE (bread 1 ?h s) (\<lambda>(j, s).
      bindE (bwrite j (put_data j (b_data (bufs s ! i)) s)) (\<lambda>s. bindE (brelse i s) (brelse j)))) = Inr u" "bio_inv u"
    "bio_view u = a_write ?h (a_put ?h (?X m) (bio_view t))"
    using bio.copy_to_second [OF t(2) v(1) b nl [OF order.refl, symmetric] np room2 room] unfolding v(3) by blast
  have "install_one m t = Inr u"
    using u(1) log_geomD(3) [OF o(3)] homes_nth [OF m(1)] by (simp add: install_one_eq l lblk_def)
  with t(1) u(2,3) t(3) show ?case by (simp add: foldE_snoc copies_Suc)
qed

lemma length_enc_head: "nat n \<le> LOGSIZE \<Longrightarrow> length d = BSIZE \<Longrightarrow> length (enc_head n bl d) = BSIZE"
  unfolding enc_head_def by (subst length_put32s) (auto simp: BSIZE_def LOGSIZE_def MAXOPBLOCKS_def)

lemma write_head_ok:
  assumes "bio_inv s" "bheld s = {}" "log_geom s" "nat (lh_n s) \<le> LOGSIZE" "card (bpinned s) < NBUF"
  shows "\<exists>t. write_head s = Inr t \<and> bio_inv t \<and> bio_view t =
    a_write (log_start s) (a_put (log_start s) (enc_head (lh_n s) (lh_block s) (bcur s (log_start s))) (bio_view s))"
  using bio.rewrite_block [of s "log_start s" "enc_head (lh_n s) (lh_block s)"] assms
    length_enc_head [OF assms(4) bcur_length [OF assms(1) start_bound [OF assms(3)]], of "lh_block s"]
  by (simp add: write_head_eq [OF log_geomD(3) [OF assms(3)]] start_bound)

lemma view_eqD:
  assumes "bio_view t = v"
  shows "bcur t = v_cur v" "bdsk t = v_dsk v" "bheld t = v_held v" "bpinned t = v_pin v" "dwrites t = v_hist v" "brest t = v_rest v"
  using assms by auto

lemma get32_enc_head: "length d = BSIZE \<Longrightarrow> length bl = LOGSIZE \<Longrightarrow> nat n \<le> LOGSIZE \<Longrightarrow> get32 0 (enc_head n bl d) = word_of_int n"
  unfolding enc_head_def
  by (subst get32_put32s_below) (auto simp: BSIZE_def LOGSIZE_def MAXOPBLOCKS_def)

lemma get32s_enc_head:
  assumes "length d = BSIZE" "length bl = LOGSIZE" "nat n \<le> LOGSIZE"
  shows "get32s 4 (nat n) (enc_head n bl d) = take (nat n) bl"
proof -
  have "get32s 4 (length (take (nat n) bl)) (enc_head n bl d) = take (nat n) bl"
    unfolding enc_head_def by (rule get32s_put32s) (use assms in \<open>auto simp: BSIZE_def LOGSIZE_def MAXOPBLOCKS_def\<close>)
  then show ?thesis using assms(2,3) by simp
qed

text \<open>The writes of a commit in their order.\<close>

definition log_part :: "'a lstate_scheme \<Rightarrow> (u32 \<times> u8 list) list" where
  "log_part s = map (\<lambda>k. (lblk s k, bcur s (homes s ! k))) [0..<nat (lh_n s)]"

definition home_part :: "'a lstate_scheme \<Rightarrow> (u32 \<times> u8 list) list" where
  "home_part s = map (\<lambda>k. (homes s ! k, bcur s (homes s ! k))) [0..<nat (lh_n s)]"

definition head_full :: "'a lstate_scheme \<Rightarrow> u8 list" where
  "head_full s = enc_head (lh_n s) (lh_block s) (bdsk s (log_start s))"

definition commit_writes :: "'a lstate_scheme \<Rightarrow> (u32 \<times> u8 list) list" where
  "commit_writes s = log_part s @ (log_start s, head_full s) # home_part s @
     [(log_start s, enc_head 0 (lh_block s) (head_full s))]"

lemma log_ok_cong:
  assumes "log_ok s" "bio_inv t" "bheld t = {}" "brest t = brest s"
  shows "log_ok t"
proof -
  note l = brest_log [OF assms(4)]
  show ?thesis using assms(1-3) by (simp add: log_ok_def log_geom_def log_area_def lblk_def [abs_def] homes_def l)
qed

text \<open>The first two steps: the log blocks and the header are on disk.\<close>

lemma commit_logged:
  assumes ok: "log_ok s" and pin: "bpinned s = set (homes s)"
  shows "\<exists>t. bindE (write_log s) write_head = Inr t \<and> bio_inv t \<and> brest t = brest s \<and> bheld t = {} \<and> bpinned t = set (homes s) \<and>
    bcur t = (apply_writes (log_part s) (bcur s))(log_start s := head_full s) \<and>
    bdsk t = apply_writes (log_part s @ [(log_start s, head_full s)]) (bdsk s) \<and>
    dwrites t = dwrites s @ log_part s @ [(log_start s, head_full s)]"
proof -
  note o = log_okD [OF ok]
  obtain t where t: "write_log s = Inr t" "bio_inv t"
    "bio_view t = copies (lblk s) (\<lambda>k. bcur s (homes s ! k)) (nat (lh_n s)) (bio_view s)"
    using write_log_prefix [OF ok pin order.refl] by (auto simp: write_log_def)
  note v = view_eqD [OF t(3), unfolded copies_fields bio_view_simps]
  note l = brest_log [OF v(6)]
  have la: "lblk s ` {..<nat (lh_n s)} \<subseteq> log_area s" "log_start s \<notin> lblk s ` {..<nat (lh_n s)}"
    using lblk_bound [OF o(3)] o(6) by (auto, metis less_le_trans)
  have hs: "set (homes s) \<inter> log_area s = {}" using o(8,11) by (metis disjoint_iff in_set_conv_nth)
  have p: "bpinned t = set (homes s)" using v(4) pin la(1) hs by blast
  have "log_start s \<notin> bpinned s" using hs pin by (auto simp: log_area_def)
  then have "bcur s (log_start s) = bdsk s (log_start s)" using bcur_clean [OF o(1)] o(2) by simp
  then have st: "bcur t (log_start s) = bdsk s (log_start s)" using v(1) la(2) by (simp add: apply_writes_upt)
  have "card (bpinned t) < NBUF"
    using card_length [of "homes s"] o(7,8) unfolding p by (simp add: NBUF_def LOGSIZE_def)
  moreover have "log_geom t" using o(3) by (simp add: log_geom_def l)
  ultimately obtain u where u: "write_head t = Inr u" "bio_inv u"
    "bio_view u = a_write (log_start s) (a_put (log_start s) (head_full s) (bio_view t))"
    using write_head_ok [OF t(2)] v(3) o(2,7) by (auto simp: l st head_full_def)
  note w = view_eqD [OF u(3), unfolded a_write_def a_put_def, simplified]
  have "log_start s \<notin> set (homes s)" using hs by (auto simp: log_area_def)
  then show ?thesis
    using t(1) u(1,2) w v p o(2) by (simp add: log_part_def)
qed

lemma apply_log_part:
  assumes "log_ok s" "k < nat (lh_n s)"
  shows "apply_writes (log_part s) d (lblk s k) = bcur s (homes s ! k)"
  unfolding log_part_def
  by (rule apply_writes_map) (use assms lblk_distinct log_okD(3,6) in auto)

lemma commit_ok:
  assumes ok: "log_ok s" and pin: "bpinned s = set (homes s)" and n: "0 < lh_n s"
  shows "\<exists>t. commit s = Inr t \<and> log_ok t \<and> bpinned t = {} \<and> lh_n t = 0 \<and>
    (\<forall>b. b \<notin> log_area s \<longrightarrow> bcur t b = bcur s b) \<and>
    bdsk t = apply_writes (commit_writes s) (bdsk s) \<and> dwrites t = dwrites s @ commit_writes s \<and>
    brest t = (brest s)\<lparr>lh_n := 0\<rparr>"
proof -
  note o = log_okD [OF ok]
  obtain t where t: "bindE (write_log s) write_head = Inr t" "bio_inv t" "brest t = brest s" "bheld t = {}"
    "bpinned t = set (homes s)" "bcur t = (apply_writes (log_part s) (bcur s))(log_start s := head_full s)"
    "bdsk t = apply_writes (log_part s @ [(log_start s, head_full s)]) (bdsk s)"
    "dwrites t = dwrites s @ log_part s @ [(log_start s, head_full s)]"
    using commit_logged [OF ok pin] by blast
  note l = brest_log [OF t(3)]
  have okt: "log_ok t" by (rule log_ok_cong [OF ok t(2,4,3)])
  have e: "homes t = homes s" "lblk t = lblk s" by (simp_all add: homes_def lblk_def [abs_def] l)
  have ct: "bcur t (lblk s k) = bcur s (homes s ! k)" if "k < nat (lh_n s)" for k
    using apply_log_part [OF ok that] lblk_bound(2) [OF o(3), of k] o(6) that by (simp add: t(6))
  obtain u where u: "install_trans t = Inr u" "bio_inv u"
    "bio_view u = copies (\<lambda>k. homes s ! k) (\<lambda>k. bcur t (lblk s k)) (nat (lh_n s)) (bio_view t)"
    using install_prefix [OF okt, of "nat (lh_n t)"] t(5) by (auto simp: install_trans_def e l)
  note v = view_eqD [OF u(3), unfolded copies_fields bio_view_simps]
  have hp: "map (\<lambda>k. (homes s ! k, bcur t (lblk s k))) [0..<nat (lh_n s)] = home_part s"
    unfolding home_part_def using ct by simp
  note l' = brest_log [OF v(6)]
  have pu: "bpinned u = {}" unfolding v(4) t(5) using o(8) by (auto simp: in_set_conv_nth)
  let ?u = "u\<lparr>lh_n := 0\<rparr>"
  have "homes s ! k \<noteq> log_start s" if "k < nat (lh_n s)" for k using o(11) [OF that] by (auto simp: log_area_def)
  then have sh: "log_start s \<notin> (\<lambda>k. homes s ! k) ` {..<nat (lh_n s)}" by (metis imageE lessThan_iff)
  have st: "bcur u (log_start s) = head_full s" unfolding v(1) using sh t(6) by (simp add: apply_writes_upt)
  have "\<exists>w. write_head ?u = Inr w \<and> bio_inv w \<and> bio_view w = a_write (log_start ?u)
      (a_put (log_start ?u) (enc_head (lh_n ?u) (lh_block ?u) (bcur ?u (log_start ?u))) (bio_view ?u))"
    by (rule write_head_ok) (use u(2) v(3) t(4) pu o(3) in \<open>simp_all add: log_geom_def l l' NBUF_def MAXOPBLOCKS_def\<close>)
  then obtain w where w: "write_head ?u = Inr w" "bio_inv w"
    "bio_view w = a_write (log_start s) (a_put (log_start s) (enc_head 0 (lh_block s) (head_full s)) (bio_view ?u))"
    using st by (auto simp: l l')
  note x = view_eqD [OF w(3), unfolded a_write_def a_put_def, simplified]
  have "commit s = Inr w" using t(1) u(1) w(1) n by (auto simp: commit_def simp flip: bindE_assoc)
  moreover have "log_ok w \<and> lh_n w = 0"
    using w(2) x(3,6) v(3) t(4) o(3,4) brest_log [OF x(6)] l l' by (simp add: log_ok_def log_geom_def homes_def log_area_def)
  moreover have "bcur w b = bcur s b" if "b \<notin> log_area s" for b
  proof -
    have nb: "b \<noteq> log_start s" "b \<notin> lblk s ` {..<nat (lh_n s)}"
      using that o(6) by (auto simp: log_area_def)
    then have tb: "bcur t b = bcur s b" by (simp add: t(6) log_part_def apply_writes_upt)
    have "bcur u b = bcur s b"
    proof (cases "b \<in> (\<lambda>k. homes s ! k) ` {..<nat (lh_n s)}")
      case True
      then obtain k where k: "b = homes s ! k" "k < nat (lh_n s)" by auto
      have "distinct (map (\<lambda>k. homes s ! k) [0..<nat (lh_n s)])" using o(5,8) map_nth [of "homes s"] by simp
      from apply_writes_map [OF this, of k "\<lambda>k. bcur s (homes s ! k)"] k show ?thesis
        unfolding v(1) hp home_part_def by simp
    next
      case False
      then show ?thesis unfolding v(1) using tb by (simp add: apply_writes_upt)
    qed
    then show ?thesis using nb(1) by (simp add: x(1))
  qed
  moreover have "bdsk w = apply_writes (commit_writes s) (bdsk s)" "dwrites w = dwrites s @ commit_writes s"
    using x(2,5) v(2,5) t(7,8) by (simp_all add: hp commit_writes_def)
  moreover have "bpinned w = {}" using x(4) pu by simp
  moreover have "brest w = (brest s)\<lparr>lh_n := 0\<rparr>" using x(6) v(6) t(3) by (simp add: brest_lh_n)
  ultimately show ?thesis by blast
qed

section \<open>Recovery\<close>

lemma read_head_ok:
  assumes "bio_inv s" "bheld s = {}" "bpinned s = {}" "log_geom s" "length (lh_block s) = LOGSIZE"
    and n: "n = sint (get32 0 (bdsk s (log_start s)))" "n \<le> int LOGSIZE"
  shows "\<exists>t. read_head s = Inr t \<and> bio_inv t \<and> bheld t = {} \<and> bpinned t = {} \<and> bcur t = bcur s \<and> bdsk t = bdsk s \<and>
    dwrites t = dwrites s \<and> log_start t = log_start s \<and> log_size t = log_size s \<and> log_dev t = log_dev s \<and>
    disksize t = disksize s \<and> lh_n t = n \<and>
    lh_block t = get32s 4 (nat n) (bdsk s (log_start s)) @ drop (nat n) (lh_block s)"
proof -
  have "log_start s < disksize (v_rest (bio_view s))" "log_start s \<notin> v_pin (bio_view s)" "card (v_pin (bio_view s)) < NBUF"
    "v_held (bio_view s) = {}"
    using start_bound [OF assms(4)] assms(2,3) by (simp_all add: NBUF_def MAXOPBLOCKS_def)
  from bio.read_only [OF assms(1) this(4,1-3)] obtain i t where t: "bread 1 (log_start s) s = Inr (i, t)"
    "b_data (bufs t ! i) = bcur s (log_start s)" "bio_inv t" "holds t i (log_start s)" "bio_view t = a_read (log_start s) (bio_view s)"
    by auto
  note v = view_eqD [OF t(5), unfolded a_read_def, simplified]
  note l = brest_log [OF v(6)]
  have d: "b_data (bufs t ! i) = bdsk s (log_start s)" using t(2) bcur_clean [OF assms(1)] assms(2,3) by simp
  let ?t = "t\<lparr>lh_n := n, lh_block := get32s 4 (nat n) (bdsk s (log_start s)) @ drop (nat n) (lh_block t)\<rparr>"
  have it: "bio_inv ?t" "holds ?t i (log_start s)" using t(3,4) by simp_all
  have "v_cur (bio_view ?t) (log_start s) = v_dsk (bio_view ?t) (log_start s)"
    using v(1,2) bcur_clean [OF assms(1)] assms(2,3) by simp
  then obtain u where u: "brelse i ?t = Inr u" "bio_inv u" "bio_view u = a_release (log_start s) (bio_view ?t)"
    using bio.release_ok [OF it] by blast
  note w = view_eqD [OF u(3), unfolded a_release_def, simplified]
  have "read_head s = Inr u"
    using t(1) u(1) d n log_geomD(3) [OF assms(4)] by (simp add: read_head_def)
  then show ?thesis
    using u(2) w v brest_log [OF w(6)] l assms(2,3) by (intro exI [of _ u]) simp
qed

text \<open>The transaction a header block on disk describes.\<close>

definition head_n :: "u8 list \<Rightarrow> int" where
  "head_n d = sint (get32 0 d)"

definition head_blocks :: "u8 list \<Rightarrow> u32 list" where
  "head_blocks d = get32s 4 (nat (head_n d)) d"

lemma length_head_blocks [simp]: "length (head_blocks d) = nat (head_n d)"
  by (simp add: head_blocks_def get32s_def)

lemma recover_ok:
  assumes "bio_inv s" "bheld s = {}" "bpinned s = {}" "log_geom s" "length (lh_block s) = LOGSIZE"
    and d: "d = bdsk s (log_start s)" and n: "0 \<le> head_n d" "head_n d \<le> log_size s - 1"
    and h: "distinct (head_blocks d)" "\<forall>h \<in> set (head_blocks d). h < disksize s \<and> h \<notin> log_area s"
  shows "\<exists>t. recover_from_log s = Inr t \<and> log_ok t \<and> bpinned t = {} \<and> lh_n t = 0 \<and>
    log_start t = log_start s \<and> log_size t = log_size s \<and>
    head_n (bdsk t (log_start s)) = 0 \<and>
    (\<forall>b. b \<noteq> log_start s \<longrightarrow>
      bdsk t b = apply_writes (map (\<lambda>k. (head_blocks d ! k, bdsk s (lblk s k))) [0..<nat (head_n d)]) (bdsk s) b)"
proof -
  have nl: "nat (head_n d) \<le> nat (log_size s - 1)" "nat (head_n d) \<le> LOGSIZE"
    using n log_geomD(2) [OF assms(4)] by linarith+
  then have "head_n d \<le> int LOGSIZE" using n(1) by linarith
  then obtain t where t: "read_head s = Inr t" "bio_inv t" "bheld t = {}" "bpinned t = {}" "bcur t = bcur s" "bdsk t = bdsk s"
    and tl: "log_start t = log_start s" "log_size t = log_size s" "log_dev t = log_dev s" "disksize t = disksize s"
      "lh_n t = head_n d" "lh_block t = head_blocks d @ drop (nat (head_n d)) (lh_block s)"
    using read_head_ok [OF assms(1-5), of "head_n d"] d by (auto simp: head_n_def head_blocks_def)
  have e: "homes t = head_blocks d" "lblk t = lblk s" "log_area t = log_area s"
    by (simp_all add: homes_def lblk_def [abs_def] log_area_def tl)
  have okt: "log_ok t"
    using t(2,3) assms(4,5) n h nl(2) tl e by (simp add: log_ok_def log_geom_def)
  obtain u where u: "install_trans t = Inr u" "bio_inv u"
    "bio_view u = copies (\<lambda>k. head_blocks d ! k) (\<lambda>k. bcur t (lblk s k)) (nat (head_n d)) (bio_view t)"
    using install_prefix [OF okt, of "nat (lh_n t)"] t(4) by (auto simp: install_trans_def e tl)
  note v = view_eqD [OF u(3), unfolded copies_fields bio_view_simps]
  note l = brest_log [OF v(6)]
  have cl: "bcur t b = bdsk s b" for b using bcur_clean [OF assms(1)] assms(2,3) t(5) by simp
  let ?u = "u\<lparr>lh_n := 0\<rparr>"
  have pu: "bpinned u = {}" using v(4) t(4) by simp
  have "\<exists>w. write_head ?u = Inr w \<and> bio_inv w \<and> bio_view w = a_write (log_start ?u)
      (a_put (log_start ?u) (enc_head (lh_n ?u) (lh_block ?u) (bcur ?u (log_start ?u))) (bio_view ?u))"
    by (rule write_head_ok) (use u(2) v(3) t(3) pu assms(4) in \<open>simp_all add: log_geom_def tl l NBUF_def MAXOPBLOCKS_def\<close>)
  then obtain w where w: "write_head ?u = Inr w" "bio_inv w"
    "bio_view w = a_write (log_start s) (a_put (log_start s) (enc_head 0 (lh_block t) (bcur u (log_start s))) (bio_view ?u))"
    by (auto simp: tl l)
  note x = view_eqD [OF w(3), unfolded a_write_def a_put_def, simplified]
  note l' = brest_log [OF x(6)]
  have lt: "length (lh_block t) = LOGSIZE" using okt by (simp add: log_ok_def)
  have "log_start s < disksize u" using start_bound [OF assms(4)] tl l by simp
  then have "length (bcur u (log_start s)) = BSIZE" by (rule bcur_length [OF u(2)])
  then have "head_n (enc_head 0 (lh_block t) (bcur u (log_start s))) = 0"
    unfolding head_n_def using get32_enc_head [OF _ lt, of _ 0] by simp
  moreover have "recover_from_log s = Inr w" using t(1) u(1) w(1) by (simp add: recover_from_log_def)
  moreover have "log_ok w" using w(2) x(3) v(3) t(3) assms(4) lt l' l tl by (simp add: log_ok_def log_geom_def homes_def)
  ultimately show ?thesis
    using x pu v(2) l l' tl t(6) cl by (intro exI [of _ w]) simp
qed

end
