(* ===== verification/Log_Tx.thy ===== *)
theory Log_Tx
  imports Log_Inv
begin

text \<open>
  The file system inside a transaction. A client reads blocks and changes them through \<^verbatim>\<open>log_write\<close>; it sees the
  current contents, the blocks it holds and the blocks the log has recorded. The locale states what \<^verbatim>\<open>fs.c\<close>
  relies on, with its two patterns of use as lemmas: read a block and release it; read a block, change it, log it
  and release it. The interpretation shows that \<^verbatim>\<open>bio.c\<close> and \<^verbatim>\<open>log.c\<close> provide it, and the last section
  that \<^verbatim>\<open>begin_op\<close> opens and \<^verbatim>\<open>end_op\<close> commits such a transaction.
\<close>

record 'r tview =
  t_cur :: "u32 \<Rightarrow> u8 list"
  t_held :: "u32 set"
  t_log :: "u32 set"
  t_rest :: 'r

locale transaction =
  fixes inv :: "'s \<Rightarrow> bool" and V :: "'s \<Rightarrow> 'r tview" and holds :: "'s \<Rightarrow> nat \<Rightarrow> u32 \<Rightarrow> bool"
    and nblocks :: "'r \<Rightarrow> u32" and area :: "'r \<Rightarrow> u32 set" and cap :: "'r \<Rightarrow> nat" and nbuf :: nat and bsize :: nat
    and bread :: "u32 \<Rightarrow> 's \<Rightarrow> kerr + nat \<times> 's" and data :: "'s \<Rightarrow> nat \<Rightarrow> u8 list"
    and put :: "nat \<Rightarrow> u8 list \<Rightarrow> 's \<Rightarrow> 's" and log_write :: "nat \<Rightarrow> 's \<Rightarrow> kerr + 's" and brelse :: "nat \<Rightarrow> 's \<Rightarrow> kerr + 's"
  assumes read_ok: "inv s \<Longrightarrow> b < nblocks (t_rest (V s)) \<Longrightarrow> b \<notin> t_held (V s) \<Longrightarrow>
      b \<in> t_log (V s) \<or> card (t_held (V s) \<union> t_log (V s)) < nbuf \<Longrightarrow>
      \<exists>i t. bread b s = Inr (i, t) \<and> inv t \<and> holds t i b \<and> (\<forall>j c. holds s j c \<longrightarrow> holds t j c) \<and>
        V t = (V s)\<lparr>t_held := insert b (t_held (V s))\<rparr>"
    and data_ok: "inv s \<Longrightarrow> holds s i b \<Longrightarrow> data s i = t_cur (V s) b"
    and edit_ok: "inv s \<Longrightarrow> holds s i b \<Longrightarrow> b \<notin> area (t_rest (V s)) \<Longrightarrow> card (t_log (V s)) < cap (t_rest (V s)) \<Longrightarrow>
      length d = bsize \<Longrightarrow>
      \<exists>t. log_write i (put i d s) = Inr t \<and> inv t \<and> holds t = holds s \<and>
        V t = (V s)\<lparr>t_cur := (t_cur (V s))(b := d), t_log := insert b (t_log (V s))\<rparr>"
    and release_ok: "inv s \<Longrightarrow> holds s i b \<Longrightarrow>
      \<exists>t. brelse i s = Inr t \<and> inv t \<and> (\<forall>j c. c \<noteq> b \<longrightarrow> holds s j c \<longrightarrow> holds t j c) \<and>
        V t = (V s)\<lparr>t_held := t_held (V s) - {b}\<rparr>"
    and size_ok: "inv s \<Longrightarrow> b < nblocks (t_rest (V s)) \<Longrightarrow> length (t_cur (V s) b) = bsize"
begin

text \<open>Blocks other than \<open>b\<close> stay held across both patterns.\<close>

lemma view_block:
  assumes "inv s" and "b < nblocks (t_rest (V s))" "b \<notin> t_held (V s)" and "b \<in> t_log (V s) \<or> card (t_held (V s) \<union> t_log (V s)) < nbuf"
  shows "\<exists>i s1 t. bread b s = Inr (i, s1) \<and> data s1 i = t_cur (V s) b \<and> brelse i s1 = Inr t \<and> inv t \<and> V t = V s \<and>
    (\<forall>j c. holds s j c \<longrightarrow> c \<noteq> b \<longrightarrow> holds t j c)"
proof -
  obtain i s1 where 1: "bread b s = Inr (i, s1)" "inv s1" "holds s1 i b" "\<forall>j c. holds s j c \<longrightarrow> holds s1 j c"
    "V s1 = (V s)\<lparr>t_held := insert b (t_held (V s))\<rparr>"
    using read_ok [OF assms] by blast
  obtain t where 2: "brelse i s1 = Inr t" "inv t" "\<forall>j c. c \<noteq> b \<longrightarrow> holds s1 j c \<longrightarrow> holds t j c"
    "V t = (V s1)\<lparr>t_held := t_held (V s1) - {b}\<rparr>"
    using release_ok [OF 1(2,3)] by blast
  have "V t = V s" using 2(4) 1(5) assms(3) by (cases "V s") simp
  moreover have "data s1 i = t_cur (V s) b" using data_ok [OF 1(2,3)] 1(5) by simp
  ultimately show ?thesis using 1(1,4) 2 by blast
qed

lemma edit_block:
  assumes "inv s" and "b < nblocks (t_rest (V s))" "b \<notin> t_held (V s)" and "b \<in> t_log (V s) \<or> card (t_held (V s) \<union> t_log (V s)) < nbuf"
    and "b \<notin> area (t_rest (V s))" "card (t_log (V s)) < cap (t_rest (V s))" and "length (f (t_cur (V s) b)) = bsize"
  shows "\<exists>i s1 s2 t. bread b s = Inr (i, s1) \<and> data s1 i = t_cur (V s) b \<and> log_write i (put i (f (data s1 i)) s1) = Inr s2 \<and>
    brelse i s2 = Inr t \<and> inv t \<and>
    V t = (V s)\<lparr>t_cur := (t_cur (V s))(b := f (t_cur (V s) b)), t_log := insert b (t_log (V s))\<rparr> \<and>
    (\<forall>j c. holds s j c \<longrightarrow> c \<noteq> b \<longrightarrow> holds t j c)"
proof -
  obtain i s1 where 1: "bread b s = Inr (i, s1)" "inv s1" "holds s1 i b" "\<forall>j c. holds s j c \<longrightarrow> holds s1 j c"
    "V s1 = (V s)\<lparr>t_held := insert b (t_held (V s))\<rparr>"
    using read_ok [OF assms(1-4)] by blast
  have d: "data s1 i = t_cur (V s) b" using data_ok [OF 1(2,3)] 1(5) by simp
  have "b \<notin> area (t_rest (V s1))" "card (t_log (V s1)) < cap (t_rest (V s1))" "length (f (data s1 i)) = bsize"
    using 1(5) assms(5-7) d by simp_all
  then obtain s2 where 2: "log_write i (put i (f (data s1 i)) s1) = Inr s2" "inv s2" "holds s2 = holds s1"
    "V s2 = (V s1)\<lparr>t_cur := (t_cur (V s1))(b := f (data s1 i)), t_log := insert b (t_log (V s1))\<rparr>"
    using edit_ok [OF 1(2,3)] by blast
  obtain t where 3: "brelse i s2 = Inr t" "inv t" "\<forall>j c. c \<noteq> b \<longrightarrow> holds s2 j c \<longrightarrow> holds t j c"
    "V t = (V s2)\<lparr>t_held := t_held (V s2) - {b}\<rparr>"
    using release_ok [OF 2(2), of i b] 2(3) 1(3) by auto
  have "V t = (V s)\<lparr>t_cur := (t_cur (V s))(b := f (t_cur (V s) b)), t_log := insert b (t_log (V s))\<rparr>"
    using 3(4) 2(4) 1(5) d assms(3) by (cases "V s") simp
  moreover have "\<forall>j c. holds s j c \<longrightarrow> c \<noteq> b \<longrightarrow> holds t j c" using 3(3) 2(3) 1(4) by metis
  ultimately show ?thesis using 1(1) d 2(1) 3(1,2) by blast
qed

end

section \<open>The log provides it\<close>

definition trest :: "'a lstate_scheme \<Rightarrow> 'a lstate_scheme" where
  "trest s = (brest s)\<lparr>lh_n := 0, lh_block := []\<rparr>"

definition log_shape :: "'a lstate_scheme \<Rightarrow> bool" where
  "log_shape s \<longleftrightarrow> log_geom s \<and> length (lh_block s) = LOGSIZE \<and> 0 \<le> lh_n s \<and> lh_n s \<le> log_size s - 1 \<and>
     distinct (homes s) \<and> (\<forall>h \<in> set (homes s). h < disksize s \<and> h \<notin> log_area s)"

definition tx_inv :: "'a lstate_scheme \<Rightarrow> bool" where
  "tx_inv s \<longleftrightarrow> bio_inv s \<and> log_shape s \<and> bpinned s = set (homes s) \<and> 1 \<le> log_outstanding s \<and>
     (\<forall>b. b \<notin> bpinned s \<longrightarrow> bcur s b = bdsk s b)"

definition tx_view :: "'a lstate_scheme \<Rightarrow> 'a lstate_scheme tview" where
  "tx_view s = \<lparr>t_cur = bcur s, t_held = bheld s, t_log = bpinned s, t_rest = trest s\<rparr>"

lemma tx_view_simps [simp]:
  "t_cur (tx_view s) = bcur s" "t_held (tx_view s) = bheld s" "t_log (tx_view s) = bpinned s" "t_rest (tx_view s) = trest s"
  by (simp_all add: tx_view_def)

lemma log_ok_shape: "log_ok s \<longleftrightarrow> bio_inv s \<and> bheld s = {} \<and> log_shape s"
  by (auto simp: log_ok_def log_shape_def)

lemma trest_fields [simp]:
  "disksize (trest s) = disksize s" "log_area (trest s) = log_area s" "log_size (trest s) = log_size s"
  by (simp_all add: trest_def brest_def quiet_def log_area_def lblk_def)

lemma log_shapeD:
  assumes "log_shape s"
  shows "length (homes s) = nat (lh_n s)" "nat (lh_n s) < LOGSIZE" "card (set (homes s)) = nat (lh_n s)"
    "nat (lh_n s) \<le> nat (log_size s - 1)"
proof -
  show 4: "nat (lh_n s) \<le> nat (log_size s - 1)" using assms by (auto simp: log_shape_def)
  have "nat (log_size s - 1) < LOGSIZE" using assms log_geomD(2) [of s] by (simp add: log_shape_def)
  with 4 show 2: "nat (lh_n s) < LOGSIZE" by linarith
  then show 1: "length (homes s) = nat (lh_n s)" using assms by (simp add: homes_def log_shape_def)
  then show "card (set (homes s)) = nat (lh_n s)" using assms by (simp add: distinct_card log_shape_def)
qed

lemma tx_invD:
  assumes "tx_inv s"
  shows "bio_inv s" "log_shape s" "bpinned s = set (homes s)" "1 \<le> log_outstanding s" "b \<notin> bpinned s \<Longrightarrow> bcur s b = bdsk s b"
  using assms by (simp_all add: tx_inv_def)

text \<open>Only the cache and what \<^verbatim>\<open>brest\<close> leaves out may differ.\<close>

lemma log_shape_cong:
  assumes "brest t = brest s"
  shows "log_shape t = log_shape s" "homes t = homes s" "trest t = trest s"
  using brest_log [OF assms] assms
  by (simp_all add: log_shape_def log_geom_def homes_def log_area_def lblk_def trest_def)

text \<open>\<^verbatim>\<open>log_write\<close> records the block unless it is recorded already, and pins it.\<close>

definition logged :: "u32 \<Rightarrow> 'a lstate_scheme \<Rightarrow> 'a lstate_scheme" where
  "logged b s = (if b \<in> set (homes s) then s else s\<lparr>lh_block := (lh_block s)[nat (lh_n s) := b], lh_n := lh_n s + 1\<rparr>)"

lemma homes_logged:
  assumes "0 \<le> lh_n s" "nat (lh_n s) < length (lh_block s)"
  shows "homes (logged b s) = (if b \<in> set (homes s) then homes s else homes s @ [b])"
proof (cases "b \<in> set (homes s)")
  case False
  have "nat (lh_n s + 1) = Suc (nat (lh_n s))" using assms(1) by linarith
  then show ?thesis using False assms(2) by (simp add: logged_def homes_def take_Suc_conv_app_nth)
qed (simp add: logged_def)

lemma logged_bio [simp]:
  "bio_inv (logged b s) = bio_inv s" "bcur (logged b s) = bcur s" "bdsk (logged b s) = bdsk s"
  "holds (logged b s) = holds s" "bheld (logged b s) = bheld s" "bpinned (logged b s) = bpinned s"
  "trest (logged b s) = trest s" "log_outstanding (logged b s) = log_outstanding s"
  by (simp_all add: logged_def trest_def brest_def quiet_def)

lemma log_shape_logged:
  assumes "log_shape s" "lh_n s < log_size s - 1" "b < disksize s" "b \<notin> log_area s"
  shows "log_shape (logged b s)"
proof -
  have "homes (logged b s) = (if b \<in> set (homes s) then homes s else homes s @ [b])"
    using homes_logged assms(1) log_shapeD(2) [OF assms(1)] by (metis log_shape_def)
  moreover have "log_area (logged b s) = log_area s" "log_geom (logged b s) = log_geom s" "disksize (logged b s) = disksize s"
    by (simp_all add: logged_def log_area_def lblk_def log_geom_def)
  ultimately show ?thesis using assms by (auto simp: log_shape_def logged_def)
qed

lemma log_write_eq:
  assumes x: "bio_inv s" "log_shape s" "1 \<le> log_outstanding s" and "holds s i b" "lh_n s < log_size s - 1"
  shows "log_write i s = Inr (pin i (logged b s))"
proof -
  have n: "\<not> int LOGSIZE \<le> lh_n s" "0 \<le> lh_n s" "length (lh_block s) = LOGSIZE" "nat (lh_n s) < LOGSIZE"
    using log_shapeD(2) [OF x(2)] x(2) by (auto simp: log_shape_def)
  have h: "held s = {}" using bio_invD(1) [OF x(1)] by (simp add: in_proc_def)
  have b: "b_blockno (bufs s ! i) = b" using assms(4) by (simp add: holds_def)
  have r: "release L_log (pin i (u\<lparr>held := {L_log}\<rparr>)) = Inr (pin i u)" if "held u = {}" for u :: "'a lstate_scheme"
    using that by (cases u) (simp add: pin_def upd_buf_def release_def)
  show ?thesis
  proof (cases "scan (\<lambda>x. x = b) 0 (take (nat (lh_n s)) (lh_block s))")
    case None
    then have "b \<notin> set (homes s)" by (auto simp: scan_None_iff homes_def)
    moreover have "release L_log (pin i (s\<lparr>held := {L_log}, lh_block := bl, lh_n := m\<rparr>)) = Inr (pin i (s\<lparr>lh_block := bl, lh_n := m\<rparr>))" for bl m
      using h by (cases s) (simp add: pin_def upd_buf_def release_def)
    ultimately show ?thesis
      using None n h b x(3) assms(5) by (simp add: log_write_def Let_def logged_def)
  next
    case (Some k)
    then have k: "k < nat (lh_n s)" "lh_block s ! k = b" using n(3,4) by (auto simp: scan_Some_iff)
    then have "b \<in> set (homes s)" using n by (auto simp: homes_def in_set_conv_nth)
    moreover have "(lh_block s)[k := b] = lh_block s" using k(2) by (metis list_update_id)
    moreover have "s\<lparr>held := {L_log}, lh_block := lh_block s\<rparr> = s\<lparr>held := {L_log}\<rparr>" by (cases s) simp
    ultimately show ?thesis
      using Some n h b x(3) assms(5) k(1) r [of s] by (simp add: log_write_def Let_def logged_def)
  qed
qed

lemma brest_log_upd [simp]: "brest (s\<lparr>lh_n := n, lh_block := bl\<rparr>) = (brest s)\<lparr>lh_n := n, lh_block := bl\<rparr>"
  by (simp add: brest_def quiet_def)

lemma trest_brest: "brest t = brest s \<Longrightarrow> trest t = trest s"
  by (simp add: trest_def)

lemma put_data_fields [simp]: "lh_n (put_data i d s) = lh_n s" "lh_block (put_data i d s) = lh_block s"
    "log_size (put_data i d s) = log_size s" "log_outstanding (put_data i d s) = log_outstanding s"
  by (simp_all add: put_data_def upd_buf_def)

lemma holds_bound: "bio_inv s \<Longrightarrow> holds s i b \<Longrightarrow> b < disksize s"
  using bio_invD(4) [of s i] bio_invD(5) [of s] by (auto simp: holds_def buf_ok_def word_less_nat_alt)

lemma log_write_ok:
  assumes "tx_inv s" "holds s i b" "lh_n s < log_size s - 1" "b \<notin> log_area s" "length d = BSIZE"
  shows "\<exists>t. log_write i (put_data i d s) = Inr t \<and> tx_inv t \<and> holds t = holds s \<and>
    tx_view t = (tx_view s)\<lparr>t_cur := (bcur s)(b := d), t_log := insert b (bpinned s)\<rparr> \<and> dwrites t = dwrites s \<and> bdsk t = bdsk s"
proof -
  note x = tx_invD [OF assms(1)] and p = put_data_ok [OF tx_invD(1) [OF assms(1)] assms(2,5)]
  let ?u = "put_data i d s"
  let ?w = "logged b ?u"
  note c = log_shape_cong [OF p(7)]
  have lw: "log_write i ?u = Inr (pin i ?w)"
    by (rule log_write_eq) (use p(1,2) c(1) x(2,4) assms(2,3) in simp_all)
  have bw: "bio_inv ?w" "holds ?w i b" using p(1,2) assms(2) by simp_all
  note q = pin_ok [OF bw]
  have sh: "log_shape ?w"
    by (rule log_shape_logged)
      (use c(1) x(2) assms(3,4) holds_bound [OF x(1) assms(2)] brest_log [OF p(7)] in \<open>simp_all add: log_area_def lblk_def\<close>)
  note c' = log_shape_cong [OF q(7)]
  have hm: "set (homes ?w) = insert b (set (homes s))"
    using homes_logged [of ?u b] c(2) x(2) log_shapeD(2) [OF x(2)] by (auto simp: log_shape_def)
  have "log_outstanding (pin i ?w) = log_outstanding s" by (simp add: pin_def upd_buf_def)
  then have "tx_inv (pin i ?w)"
    unfolding tx_inv_def using q c' sh hm x(3-5) p by auto
  moreover have "tx_view (pin i ?w) = (tx_view s)\<lparr>t_cur := (bcur s)(b := d), t_log := insert b (bpinned s)\<rparr>"
    using q p c(3) c'(3) by (simp add: tx_view_def)
  moreover have "dwrites ?w = dwrites s" using p(8) by (simp add: logged_def)
  ultimately show ?thesis using lw q(2,4,8) p(2,4) by auto
qed

lemma tx_inv_cong:
  assumes "tx_inv s" "bio_inv t" "brest t = brest s" "bpinned t = bpinned s" "bcur t = bcur s" "bdsk t = bdsk s"
  shows "tx_inv t" "trest t = trest s"
  using assms brest_log(3) [OF assms(3)] log_shape_cong [OF assms(3)] by (simp_all add: tx_inv_def)

interpretation tx: transaction tx_inv tx_view holds disksize log_area "\<lambda>r. nat (log_size r - 1)" NBUF BSIZE "bread 1"
  "\<lambda>s i. b_data (bufs s ! i)" put_data log_write brelse
proof unfold_locales
  fix s :: "'a lstate_scheme" and b :: u32
  assume a: "tx_inv s" "b < disksize (t_rest (tx_view s))" "b \<notin> t_held (tx_view s)"
    "b \<in> t_log (tx_view s) \<or> card (t_held (tx_view s) \<union> t_log (tx_view s)) < NBUF"
  obtain i t where t: "bread 1 b s = Inr (i, t)" "bio_inv t" "holds t i b" "\<forall>j c. holds s j c \<longrightarrow> holds t j c"
    "bio_view t = a_read b (bio_view s)"
    using bio.read_ok [OF tx_invD(1) [OF a(1)], of b] a(2-4) by auto
  have v: "brest t = brest s" "bpinned t = bpinned s" "bcur t = bcur s" "bdsk t = bdsk s" "bheld t = insert b (bheld s)"
    using t(5) by (simp_all add: a_read_def bio_view_def)
  note i = tx_inv_cong [OF a(1) t(2) v(1-4)]
  have "tx_view t = (tx_view s)\<lparr>t_held := insert b (t_held (tx_view s))\<rparr>" using v i(2) by (simp add: tx_view_def)
  with t i(1) show "\<exists>i t. bread 1 b s = Inr (i, t) \<and> tx_inv t \<and> holds t i b \<and> (\<forall>j c. holds s j c \<longrightarrow> holds t j c) \<and>
      tx_view t = (tx_view s)\<lparr>t_held := insert b (t_held (tx_view s))\<rparr>" by blast
next
  fix s :: "'a lstate_scheme" and i :: nat and b :: u32
  assume a: "tx_inv s" "holds s i b"
  show "b_data (bufs s ! i) = t_cur (tx_view s) b" using holds_cur [OF tx_invD(1) [OF a(1)] a(2)] by simp
  have "b \<in> bpinned s \<or> bcur s b = bdsk s b" using tx_invD(5) [OF a(1)] by blast
  then obtain t where t: "brelse i s = Inr t" "bio_inv t" "\<forall>j c. c \<noteq> b \<longrightarrow> holds s j c \<longrightarrow> holds t j c"
    "bio_view t = a_release b (bio_view s)"
    using bio.release_ok [OF tx_invD(1) [OF a(1)] a(2)] by auto
  have v: "brest t = brest s" "bpinned t = bpinned s" "bcur t = bcur s" "bdsk t = bdsk s" "bheld t = bheld s - {b}"
    using t(4) by (simp_all add: a_release_def bio_view_def)
  note i = tx_inv_cong [OF a(1) t(2) v(1-4)]
  have "tx_view t = (tx_view s)\<lparr>t_held := t_held (tx_view s) - {b}\<rparr>" using v i(2) by (simp add: tx_view_def)
  with t i(1) show "\<exists>t. brelse i s = Inr t \<and> tx_inv t \<and> (\<forall>j c. c \<noteq> b \<longrightarrow> holds s j c \<longrightarrow> holds t j c) \<and>
      tx_view t = (tx_view s)\<lparr>t_held := t_held (tx_view s) - {b}\<rparr>" by blast
next
  fix s :: "'a lstate_scheme" and i :: nat and b :: u32 and d :: "u8 list"
  assume a: "tx_inv s" "holds s i b" "b \<notin> log_area (t_rest (tx_view s))"
    "card (t_log (tx_view s)) < nat (log_size (t_rest (tx_view s)) - 1)" "length d = BSIZE"
  note x = tx_invD [OF a(1)]
  have "lh_n s < log_size s - 1" using a(4) log_shapeD(3) [OF x(2)] x(3) by simp
  from log_write_ok [OF a(1,2) this] a(3,5)
  show "\<exists>t. log_write i (put_data i d s) = Inr t \<and> tx_inv t \<and> holds t = holds s \<and>
      tx_view t = (tx_view s)\<lparr>t_cur := (t_cur (tx_view s))(b := d), t_log := insert b (t_log (tx_view s))\<rparr>" by simp blast
next
  fix s :: "'a lstate_scheme" and b :: u32
  assume "tx_inv s" "b < disksize (t_rest (tx_view s))"
  then show "length (t_cur (tx_view s) b) = BSIZE" using bio.size_ok [of s b] tx_invD(1) [of s] by simp
qed

section \<open>Opening and committing a transaction\<close>

lemma begin_op_ok:
  assumes "held s = {}" and "\<not> log_committing s" and "lh_n s + (log_outstanding s + 1) * int MAXOPBLOCKS \<le> int LOGSIZE"
  shows "begin_op s = Inr (s\<lparr>log_outstanding := log_outstanding s + 1\<rparr>)"
proof -
  have "(s\<lparr>log_outstanding := log_outstanding s + 1\<rparr>)\<lparr>held := {}\<rparr> = s\<lparr>log_outstanding := log_outstanding s + 1\<rparr>"
    using assms(1) by simp
  with assms show ?thesis by (simp add: begin_op_def begin_op_enter_def begin_op_iter_def)
qed

text \<open>Waking the waiters and taking or dropping the log's lock change nothing of the disk.\<close>

lemma wakeup_log:
  assumes "bio_inv s"
  shows "\<exists>t. bindE (acquire L_log s) (\<lambda>s. bindE (wakeup (Some Ch_log) (s\<lparr>log_committing := c\<rparr>)) (release L_log)) = Inr t \<and>
    bio_inv t \<and> bcur t = bcur s \<and> bdsk t = bdsk s \<and> bheld t = bheld s \<and> bpinned t = bpinned s \<and> dwrites t = dwrites s \<and>
    brest t = (brest s)\<lparr>log_committing := c\<rparr>"
proof -
  note b = bio_invD [OF assms]
  have s: "held s = {}" "sinv {} {} s" "myproc s \<noteq> None" using b(1) by (auto simp: in_proc_def)
  let ?u = "s\<lparr>log_committing := c\<rparr>"
  let ?s = "s\<lparr>held := {L_log}, log_committing := c\<rparr>"
  have su: "sinv {} {} ?u" "sinv {} {} ?s" using s(2) by (subst sinv_cong [of _ s], simp_all)+
  have "\<exists>t. wakeup (Some Ch_log) ?s = Inr t \<and> quiet t = quiet ?s \<and> sinv {} {} t"
    by (rule wakeup_in_proc) (use su in \<open>simp_all\<close>)
  then obtain t where t: "wakeup (Some Ch_log) ?s = Inr t" "quiet t = quiet ?s" "sinv {} {} t" by blast
  let ?t = "t\<lparr>held := {}\<rparr>"
  have t2: "quiet t = quiet (?u\<lparr>held := {L_log}\<rparr>)" using t(2) by (cases s) simp
  have "?u\<lparr>held := {}\<rparr> = ?u" using s(1) by (cases s) simp
  then have q: "quiet ?t = quiet ?u" using quiet_held [OF t2, of "{}"] by (simp only:)
  note qb = quiet_bio [OF q]
  have "held t = {L_log}" using quietD(1) [OF t(2)] by simp
  then have r: "bindE (acquire L_log s) (\<lambda>s. bindE (wakeup (Some Ch_log) (s\<lparr>log_committing := c\<rparr>)) (release L_log)) = Inr ?t"
    using s(1) t(1) by simp
  have ip: "in_proc ?t" using t(3) quietD(4) [OF q] s(3) by (simp add: in_proc_def myproc_def)
  have mp: "mypid ?t = mypid s" using mypid_quiet [OF q su(1)] by (simp add: mypid_def myproc_def cong: option.case_cong)
  obtain ys where "linked (bufs s) ys" using assms by (auto simp: bio_inv_def)
  then have "bio_inv ?t \<and> holds ?t = holds s \<and> pins ?t = pins s \<and> bcur ?t = bcur s \<and> bdsk ?t = bdsk s"
    by (intro bio_inv_core [OF assms ip mp]) (use qb in \<open>simp_all add: same_core_def\<close>)
  moreover have "brest ?t = (brest s)\<lparr>log_committing := c\<rparr>" using qb(5) by (simp add: brest_def quiet_def)
  ultimately show ?thesis using r qb(4) by (auto simp: bheld_def bpinned_def)
qed

text \<open>The last operation of a transaction puts every block it changed on the disk.\<close>

lemma tx_commit:
  assumes ok: "log_ok s" and pin: "bpinned s = set (homes s)"
  shows "\<exists>t. commit s = Inr t \<and> log_ok t \<and> bpinned t = {} \<and> lh_n t = 0 \<and> trest t = trest s \<and>
    (\<forall>b. b \<notin> log_area s \<longrightarrow> bcur t b = bcur s b)"
proof (cases "0 < lh_n s")
  case True
  then obtain t where t: "commit s = Inr t" "log_ok t" "bpinned t = {}" "lh_n t = 0"
    "\<forall>b. b \<notin> log_area s \<longrightarrow> bcur t b = bcur s b" "brest t = (brest s)\<lparr>lh_n := 0\<rparr>"
    using commit_ok [OF ok pin] by blast
  moreover have "trest t = trest s" using t(6) by (simp add: trest_def)
  ultimately show ?thesis by simp
next
  case False
  then have "lh_n s = 0" "homes s = []" using log_okD(9) [OF ok] by (simp_all add: homes_def)
  then show ?thesis using ok pin by (simp add: commit_def)
qed

lemma end_op_ok:
  assumes "tx_inv s" "bheld s = {}" and "\<not> log_committing s" "log_outstanding s = 1"
  shows "\<exists>t. end_op s = Inr t \<and> log_ok t \<and> lh_n t = 0 \<and> bpinned t = {} \<and>
    trest t = (trest s)\<lparr>log_outstanding := 0, log_committing := False\<rparr> \<and>
    (\<forall>b. b \<notin> log_area s \<longrightarrow> bcur t b = bcur s b \<and> bdsk t b = bcur s b)"
proof -
  note x = tx_invD [OF assms(1)]
  let ?u = "s\<lparr>log_outstanding := 0, log_committing := True\<rparr>"
  have h: "held s = {}" using bio_invD(1) [OF x(1)] by (simp add: in_proc_def)
  have e: "end_op s = bindE (commit ?u) (\<lambda>s. bindE (acquire L_log s) (\<lambda>s.
      bindE (wakeup (Some Ch_log) (s\<lparr>log_committing := False\<rparr>)) (release L_log)))"
  proof -
    have u: "s\<lparr>log_outstanding := 0, log_committing := True, held := {}\<rparr> = ?u" using h by (cases s) simp
    show ?thesis using h assms(3,4) by (simp add: end_op_def) (simp only: u)
  qed
  have c: "bio_inv ?u = bio_inv s" "bcur ?u = bcur s" "bheld ?u = bheld s" "bpinned ?u = bpinned s" by (rule bio_cong; simp)+
  have l: "homes ?u = homes s" "log_area ?u = log_area s" "log_shape ?u = log_shape s"
    by (simp_all add: homes_def log_area_def lblk_def log_shape_def log_geom_def)
  have "\<exists>t. commit ?u = Inr t \<and> log_ok t \<and> bpinned t = {} \<and> lh_n t = 0 \<and> trest t = trest ?u \<and>
      (\<forall>b. b \<notin> log_area ?u \<longrightarrow> bcur t b = bcur ?u b)"
    by (rule tx_commit) (use x(1-3) assms(2) c l in \<open>simp_all add: log_ok_shape\<close>)
  then obtain t where t: "commit ?u = Inr t" "log_ok t" "bpinned t = {}" "lh_n t = 0" "trest t = trest ?u"
    "\<forall>b. b \<notin> log_area s \<longrightarrow> bcur t b = bcur s b" using c l by auto
  obtain w where w: "bindE (acquire L_log t) (\<lambda>s. bindE (wakeup (Some Ch_log) (s\<lparr>log_committing := False\<rparr>)) (release L_log)) = Inr w"
    "bio_inv w" "bcur w = bcur t" "bdsk w = bdsk t" "bheld w = bheld t" "bpinned w = bpinned t" "brest w = (brest t)\<lparr>log_committing := False\<rparr>"
    using wakeup_log [OF log_okD(1) [OF t(2)], of False] by blast
  have ew: "end_op s = Inr w" using e t(1) w(1) by simp
  have "log_start w = log_start t" "log_size w = log_size t" "disksize w = disksize t" "log_dev w = log_dev t" "lh_n w = lh_n t"
    "lh_block w = lh_block t" using brest_log [of w "t\<lparr>log_committing := False\<rparr>"] w(7) by (simp_all add: brest_def quiet_def)
  then have ok: "log_ok w" "lh_n w = 0"
    using t(2,4) w(2,5) by (simp_all add: log_ok_def log_geom_def homes_def log_area_def)
  have "trest w = (trest s)\<lparr>log_outstanding := 0, log_committing := False\<rparr>"
  proof -
    have "trest w = (trest t)\<lparr>log_committing := False\<rparr>" using w(7) by (simp add: trest_def)
    then show ?thesis unfolding t(5) by (simp add: trest_def brest_def quiet_def)
  qed
  moreover have "bdsk w b = bcur w b" for b using bcur_clean [OF w(2), of b] w(5,6) log_okD(2) [OF t(2)] t(3) by simp
  ultimately show ?thesis using ew ok t(3,6) w(3,6) by simp
qed

end
