(* ===== verification/Log_Props.thy ===== *)
theory Log_Props
  imports Log_Tx Sched_Props
begin

text \<open>
  The properties of the log: a transaction is atomic with respect to crashes, and committing it installs exactly
  its blocks.
\<close>

lemma sint_word_of_int_u32: "- 2147483648 \<le> n \<Longrightarrow> n < 2147483648 \<Longrightarrow> sint (word_of_int n :: u32) = n"
  by (simp add: signed_of_int signed_take_bit_int_eq_self)

section \<open>Prefixes of the writes of a commit\<close>

lemma writes_take: "fst ` set (take j (log_part s)) \<subseteq> lblk s ` {..<nat (lh_n s)}"
  "fst ` set (take j (home_part s)) \<subseteq> (\<lambda>k. homes s ! k) ` {..<nat (lh_n s)}"
proof -
  have "fst ` set (log_part s) = lblk s ` {..<nat (lh_n s)}" "fst ` set (home_part s) = (\<lambda>k. homes s ! k) ` {..<nat (lh_n s)}"
    by (simp_all add: log_part_def home_part_def image_image atLeast0LessThan)
  then show "fst ` set (take j (log_part s)) \<subseteq> lblk s ` {..<nat (lh_n s)}"
    "fst ` set (take j (home_part s)) \<subseteq> (\<lambda>k. homes s ! k) ` {..<nat (lh_n s)}"
    by (metis image_mono set_take_subset)+
qed

lemma log_blocks_area:
  assumes "log_ok s"
  shows "lblk s ` {..<nat (lh_n s)} \<subseteq> log_area s" "log_start s \<notin> lblk s ` {..<nat (lh_n s)}"
    "(\<lambda>k. homes s ! k) ` {..<nat (lh_n s)} = set (homes s)" "set (homes s) \<inter> log_area s = {}" "log_start s \<in> log_area s"
proof -
  note o = log_okD [OF assms]
  have b: "lblk s k \<in> log_area s" "lblk s k \<noteq> log_start s" if "k < nat (lh_n s)" for k
    using lblk_bound [OF o(3), of k] that o(6) by linarith+
  show "lblk s ` {..<nat (lh_n s)} \<subseteq> log_area s" "log_start s \<notin> lblk s ` {..<nat (lh_n s)}"
    using b by (blast, metis imageE lessThan_iff)
  show h: "(\<lambda>k. homes s ! k) ` {..<nat (lh_n s)} = set (homes s)" using o(8) by (auto simp: set_conv_nth)
  show "set (homes s) \<inter> log_area s = {}" using o(11) unfolding h [symmetric] by blast
  show "log_start s \<in> log_area s" by (simp add: log_area_def)
qed

lemma apply_home_part:
  assumes "log_ok s"
  shows "apply_writes (home_part s) d b = (if b \<in> set (homes s) then bcur s b else d b)"
proof (cases "b \<in> set (homes s)")
  case True
  note o = log_okD [OF assms]
  have "distinct (map (\<lambda>k. homes s ! k) [0..<nat (lh_n s)])" using o(5,8) map_nth [of "homes s"] by simp
  moreover obtain k where "b = homes s ! k" "k < nat (lh_n s)" using True o(8) by (auto simp: in_set_conv_nth)
  ultimately have "apply_writes (home_part s) d b = bcur s b"
    unfolding home_part_def using apply_writes_map [of "\<lambda>k. homes s ! k" "[0..<nat (lh_n s)]" k "\<lambda>k. bcur s (homes s ! k)"]
    by simp
  with True show ?thesis by simp
next
  case False
  then show ?thesis
    unfolding home_part_def using log_blocks_area(3) [OF assms] by (simp add: apply_writes_upt)
qed

lemma head_full_decode:
  assumes "log_ok s"
  shows "head_n (head_full s) = lh_n s" "head_blocks (head_full s) = homes s"
proof -
  note o = log_okD [OF assms]
  have d: "length (bdsk s (log_start s)) = BSIZE"
    using o(1) start_bound [OF o(3)] bio_invD(5,6) [OF o(1)] by (simp add: bdsk_def word_less_nat_alt)
  have n: "nat (lh_n s) \<le> LOGSIZE" "lh_n s < 2147483648" using o(7,9) by (auto simp: LOGSIZE_def MAXOPBLOCKS_def)
  then have "sint (word_of_int (lh_n s) :: u32) = lh_n s" using o(9) by (intro sint_word_of_int_u32) simp_all
  then show h: "head_n (head_full s) = lh_n s"
    unfolding head_n_def head_full_def by (simp add: get32_enc_head [OF d o(4) n(1)])
  show "head_blocks (head_full s) = homes s"
    using get32s_enc_head [OF d o(4) n(1)] unfolding head_blocks_def h by (simp add: homes_def head_full_def)
qed

text \<open>The disk after each prefix of the writes, as recovery finds it.\<close>

definition crash_disk :: "'a lstate_scheme \<Rightarrow> (u32 \<times> u8 list) list \<Rightarrow> 'a lstate_scheme \<Rightarrow> bool" where
  "crash_disk s ws r \<longleftrightarrow> bio_inv r \<and> bheld r = {} \<and> bpinned r = {} \<and> log_geom r \<and> length (lh_block r) = LOGSIZE \<and>
     log_start r = log_start s \<and> log_size r = log_size s \<and> disksize r = disksize s \<and>
     (\<forall>b < disksize s. bdsk r b = apply_writes ws (bdsk s) b)"

lemma recover_empty:
  assumes "crash_disk s ws r" and "head_n (bdsk r (log_start s)) = 0"
  shows "\<exists>t. recover_from_log r = Inr t \<and> log_ok t \<and> lh_n t = 0 \<and> (\<forall>b. b \<noteq> log_start s \<longrightarrow> bdsk t b = bdsk r b)"
proof -
  have hb: "head_blocks (bdsk r (log_start s)) = []" using assms(2) by (simp add: head_blocks_def get32s_def)
  have c: "bio_inv r" "bheld r = {}" "bpinned r = {}" "log_geom r" "length (lh_block r) = LOGSIZE" "log_start r = log_start s"
    using assms(1) by (simp_all add: crash_disk_def)
  have "1 \<le> log_size r" using c(4) by (simp add: log_geom_def)
  then show ?thesis using recover_ok [OF c(1-5) refl] assms(2) hb c(6) by auto
qed

lemma recover_full:
  assumes ok: "log_ok s" and c: "crash_disk s ws r" and d: "bdsk r (log_start s) = head_full s"
    and lg: "\<And>k. k < nat (lh_n s) \<Longrightarrow> bdsk r (lblk s k) = bcur s (homes s ! k)"
  shows "\<exists>t. recover_from_log r = Inr t \<and> log_ok t \<and> lh_n t = 0 \<and>
    (\<forall>b. b \<noteq> log_start s \<longrightarrow> bdsk t b = (if b \<in> set (homes s) then bcur s b else bdsk r b))"
proof -
  note o = log_okD [OF ok]
  have r: "bio_inv r" "bheld r = {}" "bpinned r = {}" "log_geom r" "length (lh_block r) = LOGSIZE" "log_start r = log_start s"
    "log_size r = log_size s" "disksize r = disksize s"
    using c by (simp_all add: crash_disk_def)
  have e: "lblk r = lblk s" "log_area r = log_area s" by (simp_all add: lblk_def [abs_def] log_area_def r)
  note f = head_full_decode [OF ok]
  have "map (\<lambda>k. (homes s ! k, bdsk r (lblk s k))) [0..<nat (lh_n s)] = home_part s"
    unfolding home_part_def using lg by simp
  then have w: "apply_writes (map (\<lambda>k. (homes s ! k, bdsk r (lblk s k))) [0..<nat (lh_n s)]) (bdsk r) b =
      (if b \<in> set (homes s) then bcur s b else bdsk r b)" for b
    by (simp only: apply_home_part [OF ok])
  have h: "lh_n s \<le> log_size s - 1" "\<forall>h \<in> set (homes s). h < disksize s \<and> h \<notin> log_area s"
    using ok by (simp_all add: log_ok_def)
  show ?thesis
    using recover_ok [OF r(1-5) refl] unfolding r(6-8) d f e w using o(5,9) h by blast
qed

section \<open>Crash safety\<close>

lemma crash_before_header:
  assumes ok: "log_ok s" and "head_n (bdsk s (log_start s)) = 0" and c: "crash_disk s (take j (log_part s)) r"
  shows "\<exists>t. recover_from_log r = Inr t \<and> log_ok t \<and> lh_n t = 0 \<and>
    (\<forall>b < disksize s. b \<notin> log_area s \<longrightarrow> bdsk t b = bdsk s b)"
proof -
  note a = log_blocks_area [OF ok]
  have w: "apply_writes (take j (log_part s)) (bdsk s) b = bdsk s b" if "b \<notin> lblk s ` {..<nat (lh_n s)}" for b
    using that writes_take(1) [of j s] by (intro apply_writes_other) blast
  have d: "bdsk r b = bdsk s b" if "b < disksize s" "b \<notin> lblk s ` {..<nat (lh_n s)}" for b
    using c w [OF that(2)] that(1) by (simp add: crash_disk_def)
  have "head_n (bdsk r (log_start s)) = 0" using d start_bound [OF log_okD(3) [OF ok]] a(2) assms(2) by simp
  then obtain t where "recover_from_log r = Inr t" "log_ok t" "lh_n t = 0" "\<forall>b. b \<noteq> log_start s \<longrightarrow> bdsk t b = bdsk r b"
    using recover_empty [OF c] by blast
  moreover have "b \<noteq> log_start s" "b \<notin> lblk s ` {..<nat (lh_n s)}" if "b \<notin> log_area s" for b using that a(1,5) by auto
  ultimately show ?thesis using d by metis
qed

lemma apply_logged:
  assumes ok: "log_ok s" and "fst ` set us \<subseteq> set (homes s)"
  shows "apply_writes (log_part s @ (log_start s, head_full s) # us) d (log_start s) = head_full s"
    and "k < nat (lh_n s) \<Longrightarrow> apply_writes (log_part s @ (log_start s, head_full s) # us) d (lblk s k) = bcur s (homes s ! k)"
    and "b \<notin> log_area s \<Longrightarrow> b \<notin> set (homes s) \<Longrightarrow> apply_writes (log_part s @ (log_start s, head_full s) # us) d b = d b"
proof -
  note a = log_blocks_area [OF ok]
  have other: "apply_writes us e b = e b" if "b \<notin> set (homes s)" for b e
    by (rule apply_writes_other) (use that assms(2) in blast)
  have la: "b \<notin> set (homes s)" if "b \<in> log_area s" for b using that a(4) by blast
  show "apply_writes (log_part s @ (log_start s, head_full s) # us) d (log_start s) = head_full s"
    by (simp add: other [OF la [OF a(5)]])
  show "apply_writes (log_part s @ (log_start s, head_full s) # us) d (lblk s k) = bcur s (homes s ! k)" if k: "k < nat (lh_n s)"
  proof -
    have "lblk s k \<in> lblk s ` {..<nat (lh_n s)}" using k by simp
    then have l: "lblk s k \<in> log_area s" "lblk s k \<noteq> log_start s" using a(1,2) by (blast, metis)
    show ?thesis using l(2) by (simp add: other [OF la [OF l(1)]] apply_log_part [OF ok k])
  qed
  show "apply_writes (log_part s @ (log_start s, head_full s) # us) d b = d b" if "b \<notin> log_area s" "b \<notin> set (homes s)"
  proof -
    have "b \<noteq> log_start s" "b \<notin> lblk s ` {..<nat (lh_n s)}" using that(1) a(1,5) by blast+
    then show ?thesis by (simp add: other [OF that(2)] log_part_def apply_writes_upt)
  qed
qed

lemma crash_after_header:
  assumes ok: "log_ok s" and pin: "bpinned s = set (homes s)"
    and c: "crash_disk s (log_part s @ (log_start s, head_full s) # take j (home_part s)) r"
  shows "\<exists>t. recover_from_log r = Inr t \<and> log_ok t \<and> lh_n t = 0 \<and>
    (\<forall>b < disksize s. b \<notin> log_area s \<longrightarrow> bdsk t b = bcur s b)"
proof -
  note o = log_okD [OF ok] and a = log_blocks_area [OF ok]
  have us: "fst ` set (take j (home_part s)) \<subseteq> set (homes s)" using writes_take(2) [of j s] a(3) by simp
  note w = apply_logged [OF ok us]
  have d: "bdsk r b = apply_writes (log_part s @ (log_start s, head_full s) # take j (home_part s)) (bdsk s) b"
    if "b < disksize s" for b using c that by (simp add: crash_disk_def)
  have "bdsk r (log_start s) = head_full s" unfolding d [OF start_bound [OF o(3)]] by (rule w(1))
  moreover have "bdsk r (lblk s k) = bcur s (homes s ! k)" if k: "k < nat (lh_n s)" for k
  proof -
    have "lblk s k < disksize s" by (rule lblk_bound(1) [OF o(3)]) (use k o(6) in linarith)
    from d [OF this] show ?thesis unfolding w(2) [OF k] .
  qed
  ultimately obtain t where t: "recover_from_log r = Inr t" "log_ok t" "lh_n t = 0"
    "\<forall>b. b \<noteq> log_start s \<longrightarrow> bdsk t b = (if b \<in> set (homes s) then bcur s b else bdsk r b)"
    using recover_full [OF ok c] by blast
  have "bdsk t b = bcur s b" if b: "b < disksize s" "b \<notin> log_area s" for b
  proof -
    have "b \<noteq> log_start s" using b(2) a(5) by metis
    then have tb: "bdsk t b = (if b \<in> set (homes s) then bcur s b else bdsk r b)" using t(4) by blast
    show ?thesis
    proof (cases "b \<in> set (homes s)")
      case False
      then have "bcur s b = bdsk s b" using bcur_clean [OF o(1)] o(2) pin by simp
      then show ?thesis using tb d [OF b(1)] w(3) [OF b(2) False] False by simp
    qed (use tb in simp)
  qed
  with t show ?thesis by blast
qed

lemma crash_after_all:
  assumes ok: "log_ok s" and pin: "bpinned s = set (homes s)" and c: "crash_disk s (commit_writes s) r"
  shows "\<exists>t. recover_from_log r = Inr t \<and> log_ok t \<and> lh_n t = 0 \<and>
    (\<forall>b < disksize s. b \<notin> log_area s \<longrightarrow> bdsk t b = bcur s b)"
proof -
  note o = log_okD [OF ok] and a = log_blocks_area [OF ok]
  have d: "bdsk r b = apply_writes (commit_writes s) (bdsk s) b" if "b < disksize s" for b
    using c that by (simp add: crash_disk_def)
  have "length (bdsk s (log_start s)) = BSIZE"
    using o(1) start_bound [OF o(3)] bio_invD(5,6) [OF o(1)] by (simp add: bdsk_def word_less_nat_alt)
  then have "length (head_full s) = BSIZE" unfolding head_full_def using length_enc_head o(7) by simp
  then have "head_n (bdsk r (log_start s)) = 0"
    using get32_enc_head [OF _ o(4), of "head_full s" 0] unfolding d [OF start_bound [OF o(3)]]
    by (simp add: commit_writes_def head_n_def)
  then obtain t where t: "recover_from_log r = Inr t" "log_ok t" "lh_n t = 0" "\<forall>b. b \<noteq> log_start s \<longrightarrow> bdsk t b = bdsk r b"
    using recover_empty [OF c] by blast
  have "bdsk t b = bcur s b" if b: "b < disksize s" "b \<notin> log_area s" for b
  proof -
    have nb: "b \<noteq> log_start s" "b \<notin> lblk s ` {..<nat (lh_n s)}" using b(2) a(1,5) by auto
    have "b \<notin> set (homes s) \<Longrightarrow> bcur s b = bdsk s b" using bcur_clean [OF o(1)] o(2) pin by simp
    then show ?thesis
      using t(4) nb d [OF b(1)] by (simp add: commit_writes_def apply_home_part [OF ok] log_part_def apply_writes_upt)
  qed
  with t show ?thesis by blast
qed

lemma commit_prefix:
  assumes "ws @ ws' = commit_writes s"
  shows "length ws \<le> nat (lh_n s) \<and> ws = take (length ws) (log_part s) \<or>
    \<not> length ws \<le> nat (lh_n s) \<and> (\<exists>j. ws = log_part s @ (log_start s, head_full s) # take j (home_part s)) \<or>
    \<not> length ws \<le> nat (lh_n s) \<and> ws = commit_writes s"
proof -
  let ?n = "nat (lh_n s)" and ?j = "length ws"
  have len: "length (log_part s) = ?n" "length (home_part s) = ?n" by (simp_all add: log_part_def home_part_def)
  have ws: "take ?j (commit_writes s) = ws" by (simp add: assms [symmetric])
  consider "?j \<le> ?n" | "?n < ?j" "?j - Suc ?n \<le> ?n" | "?n < ?j" "?n < ?j - Suc ?n" by linarith
  then show ?thesis
  proof cases
    case 1
    then have "take ?j (commit_writes s) = take ?j (log_part s)" using len by (simp add: commit_writes_def)
    with ws 1 show ?thesis by metis
  next
    case 2
    then obtain i where i: "?j = Suc (?n + i)" "i \<le> ?n" by (metis add_Suc less_eq_Suc_le le_add_diff_inverse)
    then have "take ?j (commit_writes s) = log_part s @ (log_start s, head_full s) # take i (home_part s)"
      using len by (simp add: commit_writes_def)
    with ws 2(1) show ?thesis by (metis not_le)
  next
    case 3
    then have "take ?j (commit_writes s) = commit_writes s" using len by (simp add: commit_writes_def)
    with ws 3(1) show ?thesis by (metis not_le)
  qed
qed

section \<open>An example disk\<close>

definition blank_buf :: buf where
  "blank_buf = \<lparr>b_valid = False, b_dirty = False, b_dev = 0, b_blockno = 0, b_lock = \<lparr>sl_locked = False, sl_pid = 0\<rparr>,
     b_refcnt = 0, b_prev = 0, b_next = 0, b_data = []\<rparr>"

definition disk_image :: "pstate \<Rightarrow> u8 list list \<Rightarrow> lstate" where
  "disk_image p dk = bstate.extend (pstate.extend p (bstate.fields (replicate (Suc NBUF) blank_buf) dk (of_nat (length dk)) []))
     (lstate.fields 2 4 1 False 1 0 (replicate LOGSIZE 0))"

lemma disk_image_simps [simp]:
  "bufs (disk_image p dk) = replicate (Suc NBUF) blank_buf" "memdisk (disk_image p dk) = dk"
  "disksize (disk_image p dk) = of_nat (length dk)" "log_start (disk_image p dk) = 2" "log_size (disk_image p dk) = 4"
  "log_outstanding (disk_image p dk) = 1" "\<not> log_committing (disk_image p dk)" "log_dev (disk_image p dk) = 1"
  "lh_n (disk_image p dk) = 0" "lh_block (disk_image p dk) = replicate LOGSIZE 0" "dwrites (disk_image p dk) = []"
  by (simp_all add: disk_image_def bstate.defs pstate.defs lstate.defs)

lemma disk_image_proc: "in_proc (disk_image p dk) = in_proc p"
  by (simp add: in_proc_def disk_image_def bstate.defs pstate.defs lstate.defs myproc_def sinv_def table_ok_def mlfq_ok_def
      queue_ok_def qbank_def runnables_def cpu_ok_def)

lemma disk_image_binit:
  assumes "in_proc p" and "length dk = 64" "\<forall>d \<in> set dk. length d = BSIZE"
  shows "\<exists>s. s = binit (disk_image p dk) \<and> log_ok s \<and> log_geom s \<and> bpinned s = {} \<and> log_start s = 2 \<and> log_size s = 4 \<and> disksize s = 64 \<and>
    lh_n s = 0 \<and> length (lh_block s) = LOGSIZE \<and> log_outstanding s = 1 \<and> (\<forall>b. bdsk s b = dk ! unat b)"
proof -
  let ?d = "disk_image p dk"
  let ?s = "binit ?d"
  have b: "bio_inv ?s" "bheld ?s = {}" "bpinned ?s = {}" "bdsk ?s = bdsk ?d" "brest ?s = brest ?d"
    using binit_ok [of ?d] assms by (auto simp: disk_image_proc fresh_buf_def blank_buf_def unat_of_nat)
  note l = brest_log [OF b(5), simplified]
  have "log_geom ?s" using l assms(2) by (simp add: log_geom_def LOGSIZE_def MAXOPBLOCKS_def)
  moreover have "bdsk ?s c = dk ! unat c" for c unfolding b(4) by (simp add: bdsk_def)
  ultimately show ?thesis using b(1-3) l assms(2) by (simp add: log_ok_shape log_shape_def homes_def)
qed

text \<open>A transaction that changes block 60 of an empty disk.\<close>

lemma example_area: "log_start s = 2 \<Longrightarrow> log_size s = 4 \<Longrightarrow> 60 \<notin> log_area s"
proof -
  have "{..<3::nat} = {0, 1, 2}" by auto
  then show "log_start s = 2 \<Longrightarrow> log_size s = 4 \<Longrightarrow> 60 \<notin> log_area s" by (simp add: log_area_def lblk_def)
qed

lemma example_tx:
  assumes "in_proc (p :: pstate)"
  shows "\<exists>s. log_ok (s :: lstate) \<and> bpinned s = set (homes s) \<and> 0 < lh_n s \<and> head_n (bdsk s (log_start s)) = 0 \<and> log_start s = 2 \<and>
    log_size s = 4 \<and> disksize s = 64 \<and> bcur s 60 = replicate BSIZE 1"
proof -
  let ?dk = "replicate 64 (replicate BSIZE 0) :: u8 list list"
  obtain s :: lstate where s: "log_ok s" "bpinned s = {}" "log_start s = 2" "log_size s = 4" "disksize s = 64" "lh_n s = 0"
    "log_outstanding s = 1" "\<forall>b. bdsk s b = ?dk ! unat b"
    using disk_image_binit [OF assms, of ?dk] by auto
  have tx: "tx_inv s"
    using s(1,2,6,7) bcur_clean [of s] by (simp add: tx_inv_def log_ok_shape homes_def)
  have area: "60 \<notin> log_area s" using example_area [OF s(3,4)] .
  obtain t where t: "tx_inv t" "tx_view t = (tx_view s)\<lparr>t_cur := (bcur s)(60 := replicate BSIZE 1), t_log := {60}\<rparr>"
    using tx.edit_block [OF tx, of 60 "\<lambda>_. replicate BSIZE 1"] s(2,4,5) log_okD(2) [OF s(1)] area by (auto simp: NBUF_def MAXOPBLOCKS_def)
  have v: "bcur t = (bcur s)(60 := replicate BSIZE 1)" "bheld t = {}" "bpinned t = {60}" "trest t = trest s"
    using arg_cong [OF t(2), of t_cur] arg_cong [OF t(2), of t_held] arg_cong [OF t(2), of t_log] arg_cong [OF t(2), of t_rest]
      log_okD(2) [OF s(1)] by simp_all
  have l: "log_start t = 2" "log_size t = 4" "disksize t = 64"
    using arg_cong [OF v(4), of log_start] arg_cong [OF v(4), of log_size] arg_cong [OF v(4), of disksize] s(3-5)
    by (simp_all add: trest_def brest_def quiet_def)
  have "homes t \<noteq> []" using tx_invD(3) [OF t(1)] v(3) by force
  then have n: "0 < lh_n t" by (auto simp: homes_def)
  have "bdsk t 2 = bdsk s 2"
    using tx_invD(5) [OF t(1), of 2] tx_invD(5) [OF tx, of 2] v(1,3) s(2) by simp
  then have "head_n (bdsk t (log_start t)) = 0"
    using s(8) l(1) by (simp add: head_n_def get32_def part_def word32_def BSIZE_def)
  with t n l v show ?thesis by (intro exI [of _ t]) (auto simp: tx_inv_def log_ok_shape)
qed

text \<open>
  C1: A transaction is atomic. If the machine stops during a commit after the disk writes \<open>ws\<close>, recovery
  at the next boot succeeds and leaves every block outside the log as it was before the transaction, if the
  header was not yet written, and as the transaction made it otherwise.
\<close>

theorem log_crash_safe:
  assumes "log_ok s" and "bpinned s = set (homes s)" and "0 < lh_n s" and "head_n (bdsk s (log_start s)) = 0"
    and "commit s = Inr s'" and "dwrites s' = dwrites s @ ws @ ws'" and "crash_disk s ws r"
  shows "\<exists>t. recover_from_log r = Inr t \<and> log_ok t \<and> lh_n t = 0 \<and>
    (\<forall>b < disksize s. b \<notin> log_area s \<longrightarrow>
       bdsk t b = (if length ws \<le> nat (lh_n s) then bdsk s b else bcur s b))"
proof -
  have cw: "ws @ ws' = commit_writes s"
  proof -
    obtain t where "commit s = Inr t" "dwrites t = dwrites s @ commit_writes s" using commit_ok [OF assms(1-3)] by blast
    then show ?thesis using assms(5,6) by simp
  qed
  consider (before) "length ws \<le> nat (lh_n s)" "ws = take (length ws) (log_part s)"
    | (after) j where "\<not> length ws \<le> nat (lh_n s)" "ws = log_part s @ (log_start s, head_full s) # take j (home_part s)"
    | (whole) "\<not> length ws \<le> nat (lh_n s)" "ws = commit_writes s"
    using commit_prefix [OF cw] by blast
  then show ?thesis
  proof cases
    case before
    have "crash_disk s (take (length ws) (log_part s)) r" using before(2) assms(7) by (rule subst)
    from crash_before_header [OF assms(1,4) this] before(1) show ?thesis by simp
  next
    case after
    then show ?thesis using crash_after_header [OF assms(1,2), of j r] assms(7) by simp
  next
    case whole
    then show ?thesis using crash_after_all [OF assms(1,2), of r] assms(7) by simp
  qed
qed

theorem log_crash_safe_witness:
  "\<exists>s s' ws ws' r (t :: lstate). log_ok s \<and> bpinned s = set (homes s) \<and> 0 < lh_n s \<and> head_n (bdsk s (log_start s)) = 0 \<and>
    commit s = Inr s' \<and> dwrites s' = dwrites s @ ws @ ws' \<and> crash_disk s ws r \<and> recover_from_log r = Inr t \<and>
    bdsk t 60 = replicate BSIZE 1"
proof -
  obtain p :: pstate and i where "reach sched_init sched_step p" "held p = {}" "myproc p = Some i" using example_running by blast
  then have p: "in_proc p" using sched_sys.reach_inv by (auto simp: in_proc_def)
  obtain s :: lstate where s: "log_ok s" "bpinned s = set (homes s)" "0 < lh_n s" "head_n (bdsk s (log_start s)) = 0"
    "log_start s = 2" "log_size s = 4" "disksize s = 64" "bcur s 60 = replicate BSIZE 1" using example_tx [OF p] by blast
  obtain s' where c: "commit s = Inr s'" "log_ok s'" "bdsk s' = apply_writes (commit_writes s) (bdsk s)"
    "dwrites s' = dwrites s @ commit_writes s" "brest s' = (brest s)\<lparr>lh_n := 0\<rparr>"
    using commit_ok [OF s(1-3)] by blast
  note b = bio_invD(5,6) [OF log_okD(1) [OF c(2)]]
  have "disksize s' = 64" using arg_cong [OF c(5), of disksize] s(7) by (simp add: brest_def quiet_def)
  then have "length (memdisk s') = 64" using b(1) by simp
  then obtain r :: lstate where r: "log_ok r" "bpinned r = {}" "log_start r = 2" "log_size r = 4" "disksize r = 64"
    "\<forall>b. bdsk r b = memdisk s' ! unat b"
    using disk_image_binit [OF p, of "memdisk s'"] b(2) by blast
  have cr: "crash_disk s (commit_writes s) r"
    using r s(5-7) c(3) log_okD(1-4) [OF r(1)] unfolding crash_disk_def by (simp add: bdsk_def fun_eq_iff)
  have area: "60 \<notin> log_area s" using example_area [OF s(5,6)] .
  have "\<not> length (commit_writes s) \<le> nat (lh_n s)" by (simp add: commit_writes_def log_part_def)
  then obtain t where "recover_from_log r = Inr t" "bdsk t 60 = replicate BSIZE 1"
    using log_crash_safe [OF s(1-4) c(1) _ cr, of "[]"] c(4) s(7,8) area by force
  then show ?thesis using s c(1,4) cr by (intro exI [of _ s] exI [of _ s'] exI [of _ "commit_writes s"] exI [of _ "[]"] exI [of _ r] exI [of _ t]) simp
qed

end
