(* ===== verification/Ulib.thy ===== *)
theory Ulib
  imports Mem_String
begin

text \<open>
  The user library (\<^verbatim>\<open>ulib.c\<close>) on the memory of the program that calls it, and the conversion of integers
  (\<^verbatim>\<open>printf.c\<close>). A loop that ends only at a zero byte is a partial function: \<open>None\<close> when memory holds no zero
  byte to stop it. \<^verbatim>\<open>gets\<close> takes what \<^verbatim>\<open>read(0, &c, 1)\<close> will deliver as a list of bytes, whose end is a
  \<^verbatim>\<open>read\<close> that returns 0 or an error. Arithmetic is that of 32-bit integers.
\<close>

section \<open>ulib.c\<close>

partial_function (option) u_strcpy :: "u32 \<Rightarrow> u32 \<Rightarrow> memory \<Rightarrow> memory option" where
  "u_strcpy s t m =
     (let c = m t; m = m(s := c) in if c \<noteq> 0 then u_strcpy (s + 1) (t + 1) m else Some m)"

partial_function (option) u_strcmp :: "u32 \<Rightarrow> u32 \<Rightarrow> memory \<Rightarrow> int option" where
  "u_strcmp p q m =
     (if m p \<noteq> 0 \<and> m p = m q then u_strcmp (p + 1) (q + 1) m else Some (uint (m p) - uint (m q)))"

partial_function (option) u_strlen_from :: "u32 \<Rightarrow> u32 \<Rightarrow> memory \<Rightarrow> u32 option" where
  "u_strlen_from s n m = (if m (s + n) \<noteq> 0 then u_strlen_from s (n + 1) m else Some n)"

definition u_strlen :: "u32 \<Rightarrow> memory \<Rightarrow> u32 option" where
  "u_strlen s m = u_strlen_from s 0 m"

definition u_memset :: "u32 \<Rightarrow> u32 \<Rightarrow> u32 \<Rightarrow> memory \<Rightarrow> memory" where
  "u_memset dst c n m = stosb dst (ucast c) (unat n) m"

text \<open>The address 0 is the null pointer.\<close>

partial_function (option) u_strchr :: "u32 \<Rightarrow> u8 \<Rightarrow> memory \<Rightarrow> u32 option" where
  "u_strchr s c m = (if m s = 0 then Some 0 else if m s = c then Some s else u_strchr (s + 1) c m)"

fun gets_loop :: "u32 \<Rightarrow> nat \<Rightarrow> nat \<Rightarrow> u8 list \<Rightarrow> memory \<Rightarrow> nat \<times> u8 list \<times> memory" where
  "gets_loop buf i 0 inp m = (i, inp, m)"
| "gets_loop buf i (Suc n) [] m = (i, [], m)"
| "gets_loop buf i (Suc n) (c # inp) m =
     (let m = m(buf + of_nat i := c) in
      if c = 10 \<or> c = 13 then (Suc i, inp, m) else gets_loop buf (Suc i) n inp m)"

definition gets :: "u32 \<Rightarrow> int \<Rightarrow> u8 list \<Rightarrow> memory \<Rightarrow> u8 list \<times> memory" where
  "gets buf mx inp m =
     (let (i, inp, m) = gets_loop buf 0 (nat (mx - 1)) inp m in (inp, m(buf + of_nat i := 0)))"

partial_function (option) atoi_from :: "u32 \<Rightarrow> u32 \<Rightarrow> memory \<Rightarrow> u32 option" where
  "atoi_from n s m =
     (if 48 \<le> m s \<and> m s \<le> 57 then atoi_from (n * 10 + ucast (m s) - 48) (s + 1) m else Some n)"

definition atoi :: "u32 \<Rightarrow> memory \<Rightarrow> u32 option" where
  "atoi s m = atoi_from 0 s m"

definition u_memmove :: "u32 \<Rightarrow> u32 \<Rightarrow> int \<Rightarrow> memory \<Rightarrow> memory" where
  "u_memmove vdst vsrc n m = copy_up vdst vsrc (nat n) m"

section \<open>Strings\<close>

lemma u_strlen_cstr: "cstr m (s + of_nat n) xs \<Longrightarrow> u_strlen_from s (of_nat n) m = Some (of_nat (n + length xs))"
proof (induction xs arbitrary: n)
  case Nil
  then show ?case by (subst u_strlen_from.simps) simp
next
  case (Cons x xs)
  then have "m (s + of_nat n) \<noteq> 0" "cstr m (s + of_nat (Suc n)) xs" by (auto simp: cstr_Cons algebra_simps)
  with Cons.IH [of "Suc n"] show ?case by (subst u_strlen_from.simps) (simp add: add.commute add.left_commute)
qed

lemma u_strcmp_cstr:
  "cstr m p xs \<Longrightarrow> cstr m q ys \<Longrightarrow> \<exists>r. u_strcmp p q m = Some r \<and> (r = 0 \<longleftrightarrow> xs = ys)"
proof (induction xs arbitrary: p q ys)
  case Nil
  then show ?case by (subst u_strcmp.simps) (cases ys; auto simp: cstr_Cons word_uint_eq_iff)
next
  case (Cons x xs)
  show ?case
  proof (cases ys)
    case Nil
    then show ?thesis using Cons.prems by (subst u_strcmp.simps) (auto simp: cstr_Cons word_uint_eq_iff)
  next
    case (Cons y ys')
    then show ?thesis using Cons.IH [of "p + 1" "q + 1" ys'] Cons.prems
      by (subst u_strcmp.simps) (auto simp: cstr_Cons word_uint_eq_iff)
  qed
qed

lemma cstr_cong:
  assumes "\<And>i. i \<le> length xs \<Longrightarrow> m' (s + of_nat i) = m (s + of_nat i)" and "cstr m s xs"
  shows "cstr m' s xs"
proof -
  have "bytes_at m' s (length xs) = bytes_at m s (length xs)" using assms(1) by (simp add: bytes_at_def)
  then show ?thesis using assms by (simp add: cstr_def)
qed

text \<open>
  Copying a string onto a disjoint place: the destination holds it, everything else is unchanged.
\<close>

lemma u_strcpy_cstr:
  assumes "cstr m t xs" and "length xs < unat (s - t)" "length xs < unat (t - s)"
  shows "u_strcpy s t m = Some (\<lambda>a. if unat (a - s) \<le> length xs then m (t + (a - s)) else m a)"
  using assms
proof (induction xs arbitrary: s t m)
  case Nil
  then show ?case by (subst u_strcpy.simps) (auto simp: fun_eq_iff unat_eq_0)
next
  case (Cons x xs)
  let ?m = "m(s := x)"
  have t: "m t = x" "x \<noteq> 0" "cstr m (t + 1) xs" using Cons.prems(1) by (auto simp: cstr_Cons)
  have far: "t + 1 + of_nat i \<noteq> s" if "i \<le> length xs" for i
  proof
    assume "t + 1 + of_nat i = s"
    then have "s - t = of_nat (Suc i)" by (simp add: algebra_simps)
    then have "unat (s - t) \<le> Suc i" by (simp add: unat_of_nat del: of_nat_Suc)
    then show False using that Cons.prems(2) by simp
  qed
  have "cstr ?m (t + 1) xs" by (rule cstr_cong [OF _ t(3)]) (use far in simp)
  then have IH: "u_strcpy (s + 1) (t + 1) ?m =
      Some (\<lambda>a. if unat (a - (s + 1)) \<le> length xs then ?m (t + 1 + (a - (s + 1))) else ?m a)"
    using Cons.prems(2,3) Cons.IH [where m = ?m and s = "s + 1" and t = "t + 1"] by (simp del: fun_upd_apply)
  have "(if unat (a - (s + 1)) \<le> length xs then ?m (t + 1 + (a - (s + 1))) else ?m a) =
      (if unat (a - s) \<le> Suc (length xs) then m (t + (a - s)) else m a)" for a
  proof (cases "a = s")
    case True
    have "unat (s - (s + 1)) = 4294967295" by (simp add: unsigned_minus_1_eq_mask mask_eq_exp_minus_1)
    moreover have "length xs < 4294967295" using Cons.prems(2) unat_u32_bound [of "s - t"] by simp
    ultimately show ?thesis using True t(1) by simp
  next
    case False
    then show ?thesis using far [of "unat (a - (s + 1))"] unat_offset_Suc [OF False] by (auto simp: algebra_simps)
  qed
  with IH t(1,2) show ?case by (subst u_strcpy.simps) simp
qed

text \<open>\<^verbatim>\<open>strchr\<close> finds the first occurrence in the string.\<close>

lemma u_strchr_cstr:
  assumes "cstr m s xs" and "c \<noteq> 0"
  shows "u_strchr s c m = Some (case scan (\<lambda>x. x = c) 0 xs of None \<Rightarrow> 0 | Some i \<Rightarrow> s + of_nat i)"
proof -
  have "u_strchr s c m = Some (case scan (\<lambda>x. x = c) n xs of None \<Rightarrow> 0 | Some i \<Rightarrow> s + (of_nat i - of_nat n))"
    if "cstr m s xs" for s n using that
  proof (induction xs arbitrary: s n)
    case Nil
    then show ?case by (subst u_strchr.simps) simp
  next
    case (Cons x xs)
    then have "m s = x" "x \<noteq> 0" "cstr m (s + 1) xs" by (auto simp: cstr_Cons)
    with Cons.IH [of "s + 1" "Suc n"] show ?case
      by (subst u_strchr.simps) (auto simp: algebra_simps split: option.split)
  qed
  from this [OF assms(1), of 0] show ?thesis by (simp cong: option.case_cong)
qed

section \<open>Lines\<close>

text \<open>What \<^verbatim>\<open>gets\<close> consumes: up to and with the first end of line, at most \<open>n\<close> bytes.\<close>

fun line_of :: "nat \<Rightarrow> u8 list \<Rightarrow> u8 list" where
  "line_of 0 inp = []"
| "line_of (Suc n) [] = []"
| "line_of (Suc n) (c # inp) = (if c = 10 \<or> c = 13 then [c] else c # line_of n inp)"

lemma line_of_prefix: "line_of n inp = take (length (line_of n inp)) inp" "length (line_of n inp) \<le> n"
  by (induction n inp rule: line_of.induct) auto

lemma gets_loop_line:
  "i + n < 4294967296 \<Longrightarrow> gets_loop buf i n inp m =
     (i + length (line_of n inp), drop (length (line_of n inp)) inp,
      \<lambda>a. if i \<le> unat (a - buf) \<and> unat (a - buf) < i + length (line_of n inp) then line_of n inp ! (unat (a - buf) - i) else m a)"
proof (induction buf i n inp m rule: gets_loop.induct)
  case (3 buf i n c inp m)
  have at: "a = buf + of_nat i \<longleftrightarrow> unat (a - buf) = i" for a
  proof -
    have "a = buf + of_nat i \<longleftrightarrow> a - buf = of_nat i" by (simp add: diff_eq_eq add.commute)
    then show ?thesis using 3(2) by (simp add: word_unat_eq_iff [of "a - buf"] unat_of_nat_u32)
  qed
  show ?case
  proof (cases "c = 10 \<or> c = 13")
    case True
    then show ?thesis using at by (auto simp: fun_eq_iff)
  next
    case False
    let ?l = "line_of n inp"
    have IH: "gets_loop buf (Suc i) n inp (m(buf + of_nat i := c)) = (Suc i + length ?l, drop (length ?l) inp,
      \<lambda>a. if Suc i \<le> unat (a - buf) \<and> unat (a - buf) < Suc i + length ?l then ?l ! (unat (a - buf) - Suc i)
          else (m(buf + of_nat i := c)) a)"
      using 3(1) [OF refl False] 3(2) by (simp del: fun_upd_apply)
    have "(if Suc i \<le> unat (a - buf) \<and> unat (a - buf) < Suc i + length ?l then ?l ! (unat (a - buf) - Suc i)
          else (m(buf + of_nat i := c)) a) =
        (if i \<le> unat (a - buf) \<and> unat (a - buf) < i + length (c # ?l) then (c # ?l) ! (unat (a - buf) - i) else m a)" for a
      using at [of a] by (cases "unat (a - buf) = i") (auto simp: nth_Cons' Suc_diff_Suc)
    moreover have "line_of (Suc n) (c # inp) = c # ?l" using False by simp
    ultimately show ?thesis using False IH by (simp del: fun_upd_apply line_of.simps cong: if_cong)
  qed
qed (auto simp: fun_eq_iff)

section \<open>Numbers\<close>

abbreviation is_digit :: "u8 \<Rightarrow> bool" where "is_digit c \<equiv> 48 \<le> c \<and> c \<le> 57"

definition add_digit :: "u32 \<Rightarrow> u8 \<Rightarrow> u32" where
  "add_digit n d = n * 10 + ucast d - 48"

lemma atoi_from_cstr: "cstr m s xs \<Longrightarrow> atoi_from n s m = Some (foldl add_digit n (takeWhile is_digit xs))"
proof (induction xs arbitrary: n s)
  case Nil
  then show ?case by (subst atoi_from.simps) simp
next
  case (Cons x xs)
  then have "m s = x" "cstr m (s + 1) xs" by (auto simp: cstr_Cons)
  moreover from this have "atoi_from n s m = (if is_digit x then atoi_from (add_digit n x) (s + 1) m else Some n)"
    by (subst atoi_from.simps) (simp add: add_digit_def)
  ultimately show ?case using Cons.IH by simp
qed

end
