(* ===== verification/Printf.thy ===== *)
theory Printf
  imports Ulib
begin

text \<open>
  Formatted output: \<^verbatim>\<open>printint\<close> and \<^verbatim>\<open>printf\<close> of the user library (\<^verbatim>\<open>printf.c\<close>), \<^verbatim>\<open>printint\<close> and \<^verbatim>\<open>cprintf\<close> of the
  kernel (\<^verbatim>\<open>console.c\<close>). The result is the list of bytes given to \<^verbatim>\<open>putc\<close> or \<^verbatim>\<open>consputc\<close>. The digits are collected
  in the local array \<open>buf\<close> from the least significant one, and printed from its end. The arguments after
  the format are the words above it on the stack, \<open>ap\<close>; strings are read from memory.
\<close>

section \<open>printint\<close>

definition digits :: "u8 list" where
  "digits = [48, 49, 50, 51, 52, 53, 54, 55, 56, 57, 65, 66, 67, 68, 69, 70]"

definition cons_digits :: "u8 list" where
  "cons_digits = [48, 49, 50, 51, 52, 53, 54, 55, 56, 57, 97, 98, 99, 100, 101, 102]"

text \<open>
  The loop \<^verbatim>\<open>do buf[i++] = digits[x % base]; while((x /= base) != 0)\<close>. Division by zero and a write behind the 16 bytes
  of \<open>buf\<close> are \<open>None\<close>.
\<close>

function digit_loop :: "u8 list \<Rightarrow> u32 \<Rightarrow> u32 \<Rightarrow> u8 list \<Rightarrow> u8 list option" where
  "digit_loop ds base x buf =
     (if base = 0 \<or> 16 \<le> length buf then None
      else (let buf = buf @ [ds ! unat (x mod base)]; x = x div base in
            if x \<noteq> 0 then digit_loop ds base x buf else Some buf))"
  by pat_completeness auto
termination
  by (relation "measure (\<lambda>(ds, base, x, buf). 16 - length buf)") auto

declare digit_loop.simps [simp del]

definition add_sign :: "bool \<Rightarrow> u8 list \<Rightarrow> u8 list option" where
  "add_sign neg buf = (if neg then if 16 \<le> length buf then None else Some (buf @ [45]) else Some buf)"

definition printint :: "u32 \<Rightarrow> u32 \<Rightarrow> bool \<Rightarrow> u8 list option" where
  "printint xx base sg =
     (let neg = (sg \<and> xx <s 0); x = (if neg then - xx else xx)
      in Option.bind (digit_loop digits base x []) (\<lambda>buf. map_option rev (add_sign neg buf)))"

definition cons_printint :: "u32 \<Rightarrow> u32 \<Rightarrow> bool \<Rightarrow> u8 list option" where
  "cons_printint xx base sg =
     (let sg = (sg \<and> xx <s 0); x = (if sg then - xx else xx)
      in Option.bind (digit_loop cons_digits base x []) (\<lambda>buf. map_option rev (add_sign sg buf)))"

section \<open>printf and cprintf\<close>

text \<open>The loop \<^verbatim>\<open>while(*s != 0) putc(fd, *s++)\<close>.\<close>

partial_function (option) put_str :: "memory \<Rightarrow> u32 \<Rightarrow> u8 list \<Rightarrow> u8 list option" where
  "put_str m s out = (if m s \<noteq> 0 then put_str m (s + 1) (out @ [m s]) else Some out)"

definition print_str :: "memory \<Rightarrow> u32 \<Rightarrow> u8 list option" where
  "print_str m s = (if s = 0 then Some [40, 110, 117, 108, 108, 41] else put_str m s [])"

text \<open>The loop of \<^verbatim>\<open>printf\<close> on the rest of the format, with \<open>pct\<close> for \<^verbatim>\<open>state == '%'\<close>.\<close>

fun printf_loop :: "memory \<Rightarrow> (nat \<Rightarrow> u32) \<Rightarrow> nat \<Rightarrow> bool \<Rightarrow> u8 list \<Rightarrow> u8 list \<Rightarrow> u8 list option" where
  "printf_loop m ap k pct [] out = Some out"
| "printf_loop m ap k pct (c # fmt) out =
     (if \<not> pct then
        if c = 37 then printf_loop m ap k True fmt out else printf_loop m ap k False fmt (out @ [c])
      else if c = 100 then
        Option.bind (printint (ap k) 10 True) (\<lambda>x. printf_loop m ap (k + 1) False fmt (out @ x))
      else if c = 120 \<or> c = 112 then
        Option.bind (printint (ap k) 16 False) (\<lambda>x. printf_loop m ap (k + 1) False fmt (out @ x))
      else if c = 115 then
        Option.bind (print_str m (ap k)) (\<lambda>x. printf_loop m ap (k + 1) False fmt (out @ x))
      else if c = 99 then printf_loop m ap (k + 1) False fmt (out @ [ucast (ap k)])
      else if c = 37 then printf_loop m ap k False fmt (out @ [c])
      else printf_loop m ap k False fmt (out @ [37, c]))"

definition printf :: "memory \<Rightarrow> u8 list \<Rightarrow> (nat \<Rightarrow> u32) \<Rightarrow> u8 list option" where
  "printf m fmt ap = printf_loop m ap 0 False fmt []"

text \<open>\<^verbatim>\<open>cprintf\<close> looks at the character after the percent sign at once.\<close>

fun cprintf_loop :: "memory \<Rightarrow> (nat \<Rightarrow> u32) \<Rightarrow> nat \<Rightarrow> u8 list \<Rightarrow> u8 list \<Rightarrow> u8 list option" where
  "cprintf_loop m ap k [] out = Some out"
| "cprintf_loop m ap k [c] out = Some (if c \<noteq> 37 then out @ [c] else out)"
| "cprintf_loop m ap k (c # d # fmt) out =
     (if c \<noteq> 37 then cprintf_loop m ap k (d # fmt) (out @ [c])
      else if d = 100 then
        Option.bind (cons_printint (ap k) 10 True) (\<lambda>x. cprintf_loop m ap (k + 1) fmt (out @ x))
      else if d = 120 \<or> d = 112 then
        Option.bind (cons_printint (ap k) 16 False) (\<lambda>x. cprintf_loop m ap (k + 1) fmt (out @ x))
      else if d = 115 then
        Option.bind (print_str m (ap k)) (\<lambda>x. cprintf_loop m ap (k + 1) fmt (out @ x))
      else if d = 37 then cprintf_loop m ap k fmt (out @ [37])
      else cprintf_loop m ap k fmt (out @ [37, d]))"

definition cprintf :: "memory \<Rightarrow> u8 list \<Rightarrow> (nat \<Rightarrow> u32) \<Rightarrow> u8 list option" where
  "cprintf m fmt ap = cprintf_loop m ap 0 fmt []"

section \<open>Digits of a number\<close>

function dig :: "nat \<Rightarrow> nat \<Rightarrow> nat list" where
  "dig b n = (if n < b \<or> b \<le> 1 then [n] else n mod b # dig b (n div b))"
  by pat_completeness auto
termination by (relation "measure snd") auto

declare dig.simps [simp del]

lemma dig_length: "n < b ^ Suc k \<Longrightarrow> length (dig b n) \<le> Suc k"
proof (induction k arbitrary: n)
  case 0
  then show ?case by (subst dig.simps) simp
next
  case (Suc k)
  have "n div b < b ^ Suc k" if "\<not> b \<le> 1" using Suc.prems that by (simp add: less_mult_imp_div_less mult.commute)
  then show ?case using Suc.IH by (subst dig.simps) simp
qed

lemma dig_value: "foldr (\<lambda>d v. v * b + d) (dig b n) 0 = n"
proof (induction b n rule: dig.induct)
  case (1 b n)
  then show ?case by (subst dig.simps) simp
qed

lemma dig_bound: "1 < b \<Longrightarrow> d \<in> set (dig b n) \<Longrightarrow> d < b"
proof (induction b n rule: dig.induct)
  case (1 b n)
  from 1(3) show ?case unfolding dig.simps [of b n] using 1 by (auto split: if_splits)
qed

lemma digit_loop_dig:
  assumes "1 < unat base" and "length buf + length (dig (unat base) (unat x)) \<le> 16"
  shows "digit_loop ds base x buf = Some (buf @ map (\<lambda>d. ds ! d) (dig (unat base) (unat x)))"
  using assms(2)
proof (induction "length (dig (unat base) (unat x))" arbitrary: x buf rule: less_induct)
  case less
  have b0: "base \<noteq> 0" using assms(1) by auto
  have "0 < length (dig (unat base) (unat x))" by (subst dig.simps) simp
  then have ne: "length buf < 16" using less.prems by linarith
  have md: "unat (x mod base) = unat x mod unat base" "unat (x div base) = unat x div unat base"
    by (simp_all add: unat_mod_distrib unat_div_distrib)
  have z: "x div base = 0 \<longleftrightarrow> unat x < unat base" using b0 by (simp add: word_unat_eq_iff md div_eq_0_iff)
  show ?case
  proof (cases "unat x < unat base")
    case True
    then show ?thesis using less.prems ne b0 z md(1) by (subst digit_loop.simps, subst (1) dig.simps) (simp add: Let_def)
  next
    case False
    then have d: "dig (unat base) (unat x) = (unat x mod unat base) # dig (unat base) (unat (x div base))"
      using assms(1) by (subst dig.simps) (simp add: md)
    have "digit_loop ds base (x div base) (buf @ [ds ! unat (x mod base)]) =
        Some ((buf @ [ds ! unat (x mod base)]) @ map ((!) ds) (dig (unat base) (unat (x div base))))"
      using less.prems d by (intro less.hyps) simp_all
    then show ?thesis using less.prems False ne b0 z d md(1) by (subst digit_loop.simps) (simp add: Let_def)
  qed
qed

lemma dig_u32:
  "length (dig 10 (unat (x :: u32))) \<le> 10" "length (dig 16 (unat (x :: u32))) \<le> 8"
  using dig_length [of "unat x" 10 9] dig_length [of "unat x" 16 7] unat_u32_bound [of x] by simp_all

lemma printint_dig:
  assumes "base = 10 \<or> base = 16"
  shows "printint xx base sg = Some ((if sg \<and> xx <s 0 then [45] else []) @
    rev (map (\<lambda>d. digits ! d) (dig (unat base) (unat (if sg \<and> xx <s 0 then - xx else xx)))))"
    and "cons_printint xx base sg = Some ((if sg \<and> xx <s 0 then [45] else []) @
    rev (map (\<lambda>d. cons_digits ! d) (dig (unat base) (unat (if sg \<and> xx <s 0 then - xx else xx)))))"
proof -
  let ?x = "if sg \<and> xx <s 0 then - xx else xx"
  have b: "1 < unat base" "length (dig (unat base) (unat ?x)) \<le> 10" using assms dig_u32 [of ?x] by auto
  have "digit_loop ds base ?x [] = Some (map (\<lambda>d. ds ! d) (dig (unat base) (unat ?x)))" for ds
    using digit_loop_dig [OF b(1), of "[]" ?x ds] b(2) by simp
  moreover have "add_sign neg (map f (dig (unat base) (unat ?x))) =
      Some (map f (dig (unat base) (unat ?x)) @ (if neg then [45] else []))" for neg and f :: "nat \<Rightarrow> u8"
    using b(2) by (simp add: add_sign_def)
  ultimately show "printint xx base sg = Some ((if sg \<and> xx <s 0 then [45] else []) @
      rev (map (\<lambda>d. digits ! d) (dig (unat base) (unat ?x))))"
    "cons_printint xx base sg = Some ((if sg \<and> xx <s 0 then [45] else []) @
      rev (map (\<lambda>d. cons_digits ! d) (dig (unat base) (unat ?x))))"
    unfolding printint_def cons_printint_def Let_def by simp_all
qed

lemma digits_nth: "d < 10 \<Longrightarrow> digits ! d = of_nat (48 + d) \<and> cons_digits ! d = of_nat (48 + d)"
proof -
  have "\<forall>d < 10. digits ! d = of_nat (48 + d) \<and> cons_digits ! d = of_nat (48 + d)"
    by (simp add: digits_def cons_digits_def All_less_Suc2 numeral_eq_Suc)
  then show "d < 10 \<Longrightarrow> digits ! d = of_nat (48 + d) \<and> cons_digits ! d = of_nat (48 + d)" by blast
qed

lemma digits_is_digit: "d < 10 \<Longrightarrow> is_digit (digits ! d)"
proof -
  assume d: "d < 10"
  have "\<forall>x \<in> set (take 10 digits). is_digit x" by (simp add: digits_def)
  moreover have "digits ! d = take 10 digits ! d" using d by simp
  moreover have "d < length (take 10 digits)" using d by (simp add: digits_def)
  ultimately have "digits ! d \<in> set (take 10 digits)" by (metis nth_mem)
  with \<open>\<forall>x \<in> set (take 10 digits). is_digit x\<close> show "is_digit (digits ! d)" by blast
qed

lemma foldr_digits:
  "\<forall>d \<in> set ds. d < 10 \<Longrightarrow>
   foldl add_digit 0 (rev (map (\<lambda>d. digits ! d) ds)) = of_nat (foldr (\<lambda>d v. v * 10 + d) ds 0)"
proof (induction ds)
  case (Cons d ds)
  have "ucast (digits ! d) = (of_nat (48 + d) :: u32)"
    using Cons.prems by (simp add: digits_nth unsigned_of_nat take_bit_nat_eq_self del: of_nat_add)
  then show ?case using Cons by (simp add: add_digit_def)
qed simp

section \<open>Properties\<close>

text \<open>
  C40: \<^verbatim>\<open>printint\<close> never writes outside its 16-byte array: with base 10 it prints at most 11 bytes, with base 16 at most 9,
  for every argument.
\<close>

theorem printint_fits:
  "(\<exists>out. printint xx 10 sg = Some out \<and> length out \<le> 11) \<and> (\<exists>out. printint xx 16 sg = Some out \<and> length out \<le> 9) \<and>
   (\<exists>out. cons_printint xx 10 sg = Some out \<and> length out \<le> 11) \<and> (\<exists>out. cons_printint xx 16 sg = Some out \<and> length out \<le> 9)"
  using dig_u32 [of xx] dig_u32 [of "- xx"] by (simp add: printint_dig)

text \<open>
  C34: \<^verbatim>\<open>atoi\<close> reads back every number that \<^verbatim>\<open>printint\<close> prints in base 10 without a sign, signed or unsigned, up to \<open>2 ^ 32 - 1\<close>; a number that is
  printed with a minus sign, which \<^verbatim>\<open>atoi\<close> does not know, is read as 0.
\<close>

theorem atoi_printint:
  assumes "printint xx 10 sg = Some out" and "cstr m s out"
  shows "atoi s m = Some (if sg \<and> xx <s 0 then 0 else xx)"
proof (cases "sg \<and> xx <s 0")
  case True
  have "out = 45 # rev (map (\<lambda>d. digits ! d) (dig 10 (unat (- xx))))" using assms(1) True dig_u32 [of "- xx"] by (simp add: printint_dig)
  then have "takeWhile is_digit out = []" by simp
  then show ?thesis using atoi_from_cstr [OF assms(2), of 0] True by (simp add: atoi_def)
next
  case False
  let ?ds = "dig 10 (unat xx)"
  have out: "out = rev (map (\<lambda>d. digits ! d) ?ds)" using assms(1) False printint_dig(1) [of 10 xx sg] by auto
  have d: "\<forall>d \<in> set ?ds. d < 10" using dig_bound [of 10] by simp
  then have "\<forall>c \<in> set out. is_digit c" unfolding out using digits_is_digit by fastforce
  then have "takeWhile is_digit out = out" by simp
  then have "atoi s m = Some (foldl add_digit 0 out)" using atoi_from_cstr [OF assms(2), of 0] by (simp only: atoi_def)
  also have "foldl add_digit 0 out = xx" unfolding out foldr_digits [OF d] dig_value by simp
  finally show ?thesis using False by auto
qed

theorem atoi_printint_witness:
  "printint 42 10 True = Some [52, 50] \<and> cstr ((\<lambda>_. 0)(256 := 52, 257 := 50)) 256 [52, 50] \<and>
   atoi 256 ((\<lambda>_. 0)(256 := 52, 257 := 50)) = Some 42"
proof -
  have "printint 42 10 True = Some [52, 50]"
    by (simp add: printint_dig dig.simps [of _ 42] dig.simps [of _ 4] digits_def word_sless_alt)
  moreover have "cstr ((\<lambda>_. 0)(256 := 52, 257 := 50)) 256 [52, 50]" by (simp add: cstr_Cons)
  moreover have "\<not> (42 :: u32) <s 0" by (simp add: word_sless_alt)
  ultimately show ?thesis using atoi_printint [of 42 True "[52, 50]"] by simp
qed

end
