(* ===== verification/Grep.thy ===== *)
theory Grep
  imports Ulib
begin

text \<open>
  The regular expression matcher and the line filter of \<^verbatim>\<open>grep.c\<close>, and the counters of \<^verbatim>\<open>wc.c\<close>. Strings are lists of
  their bytes before the terminating NUL, so \<^verbatim>\<open>*text == '\0'\<close> is an empty list. A file descriptor is the list of
  what its reads find available: a read takes as much of the first element as it has room for, and an empty
  element or the end of the list is a read that returns 0. Reads do not fail, so that the error exit of \<^verbatim>\<open>wc\<close> is not modelled. The matcher is compared with the language its
  pattern denotes, the filter with the list of complete lines of the input.
\<close>

section \<open>The matcher\<close>

function matchhere :: "u8 list \<Rightarrow> u8 list \<Rightarrow> bool" and matchstar :: "u8 \<Rightarrow> u8 list \<Rightarrow> u8 list \<Rightarrow> bool" where
  "matchhere re text =
     (if re = [] then True
      else if 1 < length re \<and> re ! 1 = 42 then matchstar (re ! 0) (drop 2 re) text
      else if re ! 0 = 36 \<and> length re = 1 then text = []
      else if text \<noteq> [] \<and> (re ! 0 = 46 \<or> re ! 0 = text ! 0) then matchhere (tl re) (tl text)
      else False)"
| "matchstar c re text =
     (if matchhere re text then True
      else if text \<noteq> [] \<and> (text ! 0 = c \<or> c = 46) then matchstar c re (tl text)
      else False)"
  by pat_completeness auto
termination
  by (relation "measure (\<lambda>x. case x of Inl (re, text) \<Rightarrow> 2 * (length re + length text)
      | Inr (c, re, text) \<Rightarrow> Suc (2 * (length re + length text)))") (auto simp: neq_Nil_conv)

declare matchhere.simps [simp del] matchstar.simps [simp del]

fun match_from :: "u8 list \<Rightarrow> u8 list \<Rightarrow> bool" where
  "match_from re [] = matchhere re []"
| "match_from re (x # text) = (if matchhere re (x # text) then True else match_from re text)"

definition match :: "u8 list \<Rightarrow> u8 list \<Rightarrow> bool" where
  "match re text = (if re \<noteq> [] \<and> re ! 0 = 94 then matchhere (tl re) text else match_from re text)"

section \<open>The filter\<close>

text \<open>
  The inner loop on the rest \<open>p\<close> of the buffer: \<^verbatim>\<open>strchr\<close> looks for the newline up to the first NUL.
\<close>

function line_loop :: "u8 list \<Rightarrow> u8 list \<Rightarrow> u8 list \<Rightarrow> u8 list \<times> u8 list" where
  "line_loop pat p out =
     (if 10 \<in> set (takeWhile (\<lambda>c. c \<noteq> 0) p) then
        (let line = takeWhile (\<lambda>c. c \<noteq> 10) p; rest = drop (Suc (length line)) p
         in line_loop pat rest (if match pat line then out @ line @ [10] else out))
      else (p, out))"
  by pat_completeness auto
termination
proof (relation "measure (\<lambda>(pat, p, out). length p)")
  fix pat p out line rest :: "u8 list"
  assume "10 \<in> set (takeWhile (\<lambda>c. c \<noteq> 0) p)" "rest = drop (Suc (length line)) p"
  moreover from this have "p \<noteq> []" by auto
  ultimately show "((pat, rest, if match pat line then out @ line @ [10] else out), pat, p, out) \<in> measure (\<lambda>(pat, p, out). length p)"
    by simp
qed simp

declare line_loop.simps [simp del]

function grep_loop :: "u8 list \<Rightarrow> u8 list \<Rightarrow> u8 list list \<Rightarrow> u8 list \<Rightarrow> u8 list" where
  "grep_loop pat buf [] out = out"
| "grep_loop pat buf (r # rs) out =
     (let got = take (1023 - length buf) r; left = drop (1023 - length buf) r in
      if got = [] then out
      else
        (let buf = buf @ got; (p, out) = line_loop pat buf out;
             keep = (if length p = length buf then [] else p)
         in grep_loop pat keep (if left = [] then rs else left # rs) out))"
  by pat_completeness auto
termination
  by (relation "measure (\<lambda>(pat, buf, rs, out). length (concat rs) + length rs)") auto

declare grep_loop.simps(2) [simp del]

definition grep :: "u8 list \<Rightarrow> u8 list list \<Rightarrow> u8 list" where
  "grep pat rs = grep_loop pat [] rs []"

section \<open>wc\<close>

record wc_state =
  wc_l :: u32
  wc_w :: u32
  wc_c :: u32
  wc_inword :: bool

text \<open>\<^verbatim>\<open>strchr(" \r\t\n\v", buf[i])\<close>.\<close>

definition wc_space :: "u8 \<Rightarrow> bool" where
  "wc_space x \<longleftrightarrow> x \<in> set [32, 13, 9, 10, 11]"

definition wc_byte :: "u8 \<Rightarrow> wc_state \<Rightarrow> wc_state" where
  "wc_byte x s =
     (let s = s\<lparr>wc_c := wc_c s + 1\<rparr>;
          s = (if x = 10 then s\<lparr>wc_l := wc_l s + 1\<rparr> else s)
      in if wc_space x then s\<lparr>wc_inword := False\<rparr>
         else if \<not> wc_inword s then s\<lparr>wc_w := wc_w s + 1, wc_inword := True\<rparr> else s)"

fun wc_loop :: "u8 list list \<Rightarrow> wc_state \<Rightarrow> wc_state" where
  "wc_loop [] s = s"
| "wc_loop (r # rs) s = (if r = [] then s else wc_loop rs (fold wc_byte r s))"

definition wc :: "u8 list list \<Rightarrow> wc_state" where
  "wc rs = wc_loop rs \<lparr>wc_l = 0, wc_w = 0, wc_c = 0, wc_inword = False\<rparr>"

section \<open>The language of a pattern\<close>

text \<open>
  A pattern is a sequence of single characters and starred characters, with \<open>.\<close> for any character and an optional
  \<open>$\<close> at the end.
\<close>

datatype item = One u8 | Many u8

fun items :: "u8 list \<Rightarrow> item list" where
  "items [] = []"
| "items [c] = (if c = 36 then [] else [One c])"
| "items (c # d # re) = (if d = 42 then Many c # items re else One c # items (d # re))"

fun at_end :: "u8 list \<Rightarrow> bool" where
  "at_end [] = False"
| "at_end [c] = (c = 36)"
| "at_end (c # d # re) = (if d = 42 then at_end re else at_end (d # re))"

definition fits_char :: "u8 \<Rightarrow> u8 \<Rightarrow> bool" where
  "fits_char c x \<longleftrightarrow> c = 46 \<or> c = x"

inductive lang :: "item list \<Rightarrow> u8 list \<Rightarrow> bool" where
  lang_Nil: "lang [] []"
| lang_One: "fits_char c x \<Longrightarrow> lang its t \<Longrightarrow> lang (One c # its) (x # t)"
| lang_skip: "lang its t \<Longrightarrow> lang (Many c # its) t"
| lang_more: "fits_char c x \<Longrightarrow> lang (Many c # its) t \<Longrightarrow> lang (Many c # its) (x # t)"

inductive_simps lang_Nil_iff [simp]: "lang [] t"
inductive_simps lang_One_iff: "lang (One c # its) t"
inductive_simps lang_Many_iff: "lang (Many c # its) t"

text \<open>A prefix of the text is in the language, the whole text if the pattern ends in \<open>$\<close>.\<close>

definition starts :: "item list \<Rightarrow> bool \<Rightarrow> u8 list \<Rightarrow> bool" where
  "starts its e text \<longleftrightarrow> (\<exists>pre post. text = pre @ post \<and> lang its pre \<and> (e \<longrightarrow> post = []))"

lemma starts_Nil [simp]: "starts [] e text \<longleftrightarrow> (e \<longrightarrow> text = [])"
  by (auto simp: starts_def)

lemma starts_One: "starts (One c # its) e text \<longleftrightarrow> (\<exists>x t. text = x # t \<and> fits_char c x \<and> starts its e t)"
  unfolding starts_def lang_One_iff by (metis append_Cons)

lemma starts_Many:
  "starts (Many c # its) e text \<longleftrightarrow>
     starts its e text \<or> (\<exists>x t. text = x # t \<and> fits_char c x \<and> starts (Many c # its) e t)"
proof -
  have "lang (Many c # its) pre \<longleftrightarrow> lang its pre \<or> (\<exists>x t. pre = x # t \<and> fits_char c x \<and> lang (Many c # its) t)" for pre
    using lang_Many_iff [of c its pre] by auto
  note l = this
  show ?thesis
  proof
    assume "starts (Many c # its) e text"
    then obtain pre post where "text = pre @ post" "lang (Many c # its) pre" "e \<longrightarrow> post = []" by (auto simp: starts_def)
    then show "starts its e text \<or> (\<exists>x t. text = x # t \<and> fits_char c x \<and> starts (Many c # its) e t)"
      unfolding l [of pre] starts_def by (metis append_Cons)
  next
    assume "starts its e text \<or> (\<exists>x t. text = x # t \<and> fits_char c x \<and> starts (Many c # its) e t)"
    then show "starts (Many c # its) e text"
    proof (elim disjE exE conjE)
      fix x t
      assume t: "text = x # t" "fits_char c x" "starts (Many c # its) e t"
      then obtain pre post where "t = pre @ post" "lang (Many c # its) pre" "e \<longrightarrow> post = []" by (auto simp: starts_def)
      then have "text = (x # pre) @ post" "lang (Many c # its) (x # pre)" using t by (auto intro: lang_more)
      with \<open>e \<longrightarrow> post = []\<close> show ?thesis unfolding starts_def by blast
    qed (auto simp: starts_def intro: lang_skip)
  qed
qed

lemma matchhere_starts:
  "matchhere re text = starts (items re) (at_end re) text" and
  "matchstar c re text = starts (Many c # items re) (at_end re) text"
proof (induction re "text" and c re "text" rule: matchhere_matchstar.induct)
  case (1 re "text")
  consider "re = []" | c where "re = [c]" | c d re' where "re = c # d # re'" by (metis list.exhaust)
  then show ?case
  proof cases
    case 1
    then show ?thesis by (simp add: matchhere.simps)
  next
    case (2 c)
    then show ?thesis using "1"(2) by (cases "text") (auto simp: matchhere.simps [of "[c]"] starts_One fits_char_def matchhere.simps [of "[]"])
  next
    case (3 c d re')
    show ?thesis
    proof (cases "d = 42")
      case True
      then show ?thesis using "1"(1) 3 by (simp add: matchhere.simps [of "c # 42 # re'"])
    next
      case False
      then have m: "matchhere re text = (text \<noteq> [] \<and> fits_char c (text ! 0) \<and> matchhere (d # re') (tl text))"
        using 3 by (simp add: matchhere.simps [of "c # d # re'"] fits_char_def)
      show ?thesis
      proof (cases "text \<noteq> [] \<and> fits_char c (text ! 0)")
        case True
        then have "matchhere (d # re') (tl text) = starts (items (d # re')) (at_end (d # re')) (tl text)"
          using "1"(2) 3 False by (simp add: fits_char_def)
        then show ?thesis using True m 3 False by (cases "text") (auto simp: starts_One)
      next
        case c: False
        then show ?thesis using m 3 False by (cases "text") (auto simp: starts_One)
      qed
    qed
  qed
next
  case (2 c re "text")
  have "matchstar c re text = (matchhere re text \<or> (text \<noteq> [] \<and> fits_char c (text ! 0) \<and> matchstar c re (tl text)))"
    by (subst matchstar.simps) (auto simp: fits_char_def)
  moreover have "starts (Many c # items re) (at_end re) text =
      (starts (items re) (at_end re) text \<or> (\<exists>x t. text = x # t \<and> fits_char c x \<and> starts (Many c # items re) (at_end re) t))"
    by (rule starts_Many)
  ultimately show ?case using 2 by (cases "text") (auto simp: fits_char_def)
qed

lemma ex_le_Suc: "(\<exists>k \<le> Suc n. Q k) \<longleftrightarrow> Q 0 \<or> (\<exists>k \<le> n. Q (Suc k))"
  by (metis Suc_le_mono le0 not0_implies_Suc)

lemma match_from_starts: "match_from re text \<longleftrightarrow> (\<exists>k \<le> length text. starts (items re) (at_end re) (drop k text))"
proof (induction "text")
  case (Cons x t)
  then show ?case by (simp add: matchhere_starts ex_le_Suc)
qed (simp add: matchhere_starts)

text \<open>
  C15: \<^verbatim>\<open>match\<close> finds exactly the texts that contain a string of the pattern's language: at the beginning if the
  pattern starts with \<open>^\<close>, anywhere otherwise, and up to the end of the text if it ends with \<open>$\<close>.
\<close>

theorem match_language:
  "match re text \<longleftrightarrow>
     (if re \<noteq> [] \<and> re ! 0 = 94 then starts (items (tl re)) (at_end (tl re)) text
      else \<exists>k \<le> length text. starts (items re) (at_end re) (drop k text))"
  by (simp add: match_def matchhere_starts match_from_starts)

section \<open>Lines\<close>

text \<open>The complete lines of an input, without their newlines, and what follows the last one.\<close>

function lines :: "u8 list \<Rightarrow> u8 list list" where
  "lines xs = (if 10 \<in> set xs then takeWhile (\<lambda>c. c \<noteq> 10) xs # lines (drop (Suc (length (takeWhile (\<lambda>c. c \<noteq> 10) xs))) xs) else [])"
  by pat_completeness auto
termination by (relation "measure length") (auto intro!: diff_less length_pos_if_in_set)

function tail_of :: "u8 list \<Rightarrow> u8 list" where
  "tail_of xs = (if 10 \<in> set xs then tail_of (drop (Suc (length (takeWhile (\<lambda>c. c \<noteq> 10) xs))) xs) else xs)"
  by pat_completeness auto
termination by (relation "measure length") (auto intro!: diff_less length_pos_if_in_set)

declare lines.simps [simp del] tail_of.simps [simp del]

definition show_lines :: "u8 list \<Rightarrow> u8 list list \<Rightarrow> u8 list" where
  "show_lines pat ls = concat (map (\<lambda>l. l @ [10]) (filter (match pat) ls))"

lemma line_loop_lines: "0 \<notin> set p \<Longrightarrow> line_loop pat p out = (tail_of p, out @ show_lines pat (lines p))"
proof (induction pat p out rule: line_loop.induct)
  case (1 pat p out)
  have z: "takeWhile (\<lambda>c. c \<noteq> 0) p = p" using 1(2) by (auto simp: takeWhile_eq_all_conv)
  let ?l = "takeWhile (\<lambda>c. c \<noteq> 10) p"
  let ?r = "drop (Suc (length ?l)) p" and ?o = "if match pat ?l then out @ ?l @ [10] else out"
  have l: "line_loop pat p out = (if 10 \<in> set p then line_loop pat ?r ?o else (p, out))"
    by (subst line_loop.simps) (simp only: z Let_def)
  have t: "tail_of p = (if 10 \<in> set p then tail_of ?r else p)" "lines p = (if 10 \<in> set p then ?l # lines ?r else [])"
    by (rule tail_of.simps, rule lines.simps)
  have "0 \<notin> set ?r" using 1(2) by (meson in_set_dropD)
  then show ?case
  proof (cases "10 \<in> set p")
    case True
    then have "line_loop pat ?r ?o = (tail_of ?r, ?o @ show_lines pat (lines ?r))"
      using 1(1) [unfolded z, OF True refl refl] \<open>0 \<notin> set ?r\<close> by blast
    then show ?thesis unfolding l t using True by (simp add: show_lines_def)
  next
    case False
    then show ?thesis unfolding l t by (simp add: show_lines_def)
  qed
qed

lemma lines_step:
  assumes "10 \<in> set xs"
  shows "lines xs = takeWhile (\<lambda>c. c \<noteq> 10) xs # lines (tl (dropWhile (\<lambda>c. c \<noteq> 10) xs))"
    and "tail_of xs = tail_of (tl (dropWhile (\<lambda>c. c \<noteq> 10) xs))"
    and "length (tl (dropWhile (\<lambda>c. c \<noteq> 10) xs)) < length xs"
proof -
  have "drop (Suc (length (takeWhile (\<lambda>c. c \<noteq> 10) xs))) xs = tl (dropWhile (\<lambda>c. c \<noteq> 10) xs)"
    by (simp add: dropWhile_eq_drop drop_Suc tl_drop)
  then show "lines xs = takeWhile (\<lambda>c. c \<noteq> 10) xs # lines (tl (dropWhile (\<lambda>c. c \<noteq> 10) xs))"
    "tail_of xs = tail_of (tl (dropWhile (\<lambda>c. c \<noteq> 10) xs))"
    using assms by (subst lines.simps tail_of.simps, simp)+
  show "length (tl (dropWhile (\<lambda>c. c \<noteq> 10) xs)) < length xs"
    using length_dropWhile_le [of "\<lambda>c. c \<noteq> 10" xs] length_pos_if_in_set [OF assms] unfolding length_tl by linarith
qed

lemma lines_none: "10 \<notin> set xs \<Longrightarrow> lines xs = [] \<and> tail_of xs = xs"
  by (simp add: lines.simps tail_of.simps)

lemma tail_of_props: "10 \<notin> set (tail_of xs)" "10 \<in> set xs \<Longrightarrow> length (tail_of xs) < length xs" "set (tail_of xs) \<subseteq> set xs"
proof -
  have "10 \<notin> set (tail_of xs) \<and> (10 \<in> set xs \<longrightarrow> length (tail_of xs) < length xs) \<and> length (tail_of xs) \<le> length xs \<and> set (tail_of xs) \<subseteq> set xs"
  proof (induction "length xs" arbitrary: xs rule: less_induct)
    case less
    show ?case
    proof (cases "10 \<in> set xs")
      case True
      have "set (tl ys) \<subseteq> set ys" for ys :: "u8 list" by (cases ys) auto
      then have "set (tl (dropWhile (\<lambda>c. c \<noteq> 10) xs)) \<subseteq> set xs" by (meson set_dropWhileD subset_iff)
      then show ?thesis using less [OF lines_step(3) [OF True]] lines_step(2,3) [OF True] by auto
    qed (simp add: lines_none)
  qed
  then show "10 \<notin> set (tail_of xs)" "10 \<in> set xs \<Longrightarrow> length (tail_of xs) < length xs" "set (tail_of xs) \<subseteq> set xs" by blast+
qed

lemma lines_append: "lines (xs @ ys) = lines xs @ lines (tail_of xs @ ys)"
proof (induction "length xs" arbitrary: xs rule: less_induct)
  case less
  show ?case
  proof (cases "10 \<in> set xs")
    case True
    have "takeWhile (\<lambda>c. c \<noteq> 10) (xs @ ys) = takeWhile (\<lambda>c. c \<noteq> 10) xs" "dropWhile (\<lambda>c. c \<noteq> 10) (xs @ ys) = dropWhile (\<lambda>c. c \<noteq> 10) xs @ ys"
      using True by (auto intro: takeWhile_append1 dropWhile_append1)
    moreover have "dropWhile (\<lambda>c. c \<noteq> 10) xs \<noteq> []" using True by simp
    ultimately show ?thesis
      using less [OF lines_step(3) [OF True]] lines_step(1) [of "xs @ ys"] lines_step(1,2) [OF True] True by simp
  qed (simp add: lines_none)
qed

lemma tail_of_line: "tail_of (xs @ [10]) = []"
proof (induction "length xs" arbitrary: xs rule: less_induct)
  case less
  show ?case
  proof (cases "10 \<in> set xs")
    case True
    have "dropWhile (\<lambda>c. c \<noteq> 10) (xs @ [10]) = dropWhile (\<lambda>c. c \<noteq> 10) xs @ [10]" using True by (auto intro: dropWhile_append1)
    moreover have "dropWhile (\<lambda>c. c \<noteq> 10) xs \<noteq> []" using True by simp
    ultimately show ?thesis using less [OF lines_step(3) [OF True]] lines_step(2) [of "xs @ [10]"] by simp
  next
    case False
    then have "dropWhile (\<lambda>c. c \<noteq> 10) (xs @ [10]) = [10]" by (subst dropWhile_append2) auto
    then show ?thesis using lines_step(2) [of "xs @ [10]"] by (simp add: lines_none)
  qed
qed

lemma long_line:
  assumes "10 \<notin> set xs" "10 \<in> set ys"
  shows "\<exists>l \<in> set (lines (xs @ ys)). length xs \<le> length l"
proof -
  have "takeWhile (\<lambda>c. c \<noteq> 10) (xs @ ys) = xs @ takeWhile (\<lambda>c. c \<noteq> 10) ys" using assms(1) by (intro takeWhile_append2) auto
  then show ?thesis using lines_step(1) [of "xs @ ys"] assms(2) by simp
qed

text \<open>All that one element of the input gives, with what is left of an unfinished line.\<close>

lemma grep_loop_file:
  assumes "0 \<notin> set (buf @ inp)" "10 \<notin> set buf" "length buf < 1023" "\<forall>l \<in> set (lines (buf @ inp)). length l < 1023" "inp \<noteq> []"
  shows "\<exists>keep. grep_loop pat buf (inp # rs) out = grep_loop pat keep rs (out @ show_lines pat (lines (buf @ inp))) \<and>
    (last inp = 10 \<longrightarrow> keep = [])"
  using assms
proof (induction "length inp" arbitrary: buf inp out rule: less_induct)
  case less
  let ?n = "1023 - length buf"
  let ?b = "buf @ take ?n inp" and ?left = "drop ?n inp"
  have split: "buf @ inp = ?b @ ?left" by simp
  have z: "0 \<notin> set ?b" using less.prems(1) by (auto dest: in_set_takeD)
  let ?keep = "if length (tail_of ?b) = length ?b then [] else tail_of ?b"
  have step: "grep_loop pat buf (inp # rs) out =
      grep_loop pat ?keep (if ?left = [] then rs else ?left # rs) (out @ show_lines pat (lines ?b))"
    using less.prems(3,5) by (subst grep_loop.simps) (simp add: line_loop_lines [OF z] Let_def)
  have la: "lines (buf @ inp) = lines ?b @ lines (tail_of ?b @ ?left)" unfolding split by (rule lines_append)
  show ?case
  proof (cases "?left = []")
    case True
    have l: "lines (tail_of ?b @ ?left) = []" unfolding True using lines_none [OF tail_of_props(1), of ?b] by simp
    have k: "?keep = []" if "last inp = 10"
    proof -
      have "?b = buf @ inp" using True by simp
      then have "?b = butlast (buf @ inp) @ [10]" using that less.prems(5) by (metis append_butlast_last_id append_is_Nil_conv last_appendR)
      then show ?thesis using tail_of_line [of "butlast (buf @ inp)"] by simp
    qed
    show ?thesis unfolding step la l using True k by (intro exI [of _ ?keep]) simp
  next
    case left: False
    have full: "length ?b = 1023" using left less.prems(3) by simp
    have zl: "0 \<notin> set ?left" using less.prems(1) by (auto dest: in_set_dropD)
    have short: "length ?left < length inp" using less.prems(3,5) by (cases inp) auto
    have kl: "lines (?keep @ ?left) = lines (tail_of ?b @ ?left) \<and> 10 \<notin> set ?keep \<and> length ?keep < 1023 \<and> 0 \<notin> set ?keep"
    proof (cases "10 \<in> set ?b")
      case True
      then show ?thesis using tail_of_props [of ?b] full z by auto
    next
      case nb: False
      have "10 \<notin> set ?left"
      proof
        assume "10 \<in> set ?left"
        from long_line [OF nb this] obtain l where "l \<in> set (lines (buf @ inp))" "1023 \<le> length l" unfolding full split [symmetric] by blast
        then show False using less.prems(4) by (meson not_le)
      qed
      then have n: "10 \<notin> set ?left" "10 \<notin> set (?b @ ?left)" using nb unfolding set_append [of ?b] by blast+
      show ?thesis using lines_none [OF nb] lines_none [OF n(1)] lines_none [OF n(2)] by simp
    qed
    have "\<forall>l \<in> set (lines (?keep @ ?left)). length l < 1023" using less.prems(4) unfolding la conjunct1 [OF kl] by simp
    moreover have "0 \<notin> set (?keep @ ?left)" using kl zl unfolding set_append by blast
    ultimately obtain keep where "grep_loop pat ?keep (?left # rs) (out @ show_lines pat (lines ?b)) =
        grep_loop pat keep rs ((out @ show_lines pat (lines ?b)) @ show_lines pat (lines (?keep @ ?left)))" "last ?left = 10 \<longrightarrow> keep = []"
      using less.hyps [OF short _ _ _ _ left] kl by blast
    moreover have "last ?left = last inp" using left by (simp add: last_drop)
    ultimately show ?thesis unfolding step la conjunct1 [OF kl] using left by (auto simp: show_lines_def)
  qed
qed

lemma grep_loop_lines:
  assumes "\<forall>r \<in> set rs. r \<noteq> [] \<and> last r = 10 \<and> 0 \<notin> set r \<and> (\<forall>l \<in> set (lines r). length l < 1023)"
  shows "grep_loop pat [] (rs @ rs') out = grep_loop pat [] rs' (out @ show_lines pat (lines (concat rs)))"
  using assms
proof (induction rs arbitrary: out)
  case Nil
  then show ?case by (simp add: lines_none show_lines_def)
next
  case (Cons r rs)
  have "grep_loop pat [] (r # rs @ rs') out = grep_loop pat [] (rs @ rs') (out @ show_lines pat (lines r))"
    using grep_loop_file [of "[]" r pat "rs @ rs'" out] Cons.prems by auto
  moreover have "r = butlast r @ [10]" using Cons.prems by (metis append_butlast_last_id list.set_intros(1))
  then have "tail_of r = []" using tail_of_line by metis
  ultimately show ?case using Cons lines_append [of r "concat rs"] by (simp add: show_lines_def)
qed

lemma lines_concat:
  assumes "\<forall>r \<in> set rs. r \<noteq> [] \<and> last r = 10"
  shows "lines (concat rs @ inp) = concat (map lines rs) @ lines inp"
  using assms
proof (induction rs)
  case (Cons r rs)
  then have "r = butlast r @ [10]" by (metis append_butlast_last_id list.set_intros(1))
  then have "tail_of r = []" using tail_of_line by metis
  then show ?case using Cons lines_append [of r "concat rs @ inp"] by simp
qed simp

text \<open>
  C32: \<^verbatim>\<open>grep\<close> prints exactly the complete lines of its input that the pattern matches, in their order, if the input has no NUL byte, its lines are shorter
  than the buffer and it comes in pieces that end with a newline, except that the last one may end anywhere. A piece, such as a file, may be longer than the buffer: where the
  reads then split it plays no role.
\<close>

theorem grep_lines:
  assumes "\<forall>r \<in> set rs. r \<noteq> [] \<and> last r = 10" and "0 \<notin> set (concat rs @ inp)" and "\<forall>l \<in> set (lines (concat rs @ inp)). length l < 1023"
  shows "grep pat (rs @ [inp]) = show_lines pat (lines (concat rs @ inp))"
proof -
  note l = lines_concat [OF assms(1), of inp]
  have c: "lines (concat rs) = concat (map lines rs)" using lines_concat [OF assms(1), of "[]"] by (simp add: lines_none)
  have short: "\<forall>l \<in> set (lines inp). length l < 1023" "\<forall>r \<in> set rs. \<forall>l \<in> set (lines r). length l < 1023"
    using assms(3) unfolding l by auto
  have zero: "0 \<notin> set inp" "\<forall>r \<in> set rs. 0 \<notin> set r" using assms(2) by auto
  have "grep pat (rs @ [inp]) = grep_loop pat [] [inp] (show_lines pat (lines (concat rs)))"
    using grep_loop_lines [of rs pat "[inp]" "[]"] assms(1) zero short by (simp add: grep_def)
  also have "\<dots> = show_lines pat (lines (concat rs)) @ show_lines pat (lines inp)"
  proof (cases "inp = []")
    case True
    then show ?thesis by (simp add: grep_loop.simps lines_none show_lines_def)
  next
    case False
    then show ?thesis using grep_loop_file [of "[]" inp pat "[]" "show_lines pat (lines (concat rs))"] zero(1) short(1) by auto
  qed
  finally show ?thesis unfolding l c by (simp add: show_lines_def)
qed

theorem grep_lines_witness: "grep [97] [[97, 98, 10, 99, 10], [98, 97, 10, 97]] = [97, 98, 10, 98, 97, 10]"
proof -
  have l: "lines [97, 98, 10, 99, 10, 98, 97, 10, 97] = [[97, 98], [99], [98, 97]]" by (simp add: lines.simps)
  have m: "match [97] [97, 98]" "\<not> match [97] [99]" "match [97] [98, 97]" by (simp_all add: match_def matchhere.simps)
  show ?thesis using grep_lines [of "[[97, 98, 10, 99, 10]]" "[98, 97, 10, 97]" "[97]"] l m by (simp add: show_lines_def)
qed



section \<open>Counting\<close>

text \<open>A word begins where a byte that is no space follows a space or the beginning.\<close>

fun word_starts :: "bool \<Rightarrow> u8 list \<Rightarrow> nat" where
  "word_starts inw [] = 0"
| "word_starts inw (x # xs) = (if wc_space x then word_starts False xs else (if inw then 0 else 1) + word_starts True xs)"

lemma wc_fold:
  "fold wc_byte xs s = \<lparr>wc_l = wc_l s + of_nat (count_list xs 10), wc_w = wc_w s + of_nat (word_starts (wc_inword s) xs),
     wc_c = wc_c s + of_nat (length xs), wc_inword = (if xs = [] then wc_inword s else \<not> wc_space (last xs))\<rparr>"
  by (induction xs arbitrary: s) (auto simp: wc_byte_def Let_def)

lemma wc_loop_fold: "\<forall>r \<in> set rs. r \<noteq> [] \<Longrightarrow> wc_loop rs s = fold wc_byte (concat rs) s"
  by (induction rs arbitrary: s) auto

text \<open>
  C33: \<^verbatim>\<open>wc\<close> counts newlines, words and bytes of the whole input, wherever the reads split it.
\<close>

theorem wc_counts:
  assumes "\<forall>r \<in> set rs. r \<noteq> []"
  shows "wc_l (wc rs) = of_nat (count_list (concat rs) 10) \<and> wc_w (wc rs) = of_nat (word_starts False (concat rs)) \<and>
    wc_c (wc rs) = of_nat (length (concat rs))"
  unfolding wc_def wc_loop_fold [OF assms] by (simp add: wc_fold)

theorem wc_counts_witness: "wc_w (wc [[97], [98, 32], [99, 10]]) = 2 \<and> wc_l (wc [[97], [98, 32], [99, 10]]) = 1"
  using wc_counts [of "[[97], [98, 32], [99, 10]]"] by (simp add: wc_space_def)

end
