(* ===== verification/Inode.thy ===== *)
theory Inode
  imports Log_Tx
begin

text \<open>
  Blocks and inodes (\<^verbatim>\<open>fs.c\<close> from \<^verbatim>\<open>bzero\<close> to \<^verbatim>\<open>itrunc\<close>, \<^verbatim>\<open>file.h\<close>). A pointer to an inode is its index in \<^verbatim>\<open>icache.inode\<close>;
  the 16-bit fields are words, as the disk stores them. The state also has what the console adds to it, because a
  file may be the console: its input buffer with the three indices, the characters given to the serial port, the cursor
  and the cells of the screen, and which entries of \<^verbatim>\<open>devsw\<close> are set. Block numbers and sizes are 32-bit words; the counters of the loops are natural numbers, whose
  bounds the loop conditions give.
\<close>

record inode =
  i_dev :: u32
  i_inum :: u32
  i_ref :: int
  i_lock :: sleeplock
  i_valid :: bool
  i_type :: u16
  i_major :: u16
  i_minor :: u16
  i_nlink :: u16
  i_size :: u32
  i_addrs :: "u32 list"

record fstate = lstate +
  sb :: superblock
  icache :: "inode list"
  devsw :: "bool list"
  cons_buf :: "u8 list"
  cons_r :: u32
  cons_w :: u32
  cons_e :: u32
  uart_out :: "u32 list"
  cga_pos :: nat
  cga_crt :: "nat \<Rightarrow> u16"

definition ROOTINO :: u32 where "ROOTINO = 1"
definition T_DIR :: u16 where "T_DIR = 1"
definition T_FILE :: u16 where "T_FILE = 2"
definition T_DEV :: u16 where "T_DEV = 3"
definition BPB :: nat where "BPB = BSIZE * 8"

definition IBLOCK :: "u32 \<Rightarrow> superblock \<Rightarrow> u32" where
  "IBLOCK i sp = i div of_nat IPB + sb_inodestart sp"

definition BBLOCK :: "u32 \<Rightarrow> superblock \<Rightarrow> u32" where
  "BBLOCK b sp = b div of_nat BPB + sb_bmapstart sp"

definition upd_inode :: "nat \<Rightarrow> (inode \<Rightarrow> inode) \<Rightarrow> 'a fstate_scheme \<Rightarrow> 'a fstate_scheme" where
  "upd_inode ip f s = s\<lparr>icache := (icache s)[ip := f (icache s ! ip)]\<rparr>"

definition inode_lk :: "nat \<Rightarrow> 'a fstate_scheme slref" where
  "inode_lk ip = \<lparr>sl_get = (\<lambda>s. i_lock (icache s ! ip)), sl_set = (\<lambda>l. upd_inode ip (\<lambda>p. p\<lparr>i_lock := l\<rparr>)),
     sl_spin = L_inode_lk ip, sl_chan = Ch_inode_lock ip\<rparr>"

section \<open>Blocks\<close>

definition bzero :: "u32 \<Rightarrow> u32 \<Rightarrow> 'a fstate_scheme \<Rightarrow> kerr + 'a fstate_scheme" where
  "bzero dev bno s =
     bindE (bread dev bno s) (\<lambda>(bp, s).
     bindE (log_write bp (put_data bp (replicate BSIZE 0) s)) (brelse bp))"

text \<open>Bit \<open>bi\<close> of a block of the free map.\<close>

definition bit_of :: "u8 list \<Rightarrow> nat \<Rightarrow> bool" where
  "bit_of d bi \<longleftrightarrow> d ! (bi div 8) AND push_bit (bi mod 8) 1 \<noteq> 0"

definition set_bit_of :: "nat \<Rightarrow> u8 list \<Rightarrow> u8 list" where
  "set_bit_of bi d = d[bi div 8 := d ! (bi div 8) OR push_bit (bi mod 8) 1]"

definition clear_bit_of :: "nat \<Rightarrow> u8 list \<Rightarrow> u8 list" where
  "clear_bit_of bi d = d[bi div 8 := d ! (bi div 8) AND NOT (push_bit (bi mod 8) 1)]"

function balloc_loop :: "u32 \<Rightarrow> nat \<Rightarrow> nat \<Rightarrow> 'a fstate_scheme \<Rightarrow> kerr + u32 \<times> 'a fstate_scheme" where
  "balloc_loop dev sz b s =
     (if b < sz then
        bindE (bread dev (BBLOCK (of_nat b) (sb s)) s) (\<lambda>(bp, s).
        let d = b_data (bufs s ! bp) in
        case scan (\<lambda>bi. \<not> bit_of d bi) 0 [0..<min BPB (sz - b)] of
          Some bi \<Rightarrow>
            bindE (log_write bp (put_data bp (set_bit_of bi d) s)) (\<lambda>s.
            bindE (brelse bp s) (\<lambda>s.
            bindE (bzero dev (of_nat (b + bi)) s) (\<lambda>s. Inr (of_nat (b + bi), s))))
        | None \<Rightarrow> bindE (brelse bp s) (balloc_loop dev sz (b + BPB)))
      else Inl (Panic ''balloc: out of blocks''))"
  by pat_completeness auto
termination
  by (relation "measure (\<lambda>(dev, sz, b, s). sz - b)") (auto simp: BPB_def BSIZE_def)

declare balloc_loop.simps [simp del]

definition balloc :: "u32 \<Rightarrow> 'a fstate_scheme \<Rightarrow> kerr + u32 \<times> 'a fstate_scheme" where
  "balloc dev s = balloc_loop dev (unat (sb_size (sb s))) 0 s"

definition bfree :: "u32 \<Rightarrow> u32 \<Rightarrow> 'a fstate_scheme \<Rightarrow> kerr + 'a fstate_scheme" where
  "bfree dev b s =
     bindE (bread dev (BBLOCK b (sb s)) s) (\<lambda>(bp, s).
     let bi = unat b mod BPB; d = b_data (bufs s ! bp) in
     if \<not> bit_of d bi then Inl (Panic ''freeing free block'')
     else bindE (log_write bp (put_data bp (clear_bit_of bi d) s)) (brelse bp))"

section \<open>Inodes\<close>

definition iinit :: "u32 \<Rightarrow> 'a fstate_scheme \<Rightarrow> kerr + 'a fstate_scheme" where
  "iinit dev s =
     (let s = fold (\<lambda>i. initsleeplock (inode_lk i)) [0..<NINODE] s
      in bindE (readsb dev s) (\<lambda>(b, s). Inr (s\<lparr>sb := b\<rparr>)))"

definition iget :: "u32 \<Rightarrow> u32 \<Rightarrow> 'a fstate_scheme \<Rightarrow> kerr + nat \<times> 'a fstate_scheme" where
  "iget dev inum s =
     bindE (acquire L_icache s) (\<lambda>s.
       case scan (\<lambda>p. i_ref p > 0 \<and> i_dev p = dev \<and> i_inum p = inum) 0 (icache s) of
         Some ip \<Rightarrow> bindE (release L_icache (upd_inode ip (\<lambda>p. p\<lparr>i_ref := i_ref p + 1\<rparr>) s)) (\<lambda>s. Inr (ip, s))
       | None \<Rightarrow>
          (case scan (\<lambda>p. i_ref p = 0) 0 (icache s) of
             None \<Rightarrow> Inl (Panic ''iget: no inodes'')
           | Some ip \<Rightarrow>
               bindE (release L_icache (upd_inode ip (\<lambda>p. p\<lparr>i_dev := dev, i_inum := inum, i_ref := 1, i_valid := False\<rparr>) s))
                 (\<lambda>s. Inr (ip, s))))"

definition idup :: "nat \<Rightarrow> 'a fstate_scheme \<Rightarrow> kerr + nat \<times> 'a fstate_scheme" where
  "idup ip s =
     bindE (acquire L_icache s) (\<lambda>s.
     bindE (release L_icache (upd_inode ip (\<lambda>p. p\<lparr>i_ref := i_ref p + 1\<rparr>) s)) (\<lambda>s. Inr (ip, s)))"

definition dinode_off :: "u32 \<Rightarrow> nat" where
  "dinode_off inum = unat (inum mod of_nat IPB) * DINODE_SIZE"

definition ialloc_loop :: "u32 \<Rightarrow> u16 \<Rightarrow> nat \<Rightarrow> 'a fstate_scheme \<Rightarrow> kerr + nat option \<times> 'a fstate_scheme" where
  "ialloc_loop dev type inum s =
     bindE (bread dev (IBLOCK (of_nat inum) (sb s)) s) (\<lambda>(bp, s).
     let d = b_data (bufs s ! bp); off = dinode_off (of_nat inum) in
     if di_type (get_dinode off d) = 0 then
       bindE (log_write bp (put_data bp (put_dinode off \<lparr>di_type = type, di_major = 0, di_minor = 0, di_nlink = 0, di_size = 0,
           di_addrs = replicate (NDIRECT + 1) 0\<rparr> d) s)) (\<lambda>s.
       bindE (brelse bp s) (\<lambda>s.
       bindE (iget dev (of_nat inum) s) (\<lambda>(ip, s). Inr (Some ip, s))))
     else bindE (brelse bp s) (\<lambda>s. Inr (None, s)))"

fun ialloc_scan :: "u32 \<Rightarrow> u16 \<Rightarrow> nat list \<Rightarrow> 'a fstate_scheme \<Rightarrow> kerr + nat \<times> 'a fstate_scheme" where
  "ialloc_scan dev type [] s = Inl (Panic ''ialloc: no inodes'')"
| "ialloc_scan dev type (inum # rest) s =
     bindE (ialloc_loop dev type inum s) (\<lambda>(r, s). case r of Some ip \<Rightarrow> Inr (ip, s) | None \<Rightarrow> ialloc_scan dev type rest s)"

definition ialloc :: "u32 \<Rightarrow> u16 \<Rightarrow> 'a fstate_scheme \<Rightarrow> kerr + nat \<times> 'a fstate_scheme" where
  "ialloc dev type s = ialloc_scan dev type [1..<unat (sb_ninodes (sb s))] s"

definition dinode_of :: "inode \<Rightarrow> dinode" where
  "dinode_of p = \<lparr>di_type = i_type p, di_major = i_major p, di_minor = i_minor p, di_nlink = i_nlink p, di_size = i_size p,
     di_addrs = i_addrs p\<rparr>"

definition iupdate :: "nat \<Rightarrow> 'a fstate_scheme \<Rightarrow> kerr + 'a fstate_scheme" where
  "iupdate ip s =
     (let p = icache s ! ip in
      bindE (bread (i_dev p) (IBLOCK (i_inum p) (sb s)) s) (\<lambda>(bp, s).
      bindE (log_write bp (put_data bp (put_dinode (dinode_off (i_inum p)) (dinode_of p) (b_data (bufs s ! bp))) s)) (brelse bp)))"

definition load_inode :: "dinode \<Rightarrow> inode \<Rightarrow> inode" where
  "load_inode d p = p\<lparr>i_type := di_type d, i_major := di_major d, i_minor := di_minor d, i_nlink := di_nlink d, i_size := di_size d,
     i_addrs := di_addrs d\<rparr>"

definition ilock :: "nat \<Rightarrow> 'a fstate_scheme \<Rightarrow> kerr + 'a fstate_scheme" where
  "ilock ip s =
     (if i_ref (icache s ! ip) < 1 then Inl (Panic ''ilock'')
      else
        bindE (acquiresleep (inode_lk ip) s) (\<lambda>s.
        let p = icache s ! ip in
        if \<not> i_valid p then
          bindE (bread (i_dev p) (IBLOCK (i_inum p) (sb s)) s) (\<lambda>(bp, s).
          let s = upd_inode ip (load_inode (get_dinode (dinode_off (i_inum p)) (b_data (bufs s ! bp)))) s in
          bindE (brelse bp s) (\<lambda>s.
          let s = upd_inode ip (\<lambda>p. p\<lparr>i_valid := True\<rparr>) s in
          if i_type (icache s ! ip) = 0 then Inl (Panic ''ilock: no type'') else Inr s))
        else Inr s))"

definition iunlock :: "nat \<Rightarrow> 'a fstate_scheme \<Rightarrow> kerr + 'a fstate_scheme" where
  "iunlock ip s =
     bindE (holdingsleep (inode_lk ip) s) (\<lambda>(h, s).
       if \<not> h \<or> i_ref (icache s ! ip) < 1 then Inl (Panic ''iunlock'') else releasesleep (inode_lk ip) s)"

section \<open>The blocks of an inode\<close>

definition set_addr :: "nat \<Rightarrow> nat \<Rightarrow> u32 \<Rightarrow> 'a fstate_scheme \<Rightarrow> 'a fstate_scheme" where
  "set_addr ip k a = upd_inode ip (\<lambda>p. p\<lparr>i_addrs := (i_addrs p)[k := a]\<rparr>)"

text \<open>\<^verbatim>\<open>if((addr = ip->addrs[k]) == 0) ip->addrs[k] = addr = balloc(ip->dev)\<close>.\<close>

definition bmap_slot :: "nat \<Rightarrow> nat \<Rightarrow> 'a fstate_scheme \<Rightarrow> kerr + u32 \<times> 'a fstate_scheme" where
  "bmap_slot ip k s =
     (let addr = i_addrs (icache s ! ip) ! k in
      if addr = 0 then bindE (balloc (i_dev (icache s ! ip)) s) (\<lambda>(addr, s). Inr (addr, set_addr ip k addr s))
      else Inr (addr, s))"

text \<open>Entry \<open>k\<close> of the indirect block \<open>ind\<close>.\<close>

definition bmap_ind :: "u32 \<Rightarrow> u32 \<Rightarrow> nat \<Rightarrow> 'a fstate_scheme \<Rightarrow> kerr + u32 \<times> 'a fstate_scheme" where
  "bmap_ind dev ind k s =
     bindE (bread dev ind s) (\<lambda>(bp, s).
     let addr = get32 (4 * k) (b_data (bufs s ! bp)) in
     bindE (if addr = 0 then
              bindE (balloc dev s) (\<lambda>(addr, s).
              bindE (log_write bp (put_data bp (put32 (4 * k) addr (b_data (bufs s ! bp))) s)) (\<lambda>s. Inr (addr, s)))
            else Inr (addr, s)) (\<lambda>(addr, s).
     bindE (brelse bp s) (\<lambda>s. Inr (addr, s))))"

definition bmap :: "nat \<Rightarrow> nat \<Rightarrow> 'a fstate_scheme \<Rightarrow> kerr + u32 \<times> 'a fstate_scheme" where
  "bmap ip bn s =
     (if bn < NDIRECT then bmap_slot ip bn s
      else if bn - NDIRECT < NINDIRECT then
        bindE (bmap_slot ip NDIRECT s) (\<lambda>(ind, s). bmap_ind (i_dev (icache s ! ip)) ind (bn - NDIRECT) s)
      else Inl (Panic ''bmap: out of range''))"

definition itrunc_direct :: "nat \<Rightarrow> nat \<Rightarrow> 'a fstate_scheme \<Rightarrow> kerr + 'a fstate_scheme" where
  "itrunc_direct ip i s =
     (let a = i_addrs (icache s ! ip) ! i in
      if a \<noteq> 0 then bindE (bfree (i_dev (icache s ! ip)) a s) (\<lambda>s. Inr (set_addr ip i 0 s)) else Inr s)"

definition itrunc :: "nat \<Rightarrow> 'a fstate_scheme \<Rightarrow> kerr + 'a fstate_scheme" where
  "itrunc ip s =
     bindE (foldE (itrunc_direct ip) [0..<NDIRECT] s) (\<lambda>s.
     let dev = i_dev (icache s ! ip); ind = i_addrs (icache s ! ip) ! NDIRECT in
     bindE (if ind \<noteq> 0 then
              bindE (bread dev ind s) (\<lambda>(bp, s).
              bindE (foldE (\<lambda>j s. let a = get32 (4 * j) (b_data (bufs s ! bp)) in if a \<noteq> 0 then bfree dev a s else Inr s)
                       [0..<NINDIRECT] s) (\<lambda>s.
              bindE (brelse bp s) (\<lambda>s.
              bindE (bfree dev ind s) (\<lambda>s. Inr (set_addr ip NDIRECT 0 s)))))
            else Inr s) (\<lambda>s.
     iupdate ip (upd_inode ip (\<lambda>p. p\<lparr>i_size := 0\<rparr>) s)))"

definition iput :: "nat \<Rightarrow> 'a fstate_scheme \<Rightarrow> kerr + 'a fstate_scheme" where
  "iput ip s =
     bindE (acquiresleep (inode_lk ip) s) (\<lambda>s.
     bindE (if i_valid (icache s ! ip) \<and> i_nlink (icache s ! ip) = 0 then
              bindE (acquire L_icache s) (\<lambda>s.
              let r = i_ref (icache s ! ip) in
              bindE (release L_icache s) (\<lambda>s.
                if r = 1 then
                  bindE (itrunc ip s) (\<lambda>s.
                  bindE (iupdate ip (upd_inode ip (\<lambda>p. p\<lparr>i_type := 0\<rparr>) s)) (\<lambda>s.
                  Inr (upd_inode ip (\<lambda>p. p\<lparr>i_valid := False\<rparr>) s)))
                else Inr s))
            else Inr s) (\<lambda>s.
     bindE (releasesleep (inode_lk ip) s) (\<lambda>s.
     bindE (acquire L_icache s) (\<lambda>s.
     release L_icache (upd_inode ip (\<lambda>p. p\<lparr>i_ref := i_ref p - 1\<rparr>) s)))))"

definition iunlockput :: "nat \<Rightarrow> 'a fstate_scheme \<Rightarrow> kerr + 'a fstate_scheme" where
  "iunlockput ip s = bindE (iunlock ip s) (iput ip)"

end
