(* ===== verification/Block_Alloc.thy ===== *)
theory Block_Alloc
  imports Inode
begin

text \<open>
  The free map. The bits of the map as a set of blocks in use, what \<^verbatim>\<open>balloc\<close> and \<^verbatim>\<open>bfree\<close> do to it inside a
  transaction, and which blocks they record in the log. A block that is handed out was free, lies inside the file system and
  reads as zeros.
\<close>

section \<open>Bits of a block\<close>

lemma bit_of_iff: "bit_of d bi \<longleftrightarrow> bit (d ! (bi div 8)) (bi mod 8)"
  by (simp add: bit_of_def bit_iff_and_push_bit_not_eq_0)

lemma div_mod_8: "(i :: nat) = j \<longleftrightarrow> i div 8 = j div 8 \<and> i mod 8 = j mod 8"
  by (metis div_mult_mod_eq)

lemma bit_of_set:
  assumes "i div 8 < length d"
  shows "bit_of (set_bit_of i d) j \<longleftrightarrow> j = i \<or> bit_of d j"
  using assms div_mod_8 [of i j]
  by (auto simp: bit_of_iff set_bit_of_def nth_list_update bit_simps)

lemma bit_of_clear:
  assumes "i div 8 < length d"
  shows "bit_of (clear_bit_of i d) j \<longleftrightarrow> j \<noteq> i \<and> bit_of d j"
  using assms div_mod_8 [of i j]
  by (auto simp: bit_of_iff clear_bit_of_def nth_list_update bit_simps)

lemma length_bit_upd [simp]: "length (set_bit_of i d) = length d" "length (clear_bit_of i d) = length d"
  by (simp_all add: set_bit_of_def clear_bit_of_def)

section \<open>The map\<close>

definition used :: "superblock \<Rightarrow> (u32 \<Rightarrow> u8 list) \<Rightarrow> nat \<Rightarrow> bool" where
  "used sp cur b \<longleftrightarrow> bit_of (cur (BBLOCK (of_nat b) sp)) (b mod BPB)"

definition map_blocks :: "superblock \<Rightarrow> u32 set" where
  "map_blocks sp = (\<lambda>b. BBLOCK (of_nat b) sp) ` {..<unat (sb_size sp)}"

text \<open>
  The layout: the blocks of the map are on the disk, outside the log, pairwise distinct, and marked in use themselves.
\<close>

definition map_ok :: "'a fstate_scheme \<Rightarrow> bool" where
  "map_ok s \<longleftrightarrow> sb_size (sb s) \<le> disksize s \<and> unat (sb_bmapstart (sb s)) + unat (sb_size (sb s)) div BPB < unat (sb_size (sb s)) \<and>
     map_blocks (sb s) \<inter> log_area s = {}"

lemma unat_BBLOCK:
  assumes "map_ok s" "b < unat (sb_size (sb s))"
  shows "unat (BBLOCK (of_nat b) (sb s)) = b div BPB + unat (sb_bmapstart (sb s))"
proof -
  have b: "b < 4294967296" using assms(2) unat_u32_bound [of "sb_size (sb s)"] by linarith
  have "unat (of_nat b div of_nat BPB :: u32) = b div BPB"
    using b by (simp add: unat_div unat_of_nat_u32 BPB_def BSIZE_def)
  moreover have "b div BPB \<le> unat (sb_size (sb s)) div BPB" using assms(2) by (intro div_le_mono) simp
  then have "b div BPB + unat (sb_bmapstart (sb s)) < 4294967296"
    using assms(1) unat_u32_bound [of "sb_size (sb s)"] by (simp add: map_ok_def)
  ultimately show ?thesis unfolding BBLOCK_def by (simp add: unat_add_u32)
qed

lemma map_block_facts:
  assumes "map_ok s" "b < unat (sb_size (sb s))"
  shows "BBLOCK (of_nat b) (sb s) \<in> map_blocks (sb s)" "BBLOCK (of_nat b) (sb s) < disksize s" "BBLOCK (of_nat b) (sb s) \<notin> log_area s"
proof -
  show m: "BBLOCK (of_nat b) (sb s) \<in> map_blocks (sb s)" using assms(2) by (simp add: map_blocks_def)
  then show "BBLOCK (of_nat b) (sb s) \<notin> log_area s" using assms(1) by (auto simp: map_ok_def)
  have "b div BPB \<le> unat (sb_size (sb s)) div BPB" using assms(2) by (intro div_le_mono) simp
  then show "BBLOCK (of_nat b) (sb s) < disksize s"
    using assms(1) unat_BBLOCK [OF assms] by (simp add: map_ok_def word_less_nat_alt word_le_nat_alt)
qed

text \<open>The blocks with the same quotient share a block of the map.\<close>

lemma BBLOCK_inj:
  assumes "map_ok s" "a < unat (sb_size (sb s))" "b < unat (sb_size (sb s))"
  shows "BBLOCK (of_nat a) (sb s) = BBLOCK (of_nat b) (sb s) \<longleftrightarrow> a div BPB = b div BPB"
  using unat_BBLOCK [OF assms(1,2)] unat_BBLOCK [OF assms(1,3)] by (metis BBLOCK_def add_right_cancel word_unat_eq_iff)

lemma trest_fs [simp]: "sb (trest s) = sb s" "icache (trest s) = icache s"
  by (simp_all add: trest_def brest_def quiet_def)

lemma trest_fsD:
  assumes "trest t = trest s"
  shows "sb t = sb s" "icache t = icache s" "disksize t = disksize s" "log_area t = log_area s" "log_size t = log_size s" "map_ok t = map_ok s"
proof -
  show e: "sb t = sb s" "icache t = icache s" "disksize t = disksize s" "log_area t = log_area s" "log_size t = log_size s"
    using arg_cong [OF assms, of sb] arg_cong [OF assms, of icache] arg_cong [OF assms, of disksize]
      arg_cong [OF assms, of log_area] arg_cong [OF assms, of log_size] by simp_all
  show "map_ok t = map_ok s" by (simp add: map_ok_def e)
qed

section \<open>Room in the log and in the cache\<close>

text \<open>
  Room for the blocks that an operation may log: those of \<open>R\<close> may be logged anyway, \<open>n\<close> counts others.
\<close>

definition room :: "u32 set \<Rightarrow> nat \<Rightarrow> 'a lstate_scheme \<Rightarrow> bool" where
  "room R n s \<longleftrightarrow> finite R \<and> card (bheld s \<union> bpinned s \<union> R) + n < NBUF \<and> int (card (bpinned s \<union> R) + n) < log_size s - 1"

definition t_write :: "u32 \<Rightarrow> u8 list \<Rightarrow> 'r tview \<Rightarrow> 'r tview" where
  "t_write b d v = v\<lparr>t_cur := (t_cur v)(b := d), t_log := insert b (t_log v)\<rparr>"

lemma t_write_simps [simp]:
  "t_cur (t_write b d v) = (t_cur v)(b := d)" "t_log (t_write b d v) = insert b (t_log v)" "t_held (t_write b d v) = t_held v"
  "t_rest (t_write b d v) = t_rest v"
  by (simp_all add: t_write_def)

lemma viewD:
  assumes "tx_view t = v"
  shows "bcur t = t_cur v" "bheld t = t_held v" "bpinned t = t_log v" "trest t = t_rest v"
  using assms by auto

lemma trest_log_size: "trest t = trest s \<Longrightarrow> log_size t = log_size s"
  by (drule arg_cong [where f = log_size]) simp

lemma room_view: "tx_view t = tx_view s \<Longrightarrow> room R n t = room R n s"
  using trest_log_size [of t s] by (auto simp: room_def tx_view_def)

lemma room_write:
  assumes "tx_view t = t_write b d (tx_view s)" "room R n s" "b \<in> R"
  shows "room R n t"
proof -
  have "bpinned t \<union> R = bpinned s \<union> R" "bheld t = bheld s" "log_size t = log_size s"
    using viewD [OF assms(1)] assms(3) trest_log_size [of t s] by auto
  moreover from this have "bheld t \<union> bpinned t \<union> R = bheld s \<union> bpinned s \<union> R" by auto
  ultimately show ?thesis using assms(2) by (simp add: room_def)
qed

lemma room_write_new:
  assumes "tx_view t = t_write b d (tx_view s)" "room R (Suc n) s"
  shows "room R n t"
proof -
  have e: "bpinned t \<union> R = insert b (bpinned s \<union> R)" "bheld t \<union> bpinned t \<union> R = insert b (bheld s \<union> bpinned s \<union> R)" "log_size t = log_size s"
    using viewD [OF assms(1)] trest_log_size [of t s] by auto
  have "card (insert b (bpinned s \<union> R)) \<le> Suc (card (bpinned s \<union> R))" "card (insert b (bheld s \<union> bpinned s \<union> R)) \<le> Suc (card (bheld s \<union> bpinned s \<union> R))"
    by (intro card_insert_le_m1; simp)+
  then show ?thesis using assms(2) by (simp add: room_def e)
qed

lemma room_small:
  assumes "room R n s"
  shows "card (bheld s \<union> bpinned s) < NBUF" "card (bpinned s) < nat (log_size s - 1)"
proof -
  have "card (bheld s \<union> bpinned s) \<le> card (bheld s \<union> bpinned s \<union> R)" "card (bpinned s) \<le> card (bpinned s \<union> R)"
    using assms in_use_finite [of s] by (auto simp: room_def intro!: card_mono)
  then show "card (bheld s \<union> bpinned s) < NBUF" "card (bpinned s) < nat (log_size s - 1)"
    using assms by (simp_all add: room_def zless_nat_eq_int_zless)
qed

lemma read_room:
  assumes "tx_inv s" "b < disksize s" "b \<notin> bheld s" "room R n s"
  shows "\<exists>i t. bread 1 b s = Inr (i, t) \<and> tx_inv t \<and> holds t i b \<and> b_data (bufs t ! i) = bcur s b \<and> (\<forall>j c. holds s j c \<longrightarrow> holds t j c) \<and>
    tx_view t = (tx_view s)\<lparr>t_held := insert b (bheld s)\<rparr>"
proof -
  obtain i t where t: "bread 1 b s = Inr (i, t)" "tx_inv t" "holds t i b" "\<forall>j c. holds s j c \<longrightarrow> holds t j c"
    "tx_view t = (tx_view s)\<lparr>t_held := insert b (bheld s)\<rparr>"
    using tx.read_ok [OF assms(1), of b] room_small [OF assms(4)] assms(2,3) by auto
  moreover have "b_data (bufs t ! i) = bcur s b" using tx.data_ok [OF t(2,3)] viewD [OF t(5)] by simp
  ultimately show ?thesis by blast
qed

lemma view_room:
  assumes "tx_inv s" "b < disksize s" "b \<notin> bheld s" "room R n s"
  shows "\<exists>i s1 t. bread 1 b s = Inr (i, s1) \<and> b_data (bufs s1 ! i) = bcur s b \<and> brelse i s1 = Inr t \<and> tx_inv t \<and>
    tx_view t = tx_view s \<and> (\<forall>j c. holds s j c \<longrightarrow> c \<noteq> b \<longrightarrow> holds t j c)"
  using tx.view_block [OF assms(1), of b] room_small [OF assms(4)] assms(2,3) by simp

lemma edit_room:
  assumes "tx_inv s" "b < disksize s" "b \<notin> bheld s" "b \<notin> log_area s" "room R n s" "length (f (bcur s b)) = BSIZE"
  shows "\<exists>i s1 s2 t. bread 1 b s = Inr (i, s1) \<and> b_data (bufs s1 ! i) = bcur s b \<and>
    log_write i (put_data i (f (bcur s b)) s1) = Inr s2 \<and> brelse i s2 = Inr t \<and> tx_inv t \<and>
    tx_view t = t_write b (f (bcur s b)) (tx_view s) \<and> (\<forall>j c. holds s j c \<longrightarrow> c \<noteq> b \<longrightarrow> holds t j c)"
proof -
  obtain i s1 s2 t where t: "bread 1 b s = Inr (i, s1)" "b_data (bufs s1 ! i) = bcur s b"
    "log_write i (put_data i (f (b_data (bufs s1 ! i))) s1) = Inr s2" "brelse i s2 = Inr t" "tx_inv t"
    "tx_view t = t_write b (f (bcur s b)) (tx_view s)" "\<forall>j c. holds s j c \<longrightarrow> c \<noteq> b \<longrightarrow> holds t j c"
    using tx.edit_block [OF assms(1), of b f] room_small [OF assms(5)] assms(2-4,6) by (simp add: t_write_def) metis
  then show ?thesis by auto
qed

section \<open>Allocation\<close>

lemma bzero_ok:
  assumes "tx_inv s" "b < disksize s" "b \<notin> bheld s" "b \<notin> log_area s" "room R n s"
  shows "\<exists>t. bzero 1 b s = Inr t \<and> tx_inv t \<and> tx_view t = t_write b (replicate BSIZE 0) (tx_view s) \<and>
    (\<forall>j c. holds s j c \<longrightarrow> c \<noteq> b \<longrightarrow> holds t j c)"
proof -
  obtain i s1 s2 t where "bread 1 b s = Inr (i, s1)" "log_write i (put_data i (replicate BSIZE 0) s1) = Inr s2" "brelse i s2 = Inr t" "tx_inv t"
    "tx_view t = t_write b (replicate BSIZE 0) (tx_view s)" "\<forall>j c. holds s j c \<longrightarrow> c \<noteq> b \<longrightarrow> holds t j c"
    using edit_room [OF assms(1-5), of "\<lambda>_. replicate BSIZE 0"] by auto
  then show ?thesis by (simp add: bzero_def)
qed

definition alloc_view :: "superblock \<Rightarrow> nat \<Rightarrow> 'r tview \<Rightarrow> 'r tview" where
  "alloc_view sp b v =
     (let m = BBLOCK (of_nat b) sp
      in t_write (of_nat b) (replicate BSIZE 0) (t_write m (set_bit_of (b mod BPB) (t_cur v m)) v))"

text \<open>One bitmap block: its free bits are the free blocks with its quotient.\<close>

lemma scan_map:
  assumes "map_ok s" "b mod BPB = 0" "b < unat (sb_size (sb s))" "bi < min BPB (unat (sb_size (sb s)) - b)"
  shows "BBLOCK (of_nat (b + bi)) (sb s) = BBLOCK (of_nat b) (sb s)" "(b + bi) mod BPB = bi"
    "used (sb s) cur (b + bi) \<longleftrightarrow> bit_of (cur (BBLOCK (of_nat b) (sb s))) bi"
proof -
  have lt: "b + bi < unat (sb_size (sb s))" using assms(3,4) by linarith
  have d: "(b + bi) mod BPB = bi" "(b + bi) div BPB = b div BPB"
    using assms(2,4) by (auto simp: mod_add_left_eq [symmetric] div_add1_eq [of b bi])
  then have "BBLOCK (of_nat (b + bi)) (sb s) = BBLOCK (of_nat b) (sb s)"
    using BBLOCK_inj [OF assms(1) lt assms(3)] by simp
  then show "BBLOCK (of_nat (b + bi)) (sb s) = BBLOCK (of_nat b) (sb s)" "(b + bi) mod BPB = bi"
    "used (sb s) cur (b + bi) \<longleftrightarrow> bit_of (cur (BBLOCK (of_nat b) (sb s))) bi"
    using d by (simp_all add: used_def)
qed

text \<open>Taking the block whose bit is \<open>bi\<close> in the block of the map for \<open>b\<close>.\<close>

lemma balloc_take:
  assumes "tx_inv s" "map_ok s" "b mod BPB = 0" "b < unat (sb_size (sb s))" "bi < min BPB (unat (sb_size (sb s)) - b)"
    and "map_blocks (sb s) \<subseteq> R" "room R n s" "map_blocks (sb s) \<inter> bheld s = {}" "of_nat (b + bi) \<notin> bheld s \<union> log_area s"
  shows "\<exists>i s1 s2 t u. bread 1 (BBLOCK (of_nat b) (sb s)) s = Inr (i, s1) \<and> b_data (bufs s1 ! i) = bcur s (BBLOCK (of_nat b) (sb s)) \<and>
    log_write i (put_data i (set_bit_of bi (b_data (bufs s1 ! i))) s1) = Inr s2 \<and> brelse i s2 = Inr t \<and> bzero 1 (of_nat (b + bi)) t = Inr u \<and>
    tx_inv u \<and> tx_view u = alloc_view (sb s) (b + bi) (tx_view s) \<and> (\<forall>j c. holds s j c \<longrightarrow> c \<in> bheld s \<longrightarrow> holds u j c)"
proof -
  let ?sz = "unat (sb_size (sb s))" and ?m = "BBLOCK (of_nat b) (sb s)" and ?x = "b + bi"
  let ?d = "set_bit_of bi (bcur s ?m)"
  note m = map_block_facts [OF assms(2,4)] and x = scan_map [OF assms(2-5)]
  have nh: "?m \<notin> bheld s" using assms(8) m(1) by blast
  have len: "length ?d = BSIZE" using tx.size_ok [OF assms(1), of ?m] m(2) by simp
  obtain i s1 s2 t where t: "bread 1 ?m s = Inr (i, s1)" "b_data (bufs s1 ! i) = bcur s ?m" "log_write i (put_data i ?d s1) = Inr s2"
    "brelse i s2 = Inr t" "tx_inv t" "tx_view t = t_write ?m ?d (tx_view s)" "\<forall>j c. holds s j c \<longrightarrow> c \<noteq> ?m \<longrightarrow> holds t j c"
    using edit_room [OF assms(1) m(2) nh m(3) assms(7), of "set_bit_of bi"] len by blast
  note v = viewD [OF t(6), simplified] and f = trest_fsD [OF viewD(4) [OF t(6), simplified]]
  have lt: "?x < ?sz" using assms(5) by linarith
  then have "unat (of_nat ?x :: u32) = ?x" using unat_u32_bound [of "sb_size (sb s)"] by (intro unat_of_nat_u32) linarith
  then have dx: "of_nat ?x < disksize s" using lt assms(2) by (simp add: map_ok_def word_less_nat_alt word_le_nat_alt)
  have rt: "room R n t" using room_write [OF t(6) assms(7)] assms(6) m(1) by blast
  obtain u where u: "bzero 1 (of_nat ?x) t = Inr u" "tx_inv u" "tx_view u = t_write (of_nat ?x) (replicate BSIZE 0) (tx_view t)"
    "\<forall>j c. holds t j c \<longrightarrow> c \<noteq> of_nat ?x \<longrightarrow> holds u j c"
    using bzero_ok [OF t(5) _ _ _ rt, of "of_nat ?x"] dx assms(9) v f by auto
  have "tx_view u = alloc_view (sb s) ?x (tx_view s)"
    using u(3) t(6) x(1,2) by (simp add: alloc_view_def Let_def del: of_nat_add)
  moreover have "\<forall>j c. holds s j c \<longrightarrow> c \<in> bheld s \<longrightarrow> holds u j c" using u(4) t(7) nh assms(9) by (metis UnCI)
  ultimately show ?thesis using t(1-4) u(1,2) by auto
qed

lemma balloc_loop_ok:
  assumes "tx_inv s" "map_ok s" "b mod BPB = 0" "\<forall>x < b. x < unat (sb_size (sb s)) \<longrightarrow> used (sb s) (bcur s) x"
    and "\<exists>x < unat (sb_size (sb s)). \<not> used (sb s) (bcur s) x"
    and "map_blocks (sb s) \<subseteq> R" "room R n s" "map_blocks (sb s) \<inter> bheld s = {}"
    and "\<And>x. x < unat (sb_size (sb s)) \<Longrightarrow> of_nat x \<in> bheld s \<union> log_area s \<Longrightarrow> used (sb s) (bcur s) x"
  shows "\<exists>x t. balloc_loop 1 (unat (sb_size (sb s))) b s = Inr (of_nat x, t) \<and> x < unat (sb_size (sb s)) \<and>
    \<not> used (sb s) (bcur s) x \<and> (\<forall>y < x. used (sb s) (bcur s) y) \<and> tx_inv t \<and> tx_view t = alloc_view (sb s) x (tx_view s) \<and>
    (\<forall>j c. holds s j c \<longrightarrow> c \<in> bheld s \<longrightarrow> holds t j c)"
  using assms
proof (induction "unat (sb_size (sb s)) - b" arbitrary: b s rule: less_induct)
  case less
  note a = less.prems
  let ?sz = "unat (sb_size (sb s))" and ?m = "BBLOCK (of_nat b) (sb s)"
  have b: "b < ?sz" using a(4,5) by (meson linorder_not_less order_less_le_trans)
  have low: "used (sb s) (bcur s) y" if "y < b + j" "y < ?sz" "\<forall>k < j. k < min BPB (?sz - b) \<longrightarrow> bit_of (bcur s ?m) k" "j \<le> BPB" for y j
  proof (cases "y < b")
    case False
    then have z: "y - b < min BPB (?sz - b)" "y = b + (y - b)" "y - b < j" using that(1,2,4) by auto
    then show ?thesis using scan_map(3) [OF a(2,3) b z(1)] that(3) by simp
  qed (use a(4) that in blast)
  show ?case
  proof (cases "scan (\<lambda>bi. \<not> bit_of (bcur s ?m) bi) 0 [0..<min BPB (?sz - b)]")
    case None
    obtain i s1 t where t: "bread 1 ?m s = Inr (i, s1)" "b_data (bufs s1 ! i) = bcur s ?m" "brelse i s1 = Inr t" "tx_inv t"
      "tx_view t = tx_view s" "\<forall>j c. holds s j c \<longrightarrow> c \<noteq> ?m \<longrightarrow> holds t j c"
      using view_room [OF a(1) map_block_facts(2) [OF a(2) b] _ a(7)] a(8) map_block_facts(1) [OF a(2) b] by blast
    note v = viewD [OF t(5), simplified] and f = trest_fsD [OF viewD(4) [OF t(5), simplified]]
    have full: "\<forall>y < b + BPB. y < ?sz \<longrightarrow> used (sb s) (bcur s) y" using low [of _ BPB] None by (simp add: scan_None_iff)
    have p: "BPB > 0" "(b + BPB) mod BPB = 0" using a(3) by (simp_all add: BPB_def BSIZE_def)
    have dec: "?sz - (b + BPB) < ?sz - b" using p(1) b by linarith
    obtain x u where u: "balloc_loop 1 ?sz (b + BPB) t = Inr (of_nat x, u)" "x < ?sz" "\<not> used (sb s) (bcur s) x" "\<forall>y < x. used (sb s) (bcur s) y"
      "tx_inv u" "tx_view u = alloc_view (sb s) x (tx_view s)" "\<forall>j c. holds t j c \<longrightarrow> c \<in> bheld s \<longrightarrow> holds u j c"
      using less.hyps [of t "b + BPB"] dec p(2) t(4,5) full a room_view [OF t(5), of R n] by (simp add: f v) blast
    have "balloc_loop 1 ?sz b s = Inr (of_nat x, u)" using b t(1-3) None u(1) by (subst balloc_loop.simps) simp
    moreover have "\<forall>j c. holds s j c \<longrightarrow> c \<in> bheld s \<longrightarrow> holds u j c"
      using u(7) t(6) a(8) map_block_facts(1) [OF a(2) b] by blast
    ultimately show ?thesis using u by blast
  next
    case (Some bi)
    then have bi: "bi < min BPB (?sz - b)" "\<not> bit_of (bcur s ?m) bi" "\<forall>j < bi. bit_of (bcur s ?m) j" by (auto simp: scan_Some_iff)
    then have lt: "b + bi < ?sz" and fx: "\<not> used (sb s) (bcur s) (b + bi)" using scan_map(3) [OF a(2,3) b bi(1)] by auto
    then have nx: "of_nat (b + bi) \<notin> bheld s \<union> log_area s" using a(9) by blast
    obtain i s1 s2 t u where t: "bread 1 ?m s = Inr (i, s1)" "b_data (bufs s1 ! i) = bcur s ?m"
      "log_write i (put_data i (set_bit_of bi (b_data (bufs s1 ! i))) s1) = Inr s2" "brelse i s2 = Inr t" "bzero 1 (of_nat (b + bi)) t = Inr u"
      "tx_inv u" "tx_view u = alloc_view (sb s) (b + bi) (tx_view s)" "\<forall>j c. holds s j c \<longrightarrow> c \<in> bheld s \<longrightarrow> holds u j c"
      using balloc_take [OF a(1-3) b bi(1) a(6-8) nx] by blast
    have "balloc_loop 1 ?sz b s = Inr (of_nat (b + bi), u)" using b t(1-5) Some by (subst balloc_loop.simps) simp
    moreover have "\<forall>y < b + bi. used (sb s) (bcur s) y" using low [of _ bi] bi lt by auto
    ultimately show ?thesis using lt fx t(6-8) by blast
  qed
qed

section \<open>The map as a whole\<close>

lemma of_nat_below: "x < unat (w :: u32) \<Longrightarrow> y < unat w \<Longrightarrow> (of_nat x :: u32) = of_nat y \<longleftrightarrow> x = y"
  using unat_u32_bound [of w] unat_of_nat_u32 [of x] unat_of_nat_u32 [of y] by (metis less_trans)

lemma card_below_insert:
  assumes "finite A" "B \<subseteq> insert x A"
  shows "card B \<le> Suc (card A)"
proof -
  have "card B \<le> card (insert x A)" using assms by (intro card_mono) auto
  also have "\<dots> \<le> Suc (card A)" using assms(1) by (simp add: card_insert_if)
  finally show ?thesis .
qed

text \<open>
  The blocks that are never handed out are marked in use: the boot block, the log, the map itself, and what the caller holds.
  \<open>K\<close> are further blocks that must not be handed out.
\<close>

definition map_inv :: "u32 set \<Rightarrow> 'a fstate_scheme \<Rightarrow> bool" where
  "map_inv K s \<longleftrightarrow> tx_inv s \<and> map_ok s \<and> map_blocks (sb s) \<inter> bheld s = {} \<and>
     (\<forall>x < unat (sb_size (sb s)). of_nat x \<in> insert 0 (bheld s \<union> log_area s \<union> map_blocks (sb s) \<union> K) \<longrightarrow> used (sb s) (bcur s) x)"

definition free_blocks :: "'a fstate_scheme \<Rightarrow> nat set" where
  "free_blocks s = {x. x < unat (sb_size (sb s)) \<and> \<not> used (sb s) (bcur s) x}"

lemma finite_free_blocks [simp]: "finite (free_blocks s)"
  by (simp add: free_blocks_def)

lemma used_alloc:
  assumes "map_inv K s" "x < unat (sb_size (sb s))" "\<not> used (sb s) (bcur s) x" "y < unat (sb_size (sb s))"
  shows "used (sb s) (t_cur (alloc_view (sb s) x (tx_view s))) y \<longleftrightarrow> y = x \<or> used (sb s) (bcur s) y"
proof -
  let ?m = "\<lambda>b. BBLOCK (of_nat b) (sb s)"
  note mi = assms(1) [unfolded map_inv_def]
  have "of_nat x \<notin> map_blocks (sb s)" using mi assms(2,3) by blast
  then have ne: "?m y \<noteq> of_nat x" using map_block_facts(1) [of s y] mi assms(4) by metis
  show ?thesis
  proof (cases "y div BPB = x div BPB")
    case True
    then have e: "?m y = ?m x" using BBLOCK_inj [of s y x] mi assms(2,4) by simp
    have "length (bcur s (?m x)) = BSIZE" using tx.size_ok [of s "?m x"] map_block_facts(2) [of s x] mi assms(2) by simp
    then have "x mod BPB div 8 < length (bcur s (?m x))" by (simp add: BPB_def BSIZE_def less_mult_imp_div_less)
    then show ?thesis using e ne True
      by (simp add: used_def alloc_view_def Let_def bit_of_set) (metis div_mult_mod_eq)
  next
    case False
    then have "?m y \<noteq> ?m x" "y \<noteq> x" using BBLOCK_inj [of s y x] mi assms(2,4) by auto
    then show ?thesis using ne by (simp add: used_def alloc_view_def Let_def)
  qed
qed

text \<open>What a caller of \<^verbatim>\<open>balloc\<close> needs to know.\<close>

lemma balloc_ok:
  assumes "map_inv K s" "free_blocks s \<noteq> {}" "map_blocks (sb s) \<subseteq> R" "room R (Suc n) s"
  shows "\<exists>x t. balloc 1 s = Inr (of_nat x, t) \<and> x \<in> free_blocks s \<and> (\<forall>y < x. y \<notin> free_blocks s) \<and> map_inv (insert (of_nat x) K) t \<and>
    free_blocks t = free_blocks s - {x} \<and> trest t = trest s \<and> bheld t = bheld s \<and> room R n t \<and> insert (of_nat x) (bpinned s) \<subseteq> bpinned t \<and>
    bpinned t \<subseteq> insert (of_nat x) (bpinned s \<union> map_blocks (sb s)) \<and> bcur t (of_nat x) = replicate BSIZE 0 \<and>
    (\<forall>b. b \<notin> insert (of_nat x) (map_blocks (sb s)) \<longrightarrow> bcur t b = bcur s b) \<and> (\<forall>j c. holds s j c \<longrightarrow> c \<in> bheld s \<longrightarrow> holds t j c)"
proof -
  note mi = assms(1) [unfolded map_inv_def]
  let ?sz = "unat (sb_size (sb s))"
  obtain x t where x: "balloc_loop 1 ?sz 0 s = Inr (of_nat x, t)" "x < ?sz" "\<not> used (sb s) (bcur s) x" "\<forall>y < x. used (sb s) (bcur s) y"
    "tx_inv t" "tx_view t = alloc_view (sb s) x (tx_view s)" "\<forall>j c. holds s j c \<longrightarrow> c \<in> bheld s \<longrightarrow> holds t j c"
    using balloc_loop_ok [of s 0 R "Suc n"] mi assms(2-4) by (auto simp: free_blocks_def)
  note v = viewD [OF x(6)] and m = map_block_facts [of s x]
  have tr: "trest t = trest s" using v(4) by (simp add: alloc_view_def Let_def)
  note f = trest_fsD [OF tr]
  have us: "used (sb t) (bcur t) y \<longleftrightarrow> y = x \<or> used (sb s) (bcur s) y" if "y < ?sz" for y
    using used_alloc [OF assms(1) x(2,3) that] by (simp add: f(1) v(1))
  have mx: "BBLOCK (of_nat x) (sb s) \<in> map_blocks (sb s)" using m(1) mi x(2) by blast
  then have h: "bheld t = bheld s" "bpinned t \<subseteq> insert (of_nat x) (bpinned s \<union> map_blocks (sb s))" "insert (of_nat x) (bpinned s) \<subseteq> bpinned t"
    "bcur t (of_nat x) = replicate BSIZE 0" "\<forall>b. b \<notin> insert (of_nat x) (map_blocks (sb s)) \<longrightarrow> bcur t b = bcur s b"
    using v by (auto simp: alloc_view_def Let_def)
  have "map_inv (insert (of_nat x) K) t"
    unfolding map_inv_def
  proof (intro conjI allI impI)
    fix y assume y: "y < unat (sb_size (sb t))" "of_nat y \<in> insert 0 (bheld t \<union> log_area t \<union> map_blocks (sb t) \<union> insert (of_nat x) K)"
    have "y = x" if "of_nat y = (of_nat x :: u32)"
      using of_nat_below [OF y(1) [unfolded f(1)] x(2)] that by simp
    then show "used (sb t) (bcur t) y" using y mi us h(1) f by auto
  qed (use x(5) mi f h(1) in auto)
  moreover have "room R n t"
  proof -
    have "bpinned t \<union> R \<subseteq> insert (of_nat x) (bpinned s \<union> R)" using h(2) assms(3) by blast
    moreover have "bheld t \<union> bpinned t \<union> R \<subseteq> insert (of_nat x) (bheld s \<union> bpinned s \<union> R)" using h(1,2) assms(3) by blast
    ultimately have "card (bpinned t \<union> R) \<le> Suc (card (bpinned s \<union> R))" "card (bheld t \<union> bpinned t \<union> R) \<le> Suc (card (bheld s \<union> bpinned s \<union> R))"
      using assms(4) in_use_finite [of s] by (auto simp: room_def intro!: card_below_insert)
    then show ?thesis using assms(4) f(5) by (simp add: room_def)
  qed
  moreover have "free_blocks t = free_blocks s - {x}" using us f(1) by (auto simp: free_blocks_def)
  moreover have "x \<in> free_blocks s" "\<forall>y < x. y \<notin> free_blocks s" using x(2-4) by (auto simp: free_blocks_def)
  moreover have "balloc 1 s = Inr (of_nat x, t)" using x(1) by (simp add: balloc_def)
  ultimately show ?thesis using tr h x(7) by blast
qed

section \<open>Freeing\<close>

definition free_view :: "superblock \<Rightarrow> nat \<Rightarrow> 'r tview \<Rightarrow> 'r tview" where
  "free_view sp b v = (let m = BBLOCK (of_nat b) sp in t_write m (clear_bit_of (b mod BPB) (t_cur v m)) v)"

lemma map_bit_bound: "x mod BPB div 8 < BSIZE"
  by (simp add: BPB_def BSIZE_def less_mult_imp_div_less)

lemma used_free:
  assumes "tx_inv s" "map_ok s" "x < unat (sb_size (sb s))" "y < unat (sb_size (sb s))"
  shows "used (sb s) (t_cur (free_view (sb s) x (tx_view s))) y \<longleftrightarrow> y \<noteq> x \<and> used (sb s) (bcur s) y"
proof -
  let ?m = "\<lambda>b. BBLOCK (of_nat b) (sb s)"
  have len: "length (bcur s (?m x)) = BSIZE" using tx.size_ok [OF assms(1), of "?m x"] map_block_facts(2) [OF assms(2,3)] by simp
  show ?thesis
  proof (cases "y div BPB = x div BPB")
    case True
    then have e: "?m y = ?m x" using BBLOCK_inj [OF assms(2,4,3)] by simp
    have "y mod BPB = x mod BPB \<longleftrightarrow> y = x" using True by (metis div_mult_mod_eq)
    then show ?thesis using e map_bit_bound [of x] len by (simp add: used_def free_view_def Let_def bit_of_clear)
  next
    case False
    then have "?m y \<noteq> ?m x" "y \<noteq> x" using BBLOCK_inj [OF assms(2,4,3)] by auto
    then show ?thesis by (simp add: used_def free_view_def Let_def)
  qed
qed

lemma bfree_eq:
  assumes "tx_inv s" "map_ok s" "b < unat (sb_size (sb s))" "map_blocks (sb s) \<inter> bheld s = {}" "map_blocks (sb s) \<subseteq> R" "room R n s"
  shows "used (sb s) (bcur s) b \<Longrightarrow> \<exists>t. bfree 1 (of_nat b) s = Inr t \<and> tx_inv t \<and> tx_view t = free_view (sb s) b (tx_view s)"
    "\<not> used (sb s) (bcur s) b \<Longrightarrow> bfree 1 (of_nat b) s = Inl (Panic ''freeing free block'')"
proof -
  let ?m = "BBLOCK (of_nat b) (sb s)" and ?bi = "b mod BPB"
  note m = map_block_facts [OF assms(2,3)]
  have nh: "?m \<notin> bheld s" using assms(4) m(1) by blast
  have u: "unat (of_nat b :: u32) = b" using assms(3) unat_u32_bound [of "sb_size (sb s)"] by (intro unat_of_nat_u32) linarith
  have len: "length (clear_bit_of ?bi (bcur s ?m)) = BSIZE" using tx.size_ok [OF assms(1), of ?m] m(2) by simp
  obtain i s1 s2 t where t: "bread 1 ?m s = Inr (i, s1)" "b_data (bufs s1 ! i) = bcur s ?m"
    "log_write i (put_data i (clear_bit_of ?bi (bcur s ?m)) s1) = Inr s2" "brelse i s2 = Inr t" "tx_inv t"
    "tx_view t = t_write ?m (clear_bit_of ?bi (bcur s ?m)) (tx_view s)"
    using edit_room [OF assms(1) m(2) nh m(3) assms(6), of "clear_bit_of ?bi"] len by blast
  show "\<exists>t. bfree 1 (of_nat b) s = Inr t \<and> tx_inv t \<and> tx_view t = free_view (sb s) b (tx_view s)" if "used (sb s) (bcur s) b"
    using that t u by (simp add: bfree_def used_def free_view_def Let_def)
  show "bfree 1 (of_nat b) s = Inl (Panic ''freeing free block'')" if "\<not> used (sb s) (bcur s) b"
    using that t u by (simp add: bfree_def used_def Let_def)
qed

lemma bfree_ok:
  assumes "map_inv K s" "b < unat (sb_size (sb s))" "used (sb s) (bcur s) b" "map_blocks (sb s) \<subseteq> R" "room R n s"
    and "of_nat b \<notin> insert 0 (bheld s \<union> log_area s \<union> map_blocks (sb s) \<union> K)"
  shows "\<exists>t. bfree 1 (of_nat b) s = Inr t \<and> map_inv K t \<and> free_blocks t = insert b (free_blocks s) \<and> trest t = trest s \<and>
    bheld t = bheld s \<and> room R n t \<and> bpinned t \<subseteq> bpinned s \<union> map_blocks (sb s) \<and> (\<forall>c. c \<notin> map_blocks (sb s) \<longrightarrow> bcur t c = bcur s c)"
proof -
  note mi = assms(1) [unfolded map_inv_def]
  obtain t where t: "bfree 1 (of_nat b) s = Inr t" "tx_inv t" "tx_view t = free_view (sb s) b (tx_view s)"
    using bfree_eq(1) [of s b R n] mi assms(2-5) by blast
  note v = viewD [OF t(3), unfolded free_view_def Let_def, simplified]
  note f = trest_fsD [OF v(4)]
  have mb: "BBLOCK (of_nat b) (sb s) \<in> map_blocks (sb s)" using map_block_facts(1) [of s b] mi assms(2) by blast
  have us: "used (sb t) (bcur t) y \<longleftrightarrow> y \<noteq> b \<and> used (sb s) (bcur s) y" if "y < unat (sb_size (sb s))" for y
    using used_free [of s b y] mi assms(2) that viewD(1) [OF t(3)] f(1) by simp
  have "map_inv K t"
    unfolding map_inv_def using mi t(2) f v us assms(6) by (auto simp: map_ok_def)
  moreover have "room R n t"
    using room_write [of t "BBLOCK (of_nat b) (sb s)" _ s R n] t(3) assms(4,5) mb by (auto simp: free_view_def Let_def)
  moreover have "free_blocks t = insert b (free_blocks s)" using us f(1) assms(2) by (auto simp: free_blocks_def)
  ultimately show ?thesis using t(1) v mb by auto
qed

end
