(* ===== verification/File_Map.thy ===== *)
theory File_Map
  imports Block_Alloc
begin

text \<open>
  The blocks of a file. An inode has twelve addresses of blocks and the address of a block with further ones; address 0 means
  that there is no block. The contents of the file as a function of the position, the invariant of an inode in a
  transaction, and that \<^verbatim>\<open>bmap\<close> finds a block or adds a block of zeros, leaves the contents of the file alone, and uses only
  blocks that were free.
\<close>

section \<open>Addresses and contents\<close>

definition baddr :: "(u32 \<Rightarrow> u8 list) \<Rightarrow> u32 list \<Rightarrow> nat \<Rightarrow> u32" where
  "baddr cur as bn =
     (if bn < NDIRECT then as ! bn else if as ! NDIRECT = 0 then 0 else get32 (4 * (bn - NDIRECT)) (cur (as ! NDIRECT)))"

definition byte_at :: "(u32 \<Rightarrow> u8 list) \<Rightarrow> u32 list \<Rightarrow> nat \<Rightarrow> u8" where
  "byte_at cur as i = (let a = baddr cur as (i div BSIZE) in if a = 0 then 0 else cur a ! (i mod BSIZE))"

definition own :: "(u32 \<Rightarrow> u8 list) \<Rightarrow> u32 list \<Rightarrow> u32 set" where
  "own cur as = insert (as ! NDIRECT) (baddr cur as ` {..<MAXFILE}) - {0}"

definition tree :: "(u32 \<Rightarrow> u8 list) \<Rightarrow> u32 list \<Rightarrow> bool" where
  "tree cur as \<longleftrightarrow> length as = NDIRECT + 1 \<and>
     (\<forall>i < MAXFILE. \<forall>j < MAXFILE. baddr cur as i = baddr cur as j \<longrightarrow> baddr cur as i \<noteq> 0 \<longrightarrow> i = j) \<and>
     (\<forall>i < MAXFILE. baddr cur as i \<noteq> 0 \<longrightarrow> baddr cur as i \<noteq> as ! NDIRECT)"

abbreviation addrs :: "nat \<Rightarrow> 'a fstate_scheme \<Rightarrow> u32 list" where
  "addrs ip s \<equiv> i_addrs (icache s ! ip)"

abbreviation iblk :: "nat \<Rightarrow> 'a fstate_scheme \<Rightarrow> u32" where
  "iblk ip s \<equiv> IBLOCK (i_inum (icache s ! ip)) (sb s)"

definition file_ok :: "nat \<Rightarrow> 'a fstate_scheme \<Rightarrow> bool" where
  "file_ok ip s \<longleftrightarrow> ip < length (icache s) \<and> i_dev (icache s ! ip) = 1 \<and> tree (bcur s) (addrs ip s) \<and>
     map_inv (insert (iblk ip s) (own (bcur s) (addrs ip s))) s \<and> own (bcur s) (addrs ip s) \<inter> bheld s = {} \<and>
     (\<forall>a \<in> own (bcur s) (addrs ip s). a < sb_size (sb s) \<and> a \<notin> insert (iblk ip s) (log_area s \<union> map_blocks (sb s)))"

lemma file_okD:
  assumes "file_ok ip s"
  shows "ip < length (icache s)" "i_dev (icache s ! ip) = 1" "tree (bcur s) (addrs ip s)" "map_inv (insert (iblk ip s) (own (bcur s) (addrs ip s))) s"
    "tx_inv s" "map_ok s" "own (bcur s) (addrs ip s) \<inter> bheld s = {}" "length (addrs ip s) = NDIRECT + 1"
    "a \<in> own (bcur s) (addrs ip s) \<Longrightarrow> a < sb_size (sb s)" "a \<in> own (bcur s) (addrs ip s) \<Longrightarrow> a < disksize s" "a \<in> own (bcur s) (addrs ip s) \<Longrightarrow> a \<notin> log_area s"
    "a \<in> own (bcur s) (addrs ip s) \<Longrightarrow> a \<notin> map_blocks (sb s)" "a \<in> own (bcur s) (addrs ip s) \<Longrightarrow> a \<noteq> iblk ip s"
    "a \<in> own (bcur s) (addrs ip s) \<Longrightarrow> length (bcur s a) = BSIZE"
proof -
  show b: "ip < length (icache s)" "i_dev (icache s ! ip) = 1" "tree (bcur s) (addrs ip s)" "map_inv (insert (iblk ip s) (own (bcur s) (addrs ip s))) s"
    "own (bcur s) (addrs ip s) \<inter> bheld s = {}" using assms by (simp_all add: file_ok_def)
  show t: "tx_inv s" "map_ok s" "length (addrs ip s) = NDIRECT + 1" using b by (simp_all add: map_inv_def tree_def)
  show "a < sb_size (sb s)" "a < disksize s" "a \<notin> log_area s" "a \<notin> map_blocks (sb s)" "a \<noteq> iblk ip s" "length (bcur s a) = BSIZE"
    if a: "a \<in> own (bcur s) (addrs ip s)"
  proof -
    show "a < sb_size (sb s)" "a \<notin> log_area s" "a \<notin> map_blocks (sb s)" "a \<noteq> iblk ip s" using assms a by (auto simp: file_ok_def)
    then show "a < disksize s" using t(2) by (auto simp: map_ok_def)
    then show "length (bcur s a) = BSIZE" using tx.size_ok [OF t(1), of a] by simp
  qed
qed

lemma baddr_own: "bn < MAXFILE \<Longrightarrow> baddr cur as bn \<noteq> 0 \<Longrightarrow> baddr cur as bn \<in> own cur as"
  by (auto simp: own_def)

lemma ind_own: "as ! NDIRECT \<noteq> 0 \<Longrightarrow> as ! NDIRECT \<in> own cur as"
  by (simp add: own_def)

text \<open>A block that is not the indirect one does not matter for the addresses.\<close>

lemma baddr_cong: "cur' (as ! NDIRECT) = cur (as ! NDIRECT) \<Longrightarrow> baddr cur' as = baddr cur as"
  by (auto simp: baddr_def)

lemma own_cong: "cur' (as ! NDIRECT) = cur (as ! NDIRECT) \<Longrightarrow> own cur' as = own cur as \<and> tree cur' as = tree cur as"
  using baddr_cong [of cur' as cur] by (simp add: own_def tree_def)

section \<open>Blocks that are there\<close>

lemma bmap_mapped:
  assumes "file_ok ip s" "bn < MAXFILE" "baddr (bcur s) (addrs ip s) bn \<noteq> 0" "room R n s"
  shows "\<exists>t. bmap ip bn s = Inr (baddr (bcur s) (addrs ip s) bn, t) \<and> tx_inv t \<and> tx_view t = tx_view s"
proof (cases "bn < NDIRECT")
  case True
  then show ?thesis using assms(3) file_okD(5) [OF assms(1)] by (simp add: bmap_def bmap_slot_def baddr_def)
next
  case False
  let ?ind = "addrs ip s ! NDIRECT"
  have i: "?ind \<noteq> 0" "baddr (bcur s) (addrs ip s) bn = get32 (4 * (bn - NDIRECT)) (bcur s ?ind)" "bn - NDIRECT < NINDIRECT"
    using False assms(2,3) by (auto simp: baddr_def MAXFILE_def split: if_splits)
  note o = ind_own [OF i(1), of "bcur s"]
  have "?ind \<notin> bheld s" using file_okD(7) [OF assms(1)] o by blast
  then obtain j s1 t where t: "bread 1 ?ind s = Inr (j, s1)" "b_data (bufs s1 ! j) = bcur s ?ind" "brelse j s1 = Inr t" "tx_inv t" "tx_view t = tx_view s"
    using view_room [OF file_okD(5) [OF assms(1)] file_okD(10) [OF assms(1) o] _ assms(4)] by blast
  then show ?thesis
    using False i assms(3) file_okD(2) [OF assms(1)] by (simp add: bmap_def bmap_slot_def bmap_ind_def Let_def)
qed

section \<open>Adding a block\<close>

text \<open>
  The state after some blocks were added to the file and its contents became \<open>f\<close>: the blocks it had are the same ones, the new blocks come from
  the free ones, and nothing but the map and the blocks of the file has changed. The file has \<open>grown\<close> when the contents are what they were.
\<close>

definition rewritten :: "nat \<Rightarrow> (nat \<Rightarrow> u8) \<Rightarrow> 'a fstate_scheme \<Rightarrow> 'a fstate_scheme \<Rightarrow> bool" where
  "rewritten ip f s t \<longleftrightarrow> file_ok ip t \<and> (\<exists>as. trest t = (trest s)\<lparr>icache := (icache s)[ip := (icache s ! ip)\<lparr>i_addrs := as\<rparr>]\<rparr>) \<and> bheld t = bheld s \<and>
     (\<forall>i < MAXFILE * BSIZE. byte_at (bcur t) (addrs ip t) i = f i) \<and>
     (\<forall>bn < MAXFILE. baddr (bcur s) (addrs ip s) bn \<noteq> 0 \<longrightarrow> baddr (bcur t) (addrs ip t) bn = baddr (bcur s) (addrs ip s) bn) \<and>
     (addrs ip s ! NDIRECT \<noteq> 0 \<longrightarrow> addrs ip t ! NDIRECT = addrs ip s ! NDIRECT) \<and>
     own (bcur s) (addrs ip s) \<subseteq> own (bcur t) (addrs ip t) \<and> own (bcur t) (addrs ip t) \<subseteq> own (bcur s) (addrs ip s) \<union> of_nat ` free_blocks s \<and>
     free_blocks t \<subseteq> free_blocks s \<and> (\<forall>b. b \<notin> map_blocks (sb s) \<union> own (bcur t) (addrs ip t) \<longrightarrow> bcur t b = bcur s b)"

abbreviation grown :: "nat \<Rightarrow> 'a fstate_scheme \<Rightarrow> 'a fstate_scheme \<Rightarrow> bool" where
  "grown ip s \<equiv> rewritten ip (byte_at (bcur s) (addrs ip s)) s"

lemma free_fresh:
  assumes "map_inv K s" "x \<in> free_blocks s"
  shows "of_nat x \<notin> insert 0 (bheld s \<union> log_area s \<union> map_blocks (sb s) \<union> K)" "of_nat x < sb_size (sb s)" "unat (of_nat x :: u32) = x"
proof -
  show "of_nat x \<notin> insert 0 (bheld s \<union> log_area s \<union> map_blocks (sb s) \<union> K)"
    using assms unfolding map_inv_def free_blocks_def by blast
  show u: "unat (of_nat x :: u32) = x"
    using assms(2) unat_u32_bound [of "sb_size (sb s)"] by (intro unat_of_nat_u32) (simp add: free_blocks_def)
  show "of_nat x < sb_size (sb s)" using assms(2) u by (simp add: free_blocks_def word_less_nat_alt)
qed

text \<open>One more address: of a block of data, or of the indirect block.\<close>

lemma tree_add_data:
  assumes "tree cur as" "bn < MAXFILE" "baddr cur as bn = 0" "a \<noteq> 0" "a \<notin> own cur as" "length as' = NDIRECT + 1" "as' ! NDIRECT = as ! NDIRECT"
    and "\<And>j. j < MAXFILE \<Longrightarrow> baddr cur' as' j = (if j = bn then a else baddr cur as j)"
  shows "tree cur' as'" "own cur' as' = insert a (own cur as)"
proof -
  have n: "baddr cur as j \<noteq> a" if "j < MAXFILE" for j using assms(4,5) baddr_own [OF that, of cur as] by metis
  have "as ! NDIRECT \<noteq> a" using assms(4,5) ind_own [of as cur] by metis
  then show "tree cur' as'" using assms n by (auto simp: tree_def)
  show "own cur' as' = insert a (own cur as)" using assms(2,3,4,7,8) by (auto simp: own_def image_iff split: if_splits)
qed

lemma tree_add_ind:
  assumes "tree cur as" "as ! NDIRECT = 0" "a \<noteq> 0" "a \<notin> own cur as" "as' = as[NDIRECT := a]"
    and "\<And>j. j < MAXFILE \<Longrightarrow> baddr cur' as' j = baddr cur as j"
  shows "tree cur' as'" "own cur' as' = insert a (own cur as)"
proof -
  have n: "baddr cur as j \<noteq> a" if "j < MAXFILE" for j using assms(3,4) baddr_own [OF that, of cur as] by metis
  have l: "length as = NDIRECT + 1" using assms(1) by (simp add: tree_def)
  show "tree cur' as'" using assms n l by (auto simp: tree_def)
  show "own cur' as' = insert a (own cur as)" using assms(2,3,5,6) l by (auto simp: own_def image_iff)
qed

lemma trest_ic:
  assumes "trest t = (trest s)\<lparr>icache := ic\<rparr>"
  shows "sb t = sb s" "icache t = ic" "disksize t = disksize s" "log_area t = log_area s" "log_size t = log_size s"
proof -
  show "sb t = sb s" "icache t = ic" "disksize t = disksize s" "log_size t = log_size s"
    using arg_cong [OF assms, of sb] arg_cong [OF assms, of icache] arg_cong [OF assms, of disksize] arg_cong [OF assms, of log_size] by simp_all
  have "log_area ((trest s)\<lparr>icache := ic\<rparr>) = log_area (trest s)" by (simp add: log_area_def lblk_def)
  then show "log_area t = log_area s" using arg_cong [OF assms, of log_area] by simp
qed

lemma grown_intro:
  assumes "file_ok ip s" "x \<in> free_blocks s" "a = of_nat x" and "map_inv (insert a (insert (iblk ip s) (own (bcur s) (addrs ip s)))) t"
    and "trest t = (trest s)\<lparr>icache := (icache s)[ip := (icache s ! ip)\<lparr>i_addrs := as\<rparr>]\<rparr>" "bheld t = bheld s" "free_blocks t = free_blocks s - {x}"
    and "tree (bcur t) as" "own (bcur t) as = insert a (own (bcur s) (addrs ip s))" "bcur t a = replicate BSIZE 0"
    and "addrs ip s ! NDIRECT \<noteq> 0 \<Longrightarrow> as ! NDIRECT = addrs ip s ! NDIRECT"
    and "\<And>b. b \<in> own (bcur s) (addrs ip s) \<Longrightarrow> b \<noteq> addrs ip s ! NDIRECT \<Longrightarrow> bcur t b = bcur s b"
    and "\<And>b. b \<notin> map_blocks (sb s) \<union> insert a (own (bcur s) (addrs ip s)) \<Longrightarrow> bcur t b = bcur s b"
    and "\<And>j. j < MAXFILE \<Longrightarrow> baddr (bcur t) as j = baddr (bcur s) (addrs ip s) j \<or> baddr (bcur s) (addrs ip s) j = 0 \<and> baddr (bcur t) as j = a"
  shows "grown ip s t"
proof -
  note k = file_okD [OF assms(1)] and fr = free_fresh [OF file_okD(4) [OF assms(1)] assms(2), folded assms(3)]
  note r = trest_ic [OF assms(5)]
  have ic: "addrs ip t = as" "icache t ! ip = (icache s ! ip)\<lparr>i_addrs := as\<rparr>" "iblk ip t = iblk ip s" using r(1,2) k(1) by simp_all
  have "file_ok ip t"
    unfolding file_ok_def ic using assms(4,6,8,9) k(1,2,7,9-13) fr r by (auto simp: insert_commute)
  moreover have "byte_at (bcur t) as i = byte_at (bcur s) (addrs ip s) i" if "i < MAXFILE * BSIZE" for i
  proof -
    have bn: "i div BSIZE < MAXFILE" using that by (simp add: less_mult_imp_div_less)
    have m: "i mod BSIZE < BSIZE" by (simp add: BSIZE_def)
    let ?o = "baddr (bcur s) (addrs ip s) (i div BSIZE)"
    have "?o \<noteq> 0 \<Longrightarrow> bcur t ?o = bcur s ?o"
      using assms(12) baddr_own [OF bn] k(3) bn by (metis tree_def)
    then show ?thesis using assms(10) assms(14) [OF bn] m fr(1) by (auto simp: byte_at_def Let_def)
  qed
  moreover have "own (bcur t) as \<subseteq> own (bcur s) (addrs ip s) \<union> of_nat ` free_blocks s" using assms(2,3,9) by auto
  moreover have "baddr (bcur t) as bn = baddr (bcur s) (addrs ip s) bn" if "bn < MAXFILE" "baddr (bcur s) (addrs ip s) bn \<noteq> 0" for bn
    using assms(14) [OF that(1)] that(2) by blast
  moreover have "bcur t b = bcur s b" if "b \<notin> map_blocks (sb s) \<union> own (bcur t) as" for b
    using assms(9,13) that by blast
  ultimately show ?thesis
    unfolding rewritten_def ic using assms(5,6,7,9,11) by (intro conjI exI [of _ as]) (simp_all add: subset_insertI)
qed

lemma upd_inode_simps:
  "tx_inv (upd_inode ip f s) = tx_inv s" "bcur (upd_inode ip f s) = bcur s" "bheld (upd_inode ip f s) = bheld s"
  "bpinned (upd_inode ip f s) = bpinned s" "sb (upd_inode ip f s) = sb s" "log_size (upd_inode ip f s) = log_size s"
  "trest (upd_inode ip f s) = (trest s)\<lparr>icache := (icache s)[ip := f (icache s ! ip)]\<rparr>"
proof -
  have b: "bio_inv (upd_inode ip f s) = bio_inv s" "bcur (upd_inode ip f s) = bcur s" "bdsk (upd_inode ip f s) = bdsk s" "bheld (upd_inode ip f s) = bheld s"
    "bpinned (upd_inode ip f s) = bpinned s"
    by (rule bio_cong; simp add: upd_inode_def)+
  show "bcur (upd_inode ip f s) = bcur s" "bheld (upd_inode ip f s) = bheld s" "bpinned (upd_inode ip f s) = bpinned s" by (fact b)+
  show "sb (upd_inode ip f s) = sb s" "log_size (upd_inode ip f s) = log_size s"
    "trest (upd_inode ip f s) = (trest s)\<lparr>icache := (icache s)[ip := f (icache s ! ip)]\<rparr>"
    by (simp_all add: upd_inode_def trest_def brest_def quiet_def)
  have "log_shape (upd_inode ip f s) = log_shape s" "homes (upd_inode ip f s) = homes s" "log_outstanding (upd_inode ip f s) = log_outstanding s"
    by (simp_all add: upd_inode_def log_shape_def log_geom_def homes_def log_area_def lblk_def)
  then show "tx_inv (upd_inode ip f s) = tx_inv s" unfolding tx_inv_def b by simp
qed

lemmas set_addr_simps [simp] = upd_inode_simps [of ip "\<lambda>p. p\<lparr>i_addrs := (i_addrs p)[k := a]\<rparr>" for ip k a, folded set_addr_def]

lemma map_inv_ic:
  assumes "map_inv K s" "tx_inv t" "trest t = (trest s)\<lparr>icache := ic\<rparr>" "bheld t = bheld s" "bcur t = bcur s"
  shows "map_inv K t" "free_blocks t = free_blocks s"
  using assms trest_ic [OF assms(3)] by (simp_all add: map_inv_def map_ok_def free_blocks_def)

lemma room_ic: "trest t = (trest s)\<lparr>icache := ic\<rparr> \<Longrightarrow> bheld t = bheld s \<Longrightarrow> bpinned t = bpinned s \<Longrightarrow> room R n t = room R n s"
  by (drule trest_ic(5)) (simp add: room_def)

lemma get32_zeros: "k < NINDIRECT \<Longrightarrow> get32 (4 * k) (replicate BSIZE 0) = 0"
  by (simp add: get32_def part_def word32_def NINDIRECT_def BSIZE_def)

lemma slot_new:
  assumes "file_ok ip s" "k \<le> NDIRECT" "addrs ip s ! k = 0" "map_blocks (sb s) \<subseteq> R" "room R (Suc n) s" "free_blocks s \<noteq> {}"
  shows "\<exists>x t. bmap_slot ip k s = Inr (of_nat x, t) \<and> x \<in> free_blocks s \<and> grown ip s t \<and> addrs ip t = (addrs ip s)[k := of_nat x] \<and> room R n t \<and>
    insert (of_nat x) (bpinned s) \<subseteq> bpinned t \<and> free_blocks t = free_blocks s - {x} \<and> bcur t (of_nat x) = replicate BSIZE 0 \<and>
    bpinned t \<subseteq> insert (of_nat x) (bpinned s \<union> map_blocks (sb s))"
proof -
  note k = file_okD [OF assms(1)]
  let ?K = "insert (iblk ip s) (own (bcur s) (addrs ip s))"
  obtain x s1 where x: "balloc 1 s = Inr (of_nat x, s1)" "x \<in> free_blocks s" "map_inv (insert (of_nat x) ?K) s1"
    "free_blocks s1 = free_blocks s - {x}" "trest s1 = trest s" "bheld s1 = bheld s" "room R n s1" "insert (of_nat x) (bpinned s) \<subseteq> bpinned s1"
    "bcur s1 (of_nat x) = replicate BSIZE 0" "\<And>b. b \<notin> insert (of_nat x) (map_blocks (sb s)) \<Longrightarrow> bcur s1 b = bcur s b"
    "bpinned s1 \<subseteq> insert (of_nat x) (bpinned s \<union> map_blocks (sb s))"
    using balloc_ok [OF k(4) assms(6,4,5)] by blast
  define a where "a = (of_nat x :: u32)"
  define t where "t = set_addr ip k a s1"
  note fr = free_fresh [OF k(4) x(2), folded a_def] and f = trest_fsD [OF x(5)]
  have ad: "addrs ip t = (addrs ip s)[k := a]" using k(1) f(2) by (simp add: t_def set_addr_def upd_inode_def)
  have tr: "trest t = (trest s)\<lparr>icache := (icache s)[ip := (icache s ! ip)\<lparr>i_addrs := (addrs ip s)[k := a]\<rparr>]\<rparr>"
    using x(5) f(2) by (simp add: t_def)
  have cur: "bcur t = bcur s1" "bheld t = bheld s1" "bpinned t = bpinned s1" by (simp_all add: t_def)
  have ow: "bcur s1 b = bcur s b" if "b \<in> own (bcur s) (addrs ip s)" for b
    using x(10) [of b] k(12) [OF that] that fr(1) by (auto simp: a_def)
  have bs: "bmap_slot ip k s = Inr (a, t)" using assms(3) k(2) x(1) by (simp add: bmap_slot_def t_def a_def)
  have ti: "tx_inv t" using x(3) by (simp add: t_def map_inv_def)
  have ts: "trest t = (trest s1)\<lparr>icache := (icache s1)[ip := (icache s1 ! ip)\<lparr>i_addrs := (addrs ip s1)[k := a]\<rparr>]\<rparr>" by (simp add: t_def)
  have m: "map_inv (insert a ?K) t" "free_blocks t = free_blocks s - {x}" "room R n t"
    using map_inv_ic [OF x(3) ti ts cur(2,1)] room_ic [OF ts cur(2,3)] x(4,7) by (simp_all add: a_def)
  have z: "bcur t a = replicate BSIZE 0" using x(9) by (simp add: cur a_def)
  have tr1: "tree (bcur t) (addrs ip t) \<and> own (bcur t) (addrs ip t) = insert a (own (bcur s) (addrs ip s)) \<and>
    (\<forall>j < MAXFILE. baddr (bcur t) (addrs ip t) j = baddr (bcur s) (addrs ip s) j \<or> baddr (bcur s) (addrs ip s) j = 0 \<and> baddr (bcur t) (addrs ip t) j = a)"
  proof (cases "k = NDIRECT")
    case True
    have "baddr (bcur t) (addrs ip t) j = baddr (bcur s) (addrs ip s) j" if "j < MAXFILE" for j
      using that assms(3) True k(8) z fr(1) by (simp add: baddr_def ad get32_zeros MAXFILE_def)
    then show ?thesis using tree_add_ind [OF k(3) _ _ _ ad [unfolded True]] assms(3) True fr(1) by simp
  next
    case False
    have "baddr (bcur t) (addrs ip t) j = (if j = k then a else baddr (bcur s) (addrs ip s) j)" if "j < MAXFILE" for j
      using that assms(2) False k(8) ow [OF ind_own] by (auto simp: baddr_def ad cur)
    moreover have "k < MAXFILE" "baddr (bcur s) (addrs ip s) k = 0" using assms(2,3) False by (simp_all add: baddr_def MAXFILE_def)
    ultimately show ?thesis using tree_add_data [OF k(3), of k a "addrs ip t" "bcur t"] False k(8) fr(1) by (simp add: ad)
  qed
  have "(addrs ip s)[k := a] ! NDIRECT = addrs ip s ! NDIRECT" if "addrs ip s ! NDIRECT \<noteq> 0" using assms(3) that by (cases "k = NDIRECT") simp_all
  then have "grown ip s t"
    using tr1 ow x(6,10) by (intro grown_intro [OF assms(1) x(2) a_def m(1) tr _ m(2) _ _ z]) (simp_all add: ad cur a_def)
  then show ?thesis using bs x(2) ad m z x(8,11) cur(3) unfolding a_def by blast
qed

text \<open>Changing blocks that are not of the map, and holding blocks that are in use.\<close>

lemma map_inv_keep:
  assumes "map_inv K s" "tx_inv t" "trest t = trest s" "bheld t \<subseteq> bheld s \<union> K" "map_blocks (sb s) \<inter> bheld t = {}" "\<And>b. b \<in> map_blocks (sb s) \<Longrightarrow> bcur t b = bcur s b"
  shows "map_inv K t" "free_blocks t = free_blocks s"
proof -
  note f = trest_fsD [OF assms(3)]
  have m: "map_ok s" using assms(1) by (simp add: map_inv_def)
  have u: "used (sb s) (bcur t) x = used (sb s) (bcur s) x" if "x < unat (sb_size (sb s))" for x
    using assms(6) [OF map_block_facts(1) [OF m that]] by (simp add: used_def)
  show "free_blocks t = free_blocks s" using u by (auto simp: free_blocks_def f(1))
  have "used (sb s) (bcur s) x" if "x < unat (sb_size (sb s))" "of_nat x \<in> insert 0 (bheld t \<union> log_area s \<union> map_blocks (sb s) \<union> K)" for x
    using that assms(1,4) by (auto simp: map_inv_def)
  then show "map_inv K t" unfolding map_inv_def f using assms(2,5) m u by auto
qed

lemma map_inv_write:
  assumes "map_inv K s" "tx_inv t" "tx_view t = t_write b d (tx_view s)" "b \<notin> map_blocks (sb s)"
  shows "map_inv K t" "free_blocks t = free_blocks s"
proof -
  note v = viewD [OF assms(3), simplified]
  have "bheld t \<subseteq> bheld s \<union> K" "map_blocks (sb s) \<inter> bheld t = {}" "\<And>c. c \<in> map_blocks (sb s) \<Longrightarrow> bcur t c = bcur s c"
    using assms(1,4) v(1,2) by (auto simp: map_inv_def)
  then show "map_inv K t" "free_blocks t = free_blocks s" using map_inv_keep [OF assms(1,2) v(4)] by blast+
qed

lemma room_hold:
  assumes "tx_view t = (tx_view s)\<lparr>t_held := insert b (bheld s)\<rparr>" "room R n s" "b \<in> R \<union> bpinned s"
  shows "room R n t"
proof -
  note v = viewD [OF assms(1), simplified]
  have "insert b (bheld s) \<union> bpinned s \<union> R = bheld s \<union> bpinned s \<union> R" using assms(3) by blast
  then show ?thesis using assms(2) trest_log_size [OF v(4)] by (simp add: room_def v)
qed

lemma room_shrink:
  assumes "room R n s" "trest t = trest s" "bpinned t \<union> R = bpinned s \<union> R" "bheld t \<union> bpinned t \<union> R \<subseteq> bheld s \<union> bpinned s \<union> R"
  shows "room R n t"
proof -
  have "card (bheld t \<union> bpinned t \<union> R) \<le> card (bheld s \<union> bpinned s \<union> R)"
    using assms(1,4) in_use_finite [of s] by (intro card_mono) (auto simp: room_def)
  then show ?thesis using assms(1,3) trest_log_size [OF assms(2)] by (simp add: room_def)
qed

lemma trest_same_addrs: "(trest s)\<lparr>icache := (icache s)[ip := (icache s ! ip)\<lparr>i_addrs := addrs ip s\<rparr>]\<rparr> = trest s"
  by (simp add: trest_def brest_def quiet_def)

lemma get_put32_entry:
  assumes "k < NINDIRECT" "m < NINDIRECT" "length d = BSIZE"
  shows "get32 (4 * m) (put32 (4 * k) a d) = (if m = k then a else get32 (4 * m) d)"
proof -
  have "m \<noteq> k \<Longrightarrow> 4 * m + 4 \<le> 4 * k \<or> 4 * k + 4 \<le> 4 * m" by linarith
  then show ?thesis using assms get_put_other(1) [of "4 * k" d "4 * m" a] by (auto simp: NINDIRECT_def BSIZE_def)
qed

lemma ind_new:
  assumes "file_ok ip s" "addrs ip s ! NDIRECT = ind" "ind \<noteq> 0" "k < NINDIRECT" "get32 (4 * k) (bcur s ind) = 0"
    and "map_blocks (sb s) \<subseteq> R" "ind \<in> R \<union> bpinned s" "room R (Suc n) s" "free_blocks s \<noteq> {}"
  shows "\<exists>x t. bmap_ind 1 ind k s = Inr (of_nat x, t) \<and> x \<in> free_blocks s \<and> grown ip s t \<and> icache t = icache s \<and> baddr (bcur t) (addrs ip s) (NDIRECT + k) = of_nat x \<and>
    room R n t \<and> insert (of_nat x) (bpinned s) \<subseteq> bpinned t \<and> free_blocks t = free_blocks s - {x} \<and>
    bpinned t \<subseteq> {ind, of_nat x} \<union> bpinned s \<union> map_blocks (sb s)"
proof -
  note k = file_okD [OF assms(1)]
  let ?K = "insert (iblk ip s) (own (bcur s) (addrs ip s))"
  have io: "ind \<in> own (bcur s) (addrs ip s)" using ind_own assms(2,3) by metis
  have ih: "ind \<notin> bheld s" using k(7) io by blast
  obtain j s1 where 1: "bread 1 ind s = Inr (j, s1)" "tx_inv s1" "holds s1 j ind" "b_data (bufs s1 ! j) = bcur s ind" "tx_view s1 = (tx_view s)\<lparr>t_held := insert ind (bheld s)\<rparr>"
    using read_room [OF k(5) k(10) [OF io] ih assms(8)] by blast
  note v1 = viewD [OF 1(5), simplified]
  have m1: "map_inv ?K s1" "free_blocks s1 = free_blocks s"
    using map_inv_keep [OF k(4) 1(2) v1(4)] k(4) k(12) [OF io] io v1 by (auto simp: map_inv_def)
  note f1 = trest_fsD [OF v1(4)]
  obtain x s2 where x: "balloc 1 s1 = Inr (of_nat x, s2)" "x \<in> free_blocks s1" "map_inv (insert (of_nat x) ?K) s2"
    "free_blocks s2 = free_blocks s1 - {x}" "trest s2 = trest s1" "bheld s2 = bheld s1" "room R n s2" "insert (of_nat x) (bpinned s1) \<subseteq> bpinned s2"
    "bcur s2 (of_nat x) = replicate BSIZE 0" "\<And>b. b \<notin> insert (of_nat x) (map_blocks (sb s1)) \<Longrightarrow> bcur s2 b = bcur s1 b" "\<forall>j c. holds s1 j c \<longrightarrow> c \<in> bheld s1 \<longrightarrow> holds s2 j c"
    "bpinned s2 \<subseteq> insert (of_nat x) (bpinned s1 \<union> map_blocks (sb s))"
    using balloc_ok [OF m1(1) _ _ room_hold [OF 1(5) assms(8,7)], unfolded m1(2) f1(1), OF assms(9,6)] unfolding m1(2) f1(1) by blast
  define a where "a = (of_nat x :: u32)"
  note fr = free_fresh [OF k(4) x(2) [unfolded m1(2)], folded a_def] and f2 = trest_fsD [OF x(5)]
  let ?d = "put32 (4 * k) a (bcur s ind)"
  have ow: "bcur s2 b = bcur s b" if "b \<in> own (bcur s) (addrs ip s)" for b
    using x(10) [of b] k(12) [OF that] that fr(1) v1(1) f1(1) by (auto simp: a_def)
  have h2: "holds s2 j ind" using x(11) 1(3) v1(2) by blast
  have d: "b_data (bufs s2 ! j) = bcur s ind" using tx.data_ok [OF _ h2] x(3) ow [OF io] by (simp add: map_inv_def)
  have l: "length ?d = BSIZE" using assms(4) k(14) [OF io] by (simp add: NINDIRECT_def BSIZE_def)
  obtain s3 where 3: "log_write j (put_data j ?d s2) = Inr s3" "tx_inv s3" "holds s3 = holds s2" "tx_view s3 = t_write ind ?d (tx_view s2)"
    using tx.edit_ok [OF _ h2 _ _ l] x(3) k(11) [OF io] room_small [OF x(7)] f2(4) f1(4) by (auto simp: map_inv_def t_write_def)
  obtain t where 4: "brelse j s3 = Inr t" "tx_inv t" "tx_view t = (tx_view s3)\<lparr>t_held := bheld s3 - {ind}\<rparr>"
    using tx.release_ok [OF 3(2), of j ind] 3(3) h2 by auto
  have t: "bcur t = (bcur s2)(ind := ?d)" "bheld t = bheld s" "bpinned t = insert ind (bpinned s2)" "trest t = trest s2"
    using viewD [OF 4(3), simplified] viewD [OF 3(4), simplified] x(6) v1(2) ih by auto
  have bi: "bmap_ind 1 ind k s = Inr (a, t)" using 1(1,4) assms(5) x(1) d 3(1) 4(1) by (simp add: bmap_ind_def Let_def a_def)
  have p: "bheld t \<subseteq> bheld s2 \<union> insert (of_nat x) ?K" "map_blocks (sb s2) \<inter> bheld t = {}" "\<And>b. b \<in> map_blocks (sb s2) \<Longrightarrow> bcur t b = bcur s2 b"
    using k(4) k(12) [OF io] t(1,2) x(6) v1(2) f2(1) f1(1) by (auto simp: map_inv_def)
  have m: "map_inv (insert a ?K) t" "free_blocks t = free_blocks s - {x}"
    using map_inv_keep [OF x(3) 4(2) t(4) p] x(4) m1(2) by (simp_all add: a_def)
  have "bpinned t \<union> R = bpinned s2 \<union> R" "bheld t \<union> bpinned t \<union> R \<subseteq> bheld s2 \<union> bpinned s2 \<union> R"
    using t(2,3) assms(7) v1(2,3) x(6,8) by auto
  then have r: "room R n t" using room_shrink [OF x(7)] t(4) by blast
  have b: "baddr (bcur t) (addrs ip s) i = (if i = NDIRECT + k then a else baddr (bcur s) (addrs ip s) i)" if "i < MAXFILE" for i
    using that assms(2,3,4) k(14) [OF io] t(1) by (auto simp add: baddr_def MAXFILE_def get_put32_entry)
  have z: "bcur t a = replicate BSIZE 0" using t(1) x(9) fr(1) io by (auto simp: a_def)
  have bn: "NDIRECT + k < MAXFILE" "baddr (bcur s) (addrs ip s) (NDIRECT + k) = 0" using assms(2-5) by (simp_all add: baddr_def MAXFILE_def)
  note td = tree_add_data [OF k(3) bn _ _ k(8) refl b]
  have ic: "icache t = icache s" using trest_fsD [OF t(4)] f2(2) f1(2) by simp
  then have tr: "trest t = (trest s)\<lparr>icache := (icache s)[ip := (icache s ! ip)\<lparr>i_addrs := addrs ip s\<rparr>]\<rparr>"
    using t(4) x(5) v1(4) trest_same_addrs [of s] by simp
  have "grown ip s t"
  proof (rule grown_intro [OF assms(1) x(2) [unfolded m1(2)] a_def m(1) tr t(2) m(2) td(1) td(2) z])
    show "bcur t b = bcur s b" if "b \<in> own (bcur s) (addrs ip s)" "b \<noteq> addrs ip s ! NDIRECT" for b
      using ow [OF that(1)] that(2) assms(2) t(1) by simp
    show "bcur t b = bcur s b" if "b \<notin> map_blocks (sb s) \<union> insert a (own (bcur s) (addrs ip s))" for b
      using x(10) [of b] that io t(1) v1(1) f1(1) by (auto simp: a_def)
  qed (use b fr(1) bn in auto)
  then show ?thesis using bi x(2,8,12) m m1(2) r b [OF bn(1)] t(3) v1(3) ic unfolding a_def by auto
qed

section \<open>bmap\<close>

text \<open>Growing, and growing again.\<close>

lemma grown_view:
  assumes "file_ok ip s" "tx_inv t" "tx_view t = tx_view s"
  shows "grown ip s t" "file_ok ip t"
proof -
  note v = viewD [OF assms(3), simplified]
  note f = trest_fsD [OF v(4)] and k = file_okD [OF assms(1)]
  have m: "map_inv (insert (iblk ip s) (own (bcur s) (addrs ip s))) t" "free_blocks t = free_blocks s"
    using map_inv_keep [OF k(4) assms(2) v(4) _ _ fun_cong [OF v(1)]] k(4) [unfolded map_inv_def] v(2) by auto
  show o: "file_ok ip t" using assms(1) m(1) by (simp add: file_ok_def f v)
  show "grown ip s t"
    unfolding rewritten_def using o m(2) trest_same_addrs [of s ip] by (intro conjI exI [of _ "addrs ip s"]) (simp_all add: f v)
qed

lemma rewrittenD:
  assumes "rewritten ip f s t"
  shows "file_ok ip t" "\<exists>as. trest t = (trest s)\<lparr>icache := (icache s)[ip := (icache s ! ip)\<lparr>i_addrs := as\<rparr>]\<rparr>" "bheld t = bheld s"
    "i < MAXFILE * BSIZE \<Longrightarrow> byte_at (bcur t) (addrs ip t) i = f i"
    "bn < MAXFILE \<Longrightarrow> baddr (bcur s) (addrs ip s) bn \<noteq> 0 \<Longrightarrow> baddr (bcur t) (addrs ip t) bn = baddr (bcur s) (addrs ip s) bn"
    "free_blocks t \<subseteq> free_blocks s" "own (bcur s) (addrs ip s) \<subseteq> own (bcur t) (addrs ip t)"
    "own (bcur t) (addrs ip t) \<subseteq> own (bcur s) (addrs ip s) \<union> of_nat ` free_blocks s"
    "b \<notin> map_blocks (sb s) \<union> own (bcur t) (addrs ip t) \<Longrightarrow> bcur t b = bcur s b"
    "addrs ip s ! NDIRECT \<noteq> 0 \<Longrightarrow> addrs ip t ! NDIRECT = addrs ip s ! NDIRECT"
  using assms unfolding rewritten_def by auto

lemma rewritten_trans:
  assumes "rewritten ip f s t" "rewritten ip g t u"
  shows "rewritten ip g s u"
proof -
  obtain as bs where r: "trest t = (trest s)\<lparr>icache := (icache s)[ip := (icache s ! ip)\<lparr>i_addrs := as\<rparr>]\<rparr>"
    "trest u = (trest t)\<lparr>icache := (icache t)[ip := (icache t ! ip)\<lparr>i_addrs := bs\<rparr>]\<rparr>"
    using rewrittenD(2) [OF assms(1)] rewrittenD(2) [OF assms(2)] by blast
  note c = trest_ic [OF r(1)]
  have "ip < length (icache s)" using file_okD(1) [OF rewrittenD(1) [OF assms(1)]] c(2) by simp
  then have tr: "trest u = (trest s)\<lparr>icache := (icache s)[ip := (icache s ! ip)\<lparr>i_addrs := bs\<rparr>]\<rparr>" using r c(2) by simp
  note a = rewrittenD [OF assms(1)] and b = rewrittenD [OF assms(2)]
  show ?thesis
    unfolding rewritten_def
  proof (intro conjI)
    show "\<exists>as. trest u = (trest s)\<lparr>icache := (icache s)[ip := (icache s ! ip)\<lparr>i_addrs := as\<rparr>]\<rparr>" using tr by (rule exI)
    show "\<forall>i < MAXFILE * BSIZE. byte_at (bcur u) (addrs ip u) i = g i" using b(4) by simp
    show "\<forall>bn < MAXFILE. baddr (bcur s) (addrs ip s) bn \<noteq> 0 \<longrightarrow> baddr (bcur u) (addrs ip u) bn = baddr (bcur s) (addrs ip s) bn" using a(5) b(5) by simp
    show "own (bcur u) (addrs ip u) \<subseteq> own (bcur s) (addrs ip s) \<union> of_nat ` free_blocks s" using a(6,8) b(8) by (meson Un_least Un_upper2 image_mono order_trans)
    show "\<forall>x. x \<notin> map_blocks (sb s) \<union> own (bcur u) (addrs ip u) \<longrightarrow> bcur u x = bcur s x"
    proof (intro allI impI)
      fix x assume x: "x \<notin> map_blocks (sb s) \<union> own (bcur u) (addrs ip u)"
      then have "x \<notin> own (bcur t) (addrs ip t)" using b(7) by blast
      then show "bcur u x = bcur s x" using a(9) [of x] b(9) [of x] x c(1) by simp
    qed
  qed (use a(3,6,7,10) b(1,3,6,7,10) in \<open>auto del: subsetI intro: order_trans\<close>)
qed

lemma rewritten_cong:
  assumes "rewritten ip f s t" "\<And>i. i < MAXFILE * BSIZE \<Longrightarrow> f i = g i"
  shows "rewritten ip g s t"
  using assms unfolding rewritten_def by simp

lemma grown_trans:
  assumes "grown ip s t" "grown ip t u"
  shows "grown ip s u"
  using rewritten_cong [OF rewritten_trans [OF assms]] rewrittenD(4) [OF assms(1)] by simp

lemma rewritten_same:
  assumes "rewritten ip f s t" "file_ok ip s"
  shows "sb t = sb s" "disksize t = disksize s" "log_area t = log_area s" "log_size t = log_size s" "length (icache t) = length (icache s)"
    "i_size (icache t ! ip) = i_size (icache s ! ip)" "i_type (icache t ! ip) = i_type (icache s ! ip)" "iblk ip t = iblk ip s"
proof -
  obtain as where r: "trest t = (trest s)\<lparr>icache := (icache s)[ip := (icache s ! ip)\<lparr>i_addrs := as\<rparr>]\<rparr>" using rewrittenD(2) [OF assms(1)] by blast
  show "sb t = sb s" "disksize t = disksize s" "log_area t = log_area s" "log_size t = log_size s" "length (icache t) = length (icache s)"
    "i_size (icache t ! ip) = i_size (icache s ! ip)" "i_type (icache t ! ip) = i_type (icache s ! ip)" "iblk ip t = iblk ip s"
    using trest_ic [OF r] file_okD(1) [OF assms(2)] by simp_all
qed

text \<open>
  Enough blocks and log space to add \<open>n\<close> blocks of data to the file, and the indirect block where it has none.
\<close>

definition ind_need :: "nat \<Rightarrow> 'a fstate_scheme \<Rightarrow> nat" where
  "ind_need ip s = (if addrs ip s ! NDIRECT = 0 then 1 else 0)"

definition budget :: "u32 set \<Rightarrow> nat \<Rightarrow> nat \<Rightarrow> 'a fstate_scheme \<Rightarrow> bool" where
  "budget R n ip s \<longleftrightarrow> map_blocks (sb s) \<subseteq> R \<and> addrs ip s ! NDIRECT \<in> insert 0 (R \<union> bpinned s) \<and> room R (n + ind_need ip s) s \<and>
     n + ind_need ip s \<le> card (free_blocks s)"

lemma card_less_one: "x \<in> A \<Longrightarrow> finite A \<Longrightarrow> Suc n \<le> card A \<Longrightarrow> n \<le> card (A - {x})"
  by (simp add: card_Diff_singleton)

lemma budget_slot:
  assumes "file_ok ip s" "k < NDIRECT" "addrs ip s ! k = 0" "budget R (Suc n) ip s"
  shows "\<exists>t. bmap_slot ip k s = Inr (addrs ip t ! k, t) \<and> addrs ip t ! k \<noteq> 0 \<and> grown ip s t \<and> budget R n ip t \<and> insert (addrs ip t ! k) (bpinned s) \<subseteq> bpinned t \<and>
    bpinned t \<subseteq> insert (addrs ip t ! k) (bpinned s \<union> map_blocks (sb s))"
proof -
  note k = file_okD [OF assms(1)]
  have f: "free_blocks s \<noteq> {}" using assms(4) by (auto simp: budget_def)
  obtain x t where x: "bmap_slot ip k s = Inr (of_nat x, t)" "x \<in> free_blocks s" "grown ip s t" "addrs ip t = (addrs ip s)[k := of_nat x]"
    "room R (n + ind_need ip s) t" "insert (of_nat x) (bpinned s) \<subseteq> bpinned t" "free_blocks t = free_blocks s - {x}"
    "bpinned t \<subseteq> insert (of_nat x) (bpinned s \<union> map_blocks (sb s))"
    using slot_new [OF assms(1) _ assms(3) _ _ f, of R "n + ind_need ip s"] assms(2,4) by (auto simp: budget_def)
  have "ind_need ip t = ind_need ip s" "addrs ip t ! NDIRECT = addrs ip s ! NDIRECT" "addrs ip t ! k = of_nat x" using x(4) assms(2) k(8) by (simp_all add: ind_need_def)
  moreover have "n + ind_need ip s \<le> card (free_blocks t)"
    unfolding x(7) using assms(4) x(2) by (intro card_less_one) (simp_all add: budget_def)
  ultimately have "budget R n ip t" using assms(4) x(5,6) rewritten_same(1) [OF x(3) assms(1)] by (auto simp: budget_def)
  then show ?thesis using x free_fresh(1) [OF k(4) x(2)] k(8) assms(2) by (intro exI [of _ t]) simp
qed

lemma budget_ind_slot:
  assumes "file_ok ip s" "addrs ip s ! NDIRECT = 0" "budget R n ip s"
  shows "\<exists>t. bmap_slot ip NDIRECT s = Inr (addrs ip t ! NDIRECT, t) \<and> addrs ip t ! NDIRECT \<noteq> 0 \<and> grown ip s t \<and> budget R n ip t \<and> bpinned s \<subseteq> bpinned t \<and>
    bcur t (addrs ip t ! NDIRECT) = replicate BSIZE 0 \<and> bpinned t \<subseteq> insert (addrs ip t ! NDIRECT) (bpinned s \<union> map_blocks (sb s))"
proof -
  note k = file_okD [OF assms(1)]
  have f: "free_blocks s \<noteq> {}" using assms(2,3) by (auto simp: budget_def ind_need_def)
  obtain x t where x: "bmap_slot ip NDIRECT s = Inr (of_nat x, t)" "x \<in> free_blocks s" "grown ip s t" "addrs ip t = (addrs ip s)[NDIRECT := of_nat x]"
    "room R n t" "insert (of_nat x) (bpinned s) \<subseteq> bpinned t" "free_blocks t = free_blocks s - {x}" "bcur t (of_nat x) = replicate BSIZE 0"
    "bpinned t \<subseteq> insert (of_nat x) (bpinned s \<union> map_blocks (sb s))"
    using slot_new [OF assms(1) _ assms(2) _ _ f, of R n] assms(2,3) by (auto simp: budget_def ind_need_def)
  have a: "addrs ip t ! NDIRECT = of_nat x" "of_nat x \<noteq> (0 :: u32)" using x(4) k(8) free_fresh(1) [OF k(4) x(2)] by simp_all
  moreover have "n \<le> card (free_blocks t)"
    unfolding x(7) using assms(2,3) x(2) by (intro card_less_one) (simp_all add: budget_def ind_need_def)
  ultimately have "budget R n ip t" using assms(3) x(5,6) rewritten_same(1) [OF x(3) assms(1)] by (simp add: budget_def ind_need_def)
  then show ?thesis using x a by auto
qed

lemma budget_ind:
  assumes "file_ok ip s" "addrs ip s ! NDIRECT \<noteq> 0" "k < NINDIRECT" "get32 (4 * k) (bcur s (addrs ip s ! NDIRECT)) = 0" "budget R (Suc n) ip s"
  shows "\<exists>t. bmap_ind 1 (addrs ip s ! NDIRECT) k s = Inr (baddr (bcur t) (addrs ip t) (NDIRECT + k), t) \<and> baddr (bcur t) (addrs ip t) (NDIRECT + k) \<noteq> 0 \<and>
    grown ip s t \<and> budget R n ip t \<and> insert (baddr (bcur t) (addrs ip t) (NDIRECT + k)) (bpinned s) \<subseteq> bpinned t \<and> addrs ip t = addrs ip s \<and>
    bpinned t \<subseteq> bpinned s \<union> map_blocks (sb s) \<union> ({addrs ip t ! NDIRECT, baddr (bcur t) (addrs ip t) (NDIRECT + k)} - {0})"
proof -
  note k = file_okD [OF assms(1)]
  have f: "free_blocks s \<noteq> {}" using assms(5) by (auto simp: budget_def)
  obtain x t where x: "bmap_ind 1 (addrs ip s ! NDIRECT) k s = Inr (of_nat x, t)" "x \<in> free_blocks s" "grown ip s t" "icache t = icache s"
    "baddr (bcur t) (addrs ip s) (NDIRECT + k) = of_nat x" "room R n t" "insert (of_nat x) (bpinned s) \<subseteq> bpinned t" "free_blocks t = free_blocks s - {x}"
    "bpinned t \<subseteq> {addrs ip s ! NDIRECT, of_nat x} \<union> bpinned s \<union> map_blocks (sb s)"
    using ind_new [OF assms(1) refl assms(2,3,4) _ _ _ f, of R n] assms(2,5) by (auto simp: budget_def ind_need_def)
  have "n \<le> card (free_blocks t)"
    unfolding x(8) using assms(2,5) x(2) by (intro card_less_one) (simp_all add: budget_def ind_need_def)
  then have "budget R n ip t" using assms(2,5) x(4,6,7) rewritten_same(1) [OF x(3) assms(1)] by (auto simp: budget_def ind_need_def)
  then show ?thesis using x free_fresh(1) [OF k(4) x(2)] assms(2) by (intro exI [of _ t]) auto
qed

lemma bmap_new:
  assumes "file_ok ip s" "bn < MAXFILE" "baddr (bcur s) (addrs ip s) bn = 0" "budget R (Suc n) ip s"
  shows "\<exists>t. bmap ip bn s = Inr (baddr (bcur t) (addrs ip t) bn, t) \<and> baddr (bcur t) (addrs ip t) bn \<noteq> 0 \<and> grown ip s t \<and> budget R n ip t \<and>
    insert (baddr (bcur t) (addrs ip t) bn) (bpinned s) \<subseteq> bpinned t \<and>
    bpinned t \<subseteq> bpinned s \<union> map_blocks (sb s) \<union> ({addrs ip t ! NDIRECT, baddr (bcur t) (addrs ip t) bn} - {0})"
proof (cases "bn < NDIRECT")
  case True
  then show ?thesis using budget_slot [OF assms(1) True _ assms(4)] assms(3) by (fastforce simp add: bmap_def baddr_def)
next
  case False
  then have bn: "bn = NDIRECT + (bn - NDIRECT)" "bn - NDIRECT < NINDIRECT" using assms(2) by (simp_all add: MAXFILE_def)
  obtain s1 where 1: "bmap_slot ip NDIRECT s = Inr (addrs ip s1 ! NDIRECT, s1)" "addrs ip s1 ! NDIRECT \<noteq> 0" "grown ip s s1" "budget R (Suc n) ip s1"
    "bpinned s \<subseteq> bpinned s1" "bpinned s1 \<subseteq> insert (addrs ip s1 ! NDIRECT) (bpinned s \<union> map_blocks (sb s))" "get32 (4 * (bn - NDIRECT)) (bcur s1 (addrs ip s1 ! NDIRECT)) = 0"
  proof (cases "addrs ip s ! NDIRECT = 0")
    case True
    then show ?thesis using budget_ind_slot [OF assms(1) True assms(4)] that get32_zeros [OF bn(2)] by auto
  next
    case nz: False
    then show ?thesis using that [of s] assms(3,4) False grown_view(1) [OF assms(1) file_okD(5) [OF assms(1)] refl] by (auto simp add: bmap_slot_def baddr_def)
  qed
  note k = file_okD [OF rewrittenD(1) [OF 1(3)]]
  obtain t where t: "bmap_ind 1 (addrs ip s1 ! NDIRECT) (bn - NDIRECT) s1 = Inr (baddr (bcur t) (addrs ip t) bn, t)" "baddr (bcur t) (addrs ip t) bn \<noteq> 0"
    "grown ip s1 t" "budget R n ip t" "insert (baddr (bcur t) (addrs ip t) bn) (bpinned s1) \<subseteq> bpinned t" "addrs ip t = addrs ip s1"
    "bpinned t \<subseteq> bpinned s1 \<union> map_blocks (sb s1) \<union> ({addrs ip t ! NDIRECT, baddr (bcur t) (addrs ip t) bn} - {0})"
    using budget_ind [OF rewrittenD(1) [OF 1(3)] 1(2) bn(2) 1(7,4)] bn(1) by auto
  then have "bmap ip bn s = Inr (baddr (bcur t) (addrs ip t) bn, t)" using False bn(2) 1(1) k(2) by (simp add: bmap_def)
  moreover have "bpinned t \<subseteq> bpinned s \<union> map_blocks (sb s) \<union> ({addrs ip t ! NDIRECT, baddr (bcur t) (addrs ip t) bn} - {0})"
    using t(6,7) 1(2,6) rewritten_same(1) [OF 1(3) assms(1)] by auto
  ultimately show ?thesis using t(2,4,5) 1(5) grown_trans [OF 1(3) t(3)] by blast
qed

end
