(* ===== verification/Ring_Buf.thy ===== *)
theory Ring_Buf
  imports Xv6_Prelude
begin

text \<open>
  Ring buffers with free-running 32-bit indices, as the console's input and the pipes use them: the entry for index
  \<open>i\<close> is \<open>i % N\<close>, the content lies between a read and a write index whose difference is at most \<open>N\<close>. Because \<open>N\<close> divides
  the range of the indices, nothing special happens when they wrap around. The content as a list; adding,
  removing at the front and taking back at the end.
\<close>

definition slot :: "nat \<Rightarrow> u32 \<Rightarrow> nat" where
  "slot N i = unat i mod N"

definition rb_list :: "nat \<Rightarrow> 'a list \<Rightarrow> u32 \<Rightarrow> u32 \<Rightarrow> 'a list" where
  "rb_list N buf r w = map (\<lambda>i. buf ! slot N (r + of_nat i)) [0..<unat (w - r)]"

lemma rb_length [simp]: "length (rb_list N buf r w) = unat (w - r)"
  by (simp add: rb_list_def)

lemma rb_empty_iff: "rb_list N buf r w = [] \<longleftrightarrow> r = w"
  by (auto simp: rb_list_def unat_eq_0)

lemma rb_same [simp]: "rb_list N buf r r = []"
  by (simp add: rb_list_def)

lemma rb_nth: "i < unat (w - r) \<Longrightarrow> rb_list N buf r w ! i = buf ! slot N (r + of_nat i)"
  by (simp add: rb_list_def)

lemma unat_diff_Suc:
  assumes "unat (w - r) < 4294967295"
  shows "unat (w + 1 - r) = Suc (unat (w - r :: u32))"
proof -
  have e: "w + 1 - r = (w - r) + 1" by simp
  show ?thesis unfolding e using assms unat_add_u32 [of "w - r" 1] by simp
qed

lemma unat_diff_pred:
  assumes "r \<noteq> (w :: u32)"
  shows "unat (w - (r + 1)) = unat (w - r) - 1" "unat (w - 1 - r) = unat (w - r) - 1"
proof -
  have e: "w - (r + 1) = (w - r) - 1" "w - 1 - r = (w - r) - 1" and nz: "w - r \<noteq> 0" using assms by simp_all
  show "unat (w - (r + 1)) = unat (w - r) - 1" "unat (w - 1 - r) = unat (w - r) - 1"
    unfolding e by (rule unat_minus_one [OF nz])+
qed

text \<open>Taking from the front and from the end needs no bound.\<close>

lemma rb_pop:
  assumes "r \<noteq> w"
  shows "rb_list N buf r w = buf ! slot N r # rb_list N buf (r + 1) w"
proof -
  obtain k where k: "unat (w - r) = Suc k" using assms by (metis not0_implies_Suc right_minus_eq unat_eq_0)
  have "[0..<Suc k] = 0 # map Suc [0..<k]" by (simp add: upt_conv_Cons map_Suc_upt del: upt_Suc)
  moreover have "unat (w - (r + 1)) = k" using unat_diff_pred(1) [OF assms] k by simp
  ultimately show ?thesis by (simp add: rb_list_def k add.assoc del: upt_Suc)
qed

lemma rb_unpush:
  assumes "r \<noteq> w"
  shows "rb_list N buf r w = rb_list N buf r (w - 1) @ [buf ! slot N (w - 1)]"
proof -
  obtain k where k: "unat (w - r) = Suc k" using assms by (metis not0_implies_Suc right_minus_eq unat_eq_0)
  moreover have "unat (w - 1 - r) = k" using unat_diff_pred(2) [OF assms] k by simp
  moreover have "r + of_nat k = w - 1"
  proof -
    have "of_nat (Suc k) = w - r" unfolding k [symmetric] by simp
    then show ?thesis by (simp add: algebra_simps)
  qed
  ultimately show ?thesis by (simp add: rb_list_def)
qed

lemma rb_append:
  assumes "unat (m - r) + unat (w - m) < 4294967296"
  shows "rb_list N buf r w = rb_list N buf r m @ rb_list N buf m w"
proof -
  have e: "w - r = (m - r) + (w - m)" by simp
  have u: "unat (w - r) = unat (m - r) + unat (w - m)" unfolding e by (rule unat_add_u32 [OF assms])
  show ?thesis
    by (rule nth_equalityI) (auto simp: u rb_nth nth_append algebra_simps)
qed

locale ring_buffer =
  fixes N :: nat
  assumes N_pos: "0 < N" and N_dvd: "N dvd 4294967296" and N_less: "N < 4294967296"
begin

lemma slot_less: "slot N i < N"
  using N_pos by (simp add: slot_def)

lemma slot_add: "slot N (r + of_nat i) = (slot N r + i) mod N"
proof -
  have "unat (r + of_nat i) = (unat r + i) mod 4294967296" by (simp add: unat_word_ariths unat_of_nat mod_simps)
  then show ?thesis using N_dvd by (simp add: slot_def mod_mod_cancel mod_simps)
qed

text \<open>Adding an element when the buffer is not full overwrites none of the others.\<close>

lemma rb_push:
  assumes "length buf = N" "unat (w - r) < N"
  shows "rb_list N (buf[slot N w := c]) r (w + 1) = rb_list N buf r w @ [c]"
proof -
  have len: "unat (w + 1 - r) = Suc (unat (w - r))" using assms(2) N_less by (intro unat_diff_Suc) linarith
  have w: "slot N w = (slot N r + unat (w - r)) mod N" using slot_add [of r "unat (w - r)"] by simp
  have "slot N w \<noteq> slot N (r + of_nat i)" if i: "i < unat (w - r)" for i
  proof
    assume "slot N w = slot N (r + of_nat i)"
    then have "(slot N r + i) mod N = (slot N r + unat (w - r)) mod N" using slot_add w by simp
    then have "i mod N = unat (w - r) mod N" by (simp add: nat_mod_eq_iff)
    then show False using i assms(2) by simp
  qed
  then show ?thesis
    using len assms(1) slot_less [of w] by (intro nth_equalityI) (auto simp: rb_nth nth_append less_Suc_eq)
qed

end

end
