(* ===== verification/Console.thy ===== *)
theory Console
  imports Inode Ring_Buf Log_Props
begin

text \<open>
  The console (\<^verbatim>\<open>console.c\<close> without \<^verbatim>\<open>cprintf\<close>): the screen with its cursor, the line editing of the input, and reading
  and writing through the device table. The hardware cursor is a natural number, the screen memory a function of the
  position. \<^verbatim>\<open>consoleintr\<close> takes the characters its \<^verbatim>\<open>getc\<close> delivers as a list and also tells whether the
  process listing was requested; \<^verbatim>\<open>consoleread\<close> stops with \<^const>\<open>Blocked\<close> when it has to wait for input.
\<close>

definition BACKSPACE :: u32 where "BACKSPACE = 0x100"
definition INPUT_BUF :: nat where "INPUT_BUF = 128"
definition CONSOLE :: nat where "CONSOLE = 1"

section \<open>Output\<close>

definition cgaputc :: "u32 \<Rightarrow> nat \<Rightarrow> (nat \<Rightarrow> u16) \<Rightarrow> kerr + nat \<times> (nat \<Rightarrow> u16)" where
  "cgaputc c pos crt =
     (let (pos, crt) =
        (if c = 10 then (pos + (80 - pos mod 80), crt)
         else if c = BACKSPACE then (if pos > 0 then pos - 1 else pos, crt)
         else (pos + 1, crt(pos := ucast (c AND 0xFF) OR 0x0700)))
      in if pos > 25 * 80 then Inl (Panic ''pos under/overflow'')
         else
           (let (pos, crt) =
              (if pos div 80 \<ge> 24 then
                 (let crt = (\<lambda>i. if i < 23 * 80 then crt (i + 80) else crt i); pos = pos - 80
                  in (pos, \<lambda>i. if pos \<le> i \<and> i < 24 * 80 then 0 else crt i))
               else (pos, crt))
            in Inr (pos, crt(pos := 32 OR 0x0700))))"

definition consputc :: "u32 \<Rightarrow> 'a fstate_scheme \<Rightarrow> kerr + 'a fstate_scheme" where
  "consputc c s =
     (let s = s\<lparr>uart_out := uart_out s @ (if c = BACKSPACE then [8, 32, 8] else [c])\<rparr>
      in bindE (cgaputc c (cga_pos s) (cga_crt s)) (\<lambda>(pos, crt). Inr (s\<lparr>cga_pos := pos, cga_crt := crt\<rparr>)))"

lemma consputc_fields:
  assumes "consputc c s = Inr t"
  shows "cons_buf t = cons_buf s" "cons_r t = cons_r s" "cons_w t = cons_w s" "cons_e t = cons_e s" "held t = held s"
    "sinv X Y t = sinv X Y s"
proof -
  obtain u p c where t: "t = s\<lparr>uart_out := u, cga_pos := p, cga_crt := c\<rparr>"
    using assms by (auto simp: consputc_def Let_def elim!: bindE_InrE)
  then show "cons_buf t = cons_buf s" "cons_r t = cons_r s" "cons_w t = cons_w s" "cons_e t = cons_e s" "held t = held s" by simp_all
  show "sinv X Y t = sinv X Y s" unfolding t by (rule sinv_cong) simp_all
qed

section \<open>Input\<close>

function kill_line :: "'a fstate_scheme \<Rightarrow> kerr + 'a fstate_scheme" where
  "kill_line s =
     (if cons_e s \<noteq> cons_w s \<and> cons_buf s ! slot INPUT_BUF (cons_e s - 1) \<noteq> 10 then
        bindE (consputc BACKSPACE (s\<lparr>cons_e := cons_e s - 1\<rparr>)) kill_line
      else Inr s)"
  by pat_completeness auto
termination
proof (relation "measure (\<lambda>s. unat (cons_e s - cons_w s))")
  fix s x :: "'a fstate_scheme"
  assume a: "cons_e s \<noteq> cons_w s \<and> cons_buf s ! slot INPUT_BUF (cons_e s - 1) \<noteq> 10"
    "consputc BACKSPACE (s\<lparr>cons_e := cons_e s - 1\<rparr>) = Inr x"
  have "unat (cons_e s - 1 - cons_w s) < unat (cons_e s - cons_w s)"
    using a(1) unat_diff_pred(2) [of "cons_w s" "cons_e s"] by (auto simp: unat_gt_0)
  then show "(x, s) \<in> measure (\<lambda>s. unat (cons_e s - cons_w s))" using consputc_fields [OF a(2)] by simp
qed simp

declare kill_line.simps [simp del]

text \<open>The body of the loop of \<^verbatim>\<open>consoleintr\<close> on one character other than \<^verbatim>\<open>^P\<close>.\<close>

definition cons_char :: "u32 \<Rightarrow> 'a fstate_scheme \<Rightarrow> kerr + 'a fstate_scheme" where
  "cons_char c s =
     (if c = 21 then kill_line s
      else if c = 8 \<or> c = 127 then
        if cons_e s \<noteq> cons_w s then consputc BACKSPACE (s\<lparr>cons_e := cons_e s - 1\<rparr>) else Inr s
      else if c \<noteq> 0 \<and> cons_e s - cons_r s < of_nat INPUT_BUF then
        (let c = (if c = 13 then 10 else c);
             s = s\<lparr>cons_buf := (cons_buf s)[slot INPUT_BUF (cons_e s) := ucast c], cons_e := cons_e s + 1\<rparr>
         in bindE (consputc c s) (\<lambda>s.
              if c = 10 \<or> c = 4 \<or> cons_e s = cons_r s + of_nat INPUT_BUF then wakeup (Some Ch_input) (s\<lparr>cons_w := cons_e s\<rparr>)
              else Inr s))
      else Inr s)"

definition consoleintr :: "u32 list \<Rightarrow> 'a fstate_scheme \<Rightarrow> kerr + bool \<times> 'a fstate_scheme" where
  "consoleintr cs s =
     bindE (acquire L_cons s) (\<lambda>s.
     bindE (foldE (\<lambda>c s. if c = 16 then Inr s else cons_char c s) cs s) (\<lambda>s.
     bindE (release L_cons s) (\<lambda>s. Inr (16 \<in> set cs, s))))"

section \<open>Reading and writing\<close>

text \<open>The loop of \<^verbatim>\<open>consoleread\<close>: the bytes read, or \<open>None\<close> for a killed process.\<close>

fun cons_read_loop :: "nat \<Rightarrow> nat \<Rightarrow> u8 list \<Rightarrow> 'a fstate_scheme \<Rightarrow> kerr + u8 list option \<times> 'a fstate_scheme" where
  "cons_read_loop target 0 dst s = Inr (Some dst, s)"
| "cons_read_loop target (Suc n) dst s =
     (if cons_r s = cons_w s then
        (case myproc s of
           None \<Rightarrow> Inl NullDeref
         | Some p \<Rightarrow> if p_killed (procs s ! p) then Inr (None, s) else Inl (Blocked Ch_input))
      else
        (let c = cons_buf s ! slot INPUT_BUF (cons_r s); s = s\<lparr>cons_r := cons_r s + 1\<rparr> in
         if c = 4 then Inr (Some dst, if Suc n < target then s\<lparr>cons_r := cons_r s - 1\<rparr> else s)
         else if c = 10 then Inr (Some (dst @ [c]), s)
         else cons_read_loop target n (dst @ [c]) s))"

definition consoleread :: "nat \<Rightarrow> nat \<Rightarrow> 'a fstate_scheme \<Rightarrow> kerr + u8 list option \<times> 'a fstate_scheme" where
  "consoleread ip n s =
     bindE (iunlock ip s) (\<lambda>s.
     bindE (acquire L_cons s) (\<lambda>s.
     bindE (cons_read_loop n n [] s) (\<lambda>(r, s).
     bindE (release L_cons s) (\<lambda>s.
     bindE (ilock ip s) (\<lambda>s. Inr (r, s))))))"

definition consolewrite :: "nat \<Rightarrow> u8 list \<Rightarrow> 'a fstate_scheme \<Rightarrow> kerr + nat \<times> 'a fstate_scheme" where
  "consolewrite ip buf s =
     bindE (iunlock ip s) (\<lambda>s.
     bindE (acquire L_cons s) (\<lambda>s.
     bindE (foldE (\<lambda>c. consputc (ucast c)) buf s) (\<lambda>s.
     bindE (release L_cons s) (\<lambda>s.
     bindE (ilock ip s) (\<lambda>s. Inr (length buf, s))))))"

definition consoleinit :: "'a fstate_scheme \<Rightarrow> 'a fstate_scheme" where
  "consoleinit s = s\<lparr>devsw := (devsw s)[CONSOLE := True]\<rparr>"

section \<open>The screen\<close>

lemma cgaputc_ok:
  assumes "pos < 24 * 80"
  shows "\<exists>pos' crt'. cgaputc c pos crt = Inr (pos', crt') \<and> pos' < 24 * 80"
proof -
  let ?p = "if c = 10 then pos + (80 - pos mod 80) else if c = BACKSPACE then pos - 1 else pos + 1"
  obtain q r where "pos = 80 * q + r" "r < 80" by (metis mod_less_divisor mult.commute div_mult_mod_eq zero_less_numeral)
  then have "pos + (80 - pos mod 80) = 80 * Suc q" "q < 24" using assms by simp_all
  then have b: "?p \<le> 24 * 80" using assms by auto
  then have "cgaputc c pos crt = Inl e \<Longrightarrow> False" for e
    by (auto simp: cgaputc_def Let_def split: if_splits prod.splits)
  then obtain pos' crt' where r: "cgaputc c pos crt = Inr (pos', crt')" by (metis sum.exhaust surj_pair)
  have "pos' = (if ?p div 80 \<ge> 24 then ?p - 80 else ?p)"
    using r by (auto simp: cgaputc_def Let_def split: if_splits prod.splits)
  then have "pos' < 24 * 80" using b by (auto split: if_splits)
  with r show ?thesis by blast
qed

lemma consputc_ok:
  assumes "cga_pos s < 24 * 80"
  shows "\<exists>t. consputc c s = Inr t \<and> cga_pos t < 24 * 80"
  using cgaputc_ok [OF assms, of c "cga_crt s"] by (auto simp: consputc_def Let_def)

section \<open>The line discipline\<close>

interpretation input: ring_buffer INPUT_BUF
  by unfold_locales (simp_all add: INPUT_BUF_def)

text \<open>The input as two lists: what a reader may take, and the line that is being edited.\<close>

definition input_ready :: "'a fstate_scheme \<Rightarrow> u8 list" where
  "input_ready s = rb_list INPUT_BUF (cons_buf s) (cons_r s) (cons_w s)"

definition input_edit :: "'a fstate_scheme \<Rightarrow> u8 list" where
  "input_edit s = rb_list INPUT_BUF (cons_buf s) (cons_w s) (cons_e s)"

definition cons_inv :: "'a fstate_scheme \<Rightarrow> bool" where
  "cons_inv s \<longleftrightarrow> length (cons_buf s) = INPUT_BUF \<and> length (input_ready s) + length (input_edit s) \<le> INPUT_BUF \<and>
     10 \<notin> set (input_edit s) \<and> cga_pos s < 24 * 80"

text \<open>What a typed character means.\<close>

definition line_char :: "u32 \<Rightarrow> u8 list \<times> u8 list \<Rightarrow> u8 list \<times> u8 list" where
  "line_char c = (\<lambda>(ready, edit).
     if c = 21 then (ready, [])
     else if c = 8 \<or> c = 127 then (ready, butlast edit)
     else if c = 0 \<or> length ready + length edit = INPUT_BUF then (ready, edit)
     else
       (let b = (if c = 13 then 10 else ucast c); edit = edit @ [b]
        in if b = 10 \<or> b = 4 \<or> length ready + length edit = INPUT_BUF then (ready @ edit, []) else (ready, edit)))"

lemma cons_len:
  assumes "cons_inv s"
  shows "unat (cons_e s - cons_r s) = length (input_ready s) + length (input_edit s)"
    "unat (cons_w s - cons_r s) = length (input_ready s)" "unat (cons_e s - cons_w s) = length (input_edit s)"
proof -
  have e: "cons_e s - cons_r s = (cons_w s - cons_r s) + (cons_e s - cons_w s)" by simp
  show l: "unat (cons_w s - cons_r s) = length (input_ready s)" "unat (cons_e s - cons_w s) = length (input_edit s)"
    by (simp_all add: input_ready_def input_edit_def)
  show "unat (cons_e s - cons_r s) = length (input_ready s) + length (input_edit s)"
    unfolding e using assms l by (subst unat_add_u32) (auto simp: cons_inv_def INPUT_BUF_def)
qed

lemma backspace_ok:
  assumes "cons_inv s" "cons_e s \<noteq> cons_w s"
  shows "\<exists>t. consputc BACKSPACE (s\<lparr>cons_e := cons_e s - 1\<rparr>) = Inr t \<and> cons_inv t \<and> input_ready t = input_ready s \<and>
    input_edit t = butlast (input_edit s) \<and> held t = held s \<and> sinv {} {} t = sinv {} {} s"
proof -
  let ?s = "s\<lparr>cons_e := cons_e s - 1\<rparr>"
  obtain t where t: "consputc BACKSPACE ?s = Inr t" "cga_pos t < 24 * 80"
    using consputc_ok [of ?s BACKSPACE] assms(1) by (auto simp: cons_inv_def)
  note f = consputc_fields [OF t(1)]
  have "input_edit s = input_edit t @ [cons_buf s ! slot INPUT_BUF (cons_e s - 1)]"
    unfolding input_edit_def using rb_unpush [of "cons_w s" "cons_e s"] assms(2) f by simp
  moreover have "input_ready t = input_ready s" using f by (simp add: input_ready_def)
  moreover have "sinv {} {} ?s = sinv {} {} s" by (rule sinv_cong) simp_all
  ultimately show ?thesis using t f assms(1) by (auto simp: cons_inv_def)
qed

lemma kill_line_ok:
  assumes "cons_inv s"
  shows "\<exists>t. kill_line s = Inr t \<and> cons_inv t \<and> input_ready t = input_ready s \<and> input_edit t = [] \<and> held t = held s \<and>
    sinv {} {} t = sinv {} {} s"
  using assms
proof (induction "length (input_edit s)" arbitrary: s rule: less_induct)
  case less
  show ?case
  proof (cases "cons_e s = cons_w s")
    case True
    then show ?thesis using less.prems by (subst kill_line.simps) (simp add: input_edit_def)
  next
    case False
    have ed: "input_edit s = rb_list INPUT_BUF (cons_buf s) (cons_w s) (cons_e s - 1) @ [cons_buf s ! slot INPUT_BUF (cons_e s - 1)]"
      unfolding input_edit_def using rb_unpush [of "cons_w s" "cons_e s"] False by metis
    then have ne: "cons_buf s ! slot INPUT_BUF (cons_e s - 1) \<noteq> 10" using less.prems by (auto simp: cons_inv_def)
    obtain t where t: "consputc BACKSPACE (s\<lparr>cons_e := cons_e s - 1\<rparr>) = Inr t" "cons_inv t" "input_ready t = input_ready s"
      "input_edit t = butlast (input_edit s)" "held t = held s" "sinv {} {} t = sinv {} {} s" using backspace_ok [OF less.prems False] by blast
    have "length (input_edit t) < length (input_edit s)" using t(4) ed by simp
    then obtain u where u: "kill_line t = Inr u" "cons_inv u" "input_ready u = input_ready t" "input_edit u = []" "held u = held t"
      "sinv {} {} u = sinv {} {} t" using less.hyps t(2) by blast
    have "kill_line s = Inr u" using False ne t(1) u(1) by (subst kill_line.simps) simp
    then show ?thesis using u t by simp
  qed
qed

lemma cons_view_quiet:
  assumes "quiet t = quiet s"
  shows "cons_inv t = cons_inv s" "input_ready t = input_ready s" "input_edit t = input_edit s" "cga_pos t = cga_pos s"
proof -
  have f: "cons_buf t = cons_buf s" "cons_r t = cons_r s" "cons_w t = cons_w s" "cons_e t = cons_e s" "cga_pos t = cga_pos s"
    by (subst quiet_frame [OF assms], simp)+
  then show "input_ready t = input_ready s" "input_edit t = input_edit s" by (simp_all add: input_ready_def input_edit_def)
  with f show "cons_inv t = cons_inv s" "cga_pos t = cga_pos s" by (simp_all add: cons_inv_def)
qed

text \<open>A character that is stored.\<close>

lemma store_char_ok:
  assumes "cons_inv s" "length (input_ready s) + length (input_edit s) < INPUT_BUF"
    and "u = s\<lparr>cons_buf := (cons_buf s)[slot INPUT_BUF (cons_e s) := b], cons_e := cons_e s + 1\<rparr>"
  shows "input_ready u = input_ready s" "input_edit u = input_edit s @ [b]" "length (cons_buf u) = INPUT_BUF" "cga_pos u = cga_pos s"
    "unat (cons_e u - cons_r u) = length (input_ready s) + length (input_edit s) + 1" "sinv {} {} u = sinv {} {} s" "held u = held s"
proof -
  have len: "length (cons_buf s) = INPUT_BUF" using assms(1) by (simp add: cons_inv_def)
  show ie: "input_edit u = input_edit s @ [b]"
    unfolding assms(3) input_edit_def using input.rb_push [OF len, of "cons_e s" "cons_w s" b] assms(2) cons_len(3) [OF assms(1)] by simp
  let ?whole = "rb_list INPUT_BUF (cons_buf s) (cons_r s) (cons_e s)"
  have "rb_list INPUT_BUF (cons_buf u) (cons_r s) (cons_e s + 1) = ?whole @ [b]"
    unfolding assms(3) using input.rb_push [OF len, of "cons_e s" "cons_r s" b] assms(2) cons_len(1) [OF assms(1)] by simp
  moreover have "?whole = input_ready s @ input_edit s"
    unfolding input_ready_def input_edit_def
    by (rule rb_append) (use assms(2) in \<open>simp add: cons_len(2,3) [OF assms(1)] INPUT_BUF_def\<close>)
  moreover have "rb_list INPUT_BUF (cons_buf u) (cons_r s) (cons_e s + 1) =
      rb_list INPUT_BUF (cons_buf u) (cons_r s) (cons_w s) @ rb_list INPUT_BUF (cons_buf u) (cons_w s) (cons_e s + 1)"
    by (rule rb_append)
      (use assms(2) unat_diff_Suc [of "cons_e s" "cons_w s"] in \<open>simp add: cons_len(2,3) [OF assms(1)] INPUT_BUF_def\<close>)
  then have "rb_list INPUT_BUF (cons_buf u) (cons_r s) (cons_e s + 1) = input_ready u @ input_edit u"
    by (simp add: input_ready_def input_edit_def assms(3))
  ultimately show "input_ready u = input_ready s" using ie by simp
  show "length (cons_buf u) = INPUT_BUF" "cga_pos u = cga_pos s" "held u = held s" using len assms(3) by simp_all
  show "unat (cons_e u - cons_r u) = length (input_ready s) + length (input_edit s) + 1"
    using unat_diff_Suc [of "cons_e s" "cons_r s"] cons_len(1) [OF assms(1)] assms(2,3) by (simp add: INPUT_BUF_def)
  show "sinv {} {} u = sinv {} {} s" unfolding assms(3) by (rule sinv_cong) simp_all
qed

lemma unat_ucast_u8: "c < 256 \<Longrightarrow> unat (ucast (c :: u32) :: u8) = unat c"
  by (simp add: unsigned_ucast_eq take_bit_nat_eq_self word_less_nat_alt)

text \<open>
  The editing of a line is that of the two lists: a character is added to the line, backspace takes the last one back, the
  kill character empties the line, and the end of a line or a full buffer hands it to the reader.
\<close>

lemma cons_char_ok:
  assumes "cons_inv s" "sinv {} {} s" "L_ptable \<notin> held s" "c < 256"
  shows "\<exists>t. cons_char c s = Inr t \<and> cons_inv t \<and> sinv {} {} t \<and> held t = held s \<and>
    (input_ready t, input_edit t) = line_char c (input_ready s, input_edit s)"
proof -
  note inv = assms(1) [unfolded cons_inv_def]
  consider (kill) "c = 21" | (bs) "c = 8 \<or> c = 127" | (none) "c \<notin> {8, 21, 127}" "c = 0 \<or> length (input_ready s) + length (input_edit s) = INPUT_BUF"
    | (store) "c \<notin> {8, 21, 127}" "c \<noteq> 0" "length (input_ready s) + length (input_edit s) < INPUT_BUF"
    using inv by fastforce
  then show ?thesis
  proof cases
    case kill
    then show ?thesis using kill_line_ok [OF assms(1)] assms(2) by (auto simp: cons_char_def line_char_def)
  next
    case bs
    show ?thesis
    proof (cases "cons_e s = cons_w s")
      case True
      then have "input_edit s = []" by (simp add: input_edit_def)
      then show ?thesis using bs True assms by (auto simp: cons_char_def line_char_def)
    next
      case False
      then show ?thesis using bs backspace_ok [OF assms(1) False] assms(2) by (auto simp: cons_char_def line_char_def)
    qed
  next
    case none
    have "\<not> cons_e s - cons_r s < of_nat INPUT_BUF \<or> c = 0"
      using none(2) cons_len(1) [OF assms(1)] by (auto simp: word_less_nat_alt INPUT_BUF_def)
    then show ?thesis using none assms by (auto simp: cons_char_def line_char_def)
  next
    case store
    let ?c = "if c = 13 then 10 else c"
    let ?u = "s\<lparr>cons_buf := (cons_buf s)[slot INPUT_BUF (cons_e s) := ucast ?c], cons_e := cons_e s + 1\<rparr>"
    note u = store_char_ok [OF assms(1) store(3) refl, of "ucast ?c"]
    obtain v where v: "consputc ?c ?u = Inr v" "cga_pos v < 24 * 80" using consputc_ok [of ?u ?c] u(4) inv by auto
    note f = consputc_fields [OF v(1)]
    have lt: "cons_e s - cons_r s < of_nat INPUT_BUF"
      using store(3) cons_len(1) [OF assms(1)] by (simp add: word_less_nat_alt INPUT_BUF_def)
    have full: "cons_e v = cons_r v + of_nat INPUT_BUF \<longleftrightarrow> length (input_ready s) + length (input_edit s) + 1 = INPUT_BUF"
    proof -
      have "cons_e v = cons_r v + of_nat INPUT_BUF \<longleftrightarrow> cons_e ?u - cons_r ?u = of_nat INPUT_BUF"
        unfolding f by (simp add: diff_eq_eq add.commute)
      also have "\<dots> \<longleftrightarrow> unat (cons_e ?u - cons_r ?u) = INPUT_BUF" by (simp add: word_unat_eq_iff INPUT_BUF_def)
      finally show ?thesis using u(5) by simp
    qed
    have b: "ucast ?c = (10 :: u8) \<longleftrightarrow> ?c = 10" "ucast ?c = (4 :: u8) \<longleftrightarrow> ?c = 4"
      using unat_ucast_u8 [of ?c] assms(4) by (simp_all add: word_unat_eq_iff)
    have vw: "input_ready v = input_ready s" "input_edit v = input_edit s @ [ucast ?c]" "length (cons_buf v) = INPUT_BUF"
      "sinv {} {} v" "held v = held s"
      using u f assms(2) by (simp_all add: input_ready_def input_edit_def)
    show ?thesis
    proof (cases "?c = 10 \<or> ?c = 4 \<or> cons_e v = cons_r v + of_nat INPUT_BUF")
      case True
      let ?w = "v\<lparr>cons_w := cons_e v\<rparr>"
      have "sinv {} {} ?w = sinv {} {} v" by (rule sinv_cong) simp_all
      then obtain t where t: "wakeup (Some Ch_input) ?w = Inr t" "quiet t = quiet ?w" "sinv {} {} t"
        using wakeup_in_proc [of ?w "Some Ch_input"] vw(4,5) assms(3) by auto
      note q = cons_view_quiet [OF t(2)]
      have rdy: "input_ready ?w = input_ready s @ input_edit s @ [ucast ?c]" "input_edit ?w = []"
      proof -
        have "unat (cons_w v - cons_r v) = length (input_ready v)" "unat (cons_e v - cons_w v) = length (input_edit v)"
          by (simp_all add: input_ready_def input_edit_def)
        then have "unat (cons_w v - cons_r v) + unat (cons_e v - cons_w v) < 4294967296"
          unfolding vw(1,2) using store(3) by (simp add: INPUT_BUF_def)
        then show "input_ready ?w = input_ready s @ input_edit s @ [ucast ?c]"
          using rb_append [of "cons_w v" "cons_r v" "cons_e v" INPUT_BUF "cons_buf v"] vw(1,2) by (simp add: input_ready_def input_edit_def)
        show "input_edit ?w = []" by (simp add: input_edit_def)
      qed
      have "cons_char c s = Inr t" using store(1,2) lt v(1) t(1) True by (simp add: cons_char_def Let_def)
      moreover have "cons_inv t" using q(1) rdy vw(3) v(2) store(3) by (simp add: cons_inv_def)
      moreover have "held t = held s" using quietD(1) [OF t(2)] vw(5) by simp
      moreover have "(input_ready t, input_edit t) = line_char c (input_ready s, input_edit s)"
        using q(2,3) rdy store True full b by (auto simp: line_char_def Let_def)
      ultimately show ?thesis using t(3) by blast
    next
      case False
      have "cons_char c s = Inr v" using store(1,2) lt v(1) False by (simp add: cons_char_def Let_def)
      moreover have "cons_inv v" using vw v(2) store(3) inv False b by (auto simp: cons_inv_def)
      moreover have "(input_ready v, input_edit v) = line_char c (input_ready s, input_edit s)"
        using vw store False full b by (auto simp: line_char_def Let_def)
      ultimately show ?thesis using vw(4,5) by blast
    qed
  qed
qed

lemma cons_loop_ok:
  assumes "cons_inv s" "sinv {} {} s" "L_ptable \<notin> held s" "\<forall>c \<in> set cs. c < 256"
  shows "\<exists>t. foldE (\<lambda>c s. if c = 16 then Inr s else cons_char c s) cs s = Inr t \<and> cons_inv t \<and> sinv {} {} t \<and> held t = held s \<and>
    (input_ready t, input_edit t) = fold line_char (filter (\<lambda>c. c \<noteq> 16) cs) (input_ready s, input_edit s)"
  using assms
proof (induction cs arbitrary: s)
  case (Cons c cs)
  show ?case
  proof (cases "c = 16")
    case True
    then show ?thesis using Cons.IH [OF Cons.prems(1-3)] Cons.prems(4) by simp
  next
    case False
    obtain u where u: "cons_char c s = Inr u" "cons_inv u" "sinv {} {} u" "held u = held s"
      "(input_ready u, input_edit u) = line_char c (input_ready s, input_edit s)"
      using cons_char_ok [OF Cons.prems(1-3), of c] Cons.prems(4) by auto
    show ?thesis using Cons.IH [OF u(2,3)] u Cons.prems(3,4) False by simp
  qed
qed simp

lemma cons_held: "cons_inv (s\<lparr>held := h\<rparr>) = cons_inv s" "input_ready (s\<lparr>held := h\<rparr>) = input_ready s" "input_edit (s\<lparr>held := h\<rparr>) = input_edit s"
  by (simp_all add: cons_inv_def input_ready_def input_edit_def)

lemma consoleintr_ok:
  assumes "cons_inv s" "sinv {} {} s" "held s = {}" "\<forall>c \<in> set cs. c < 256"
  shows "\<exists>t. consoleintr cs s = Inr (16 \<in> set cs, t) \<and> cons_inv t \<and> sinv {} {} t \<and> held t = {} \<and>
    (input_ready t, input_edit t) = fold line_char (filter (\<lambda>c. c \<noteq> 16) cs) (input_ready s, input_edit s)"
proof -
  let ?s = "s\<lparr>held := {L_cons}\<rparr>"
  have "sinv {} {} ?s = sinv {} {} s" by (rule sinv_cong) simp_all
  then obtain t where t: "foldE (\<lambda>c s. if c = 16 then Inr s else cons_char c s) cs ?s = Inr t" "cons_inv t" "sinv {} {} t" "held t = {L_cons}"
    "(input_ready t, input_edit t) = fold line_char (filter (\<lambda>c. c \<noteq> 16) cs) (input_ready s, input_edit s)"
    using cons_loop_ok [of ?s cs] assms by (auto simp: cons_held)
  have "sinv {} {} (t\<lparr>held := {}\<rparr>) = sinv {} {} t" by (rule sinv_cong) simp_all
  then show ?thesis using t assms(3) by (simp add: consoleintr_def cons_held)
qed

text \<open>Reading takes the bytes in their order, up to the end of the line.\<close>

lemma cons_read_line:
  assumes "input_ready s = line @ 10 # rest" "10 \<notin> set line" "4 \<notin> set line" "length line < n"
  shows "\<exists>t. cons_read_loop target n dst s = Inr (Some (dst @ line @ [10]), t) \<and> input_ready t = rest"
  using assms
proof (induction line arbitrary: s n dst)
  case Nil
  then obtain k where k: "n = Suc k" by (cases n) auto
  have ne: "cons_r s \<noteq> cons_w s" using Nil(1) by (auto simp: input_ready_def)
  have "cons_buf s ! slot INPUT_BUF (cons_r s) = 10" "rb_list INPUT_BUF (cons_buf s) (cons_r s + 1) (cons_w s) = rest"
    using Nil(1) rb_pop [OF ne, of INPUT_BUF "cons_buf s"] by (simp_all add: input_ready_def)
  then show ?case using k ne by (simp add: Let_def input_ready_def)
next
  case (Cons x line)
  then obtain k where k: "n = Suc k" by (cases n) auto
  have ne: "cons_r s \<noteq> cons_w s" using Cons.prems(1) by (auto simp: input_ready_def)
  let ?s = "s\<lparr>cons_r := cons_r s + 1\<rparr>"
  have x: "cons_buf s ! slot INPUT_BUF (cons_r s) = x" "input_ready ?s = line @ 10 # rest"
    using Cons.prems(1) rb_pop [OF ne, of INPUT_BUF "cons_buf s"] by (simp_all add: input_ready_def)
  then show ?case using Cons.IH [OF x(2), of k "dst @ [x]"] Cons.prems k ne by (simp add: Let_def)
qed

lemma type_line:
  assumes "\<forall>c \<in> set line. c < 256 \<and> c \<notin> {0, 4, 8, 10, 13, 16, 21, 127}" "length line + length edit < INPUT_BUF"
  shows "fold line_char line ([], edit) = ([], edit @ map ucast line)"
  using assms
proof (induction line arbitrary: edit)
  case (Cons c line)
  then have c: "c < 256" "c \<notin> {0, 4, 8, 10, 13, 16, 21, 127}" by auto
  then have "ucast c \<noteq> (10 :: u8)" "ucast c \<noteq> (4 :: u8)" using unat_ucast_u8 [of c] by (auto simp: word_unat_eq_iff)
  then have "line_char c ([], edit) = ([], edit @ [ucast c])" using c Cons.prems(2) by (simp add: line_char_def Let_def)
  then show ?case using Cons.IH [of "edit @ [ucast c]"] Cons.prems by simp
qed simp

section \<open>Properties\<close>

text \<open>An example: an idle console, with a running process.\<close>

definition fs_image :: "pstate \<Rightarrow> u8 list list \<Rightarrow> superblock \<Rightarrow> inode list \<Rightarrow> fstate" where
  "fs_image p dk b ics = lstate.extend (disk_image p dk)
     (fstate.fields b ics (replicate NDEV False) (replicate INPUT_BUF 0) 0 0 0 [] 0 (\<lambda>_. 0))"

lemma fs_image_cons:
  "cons_inv (fs_image p dk b ics)" "input_ready (fs_image p dk b ics) = []" "input_edit (fs_image p dk b ics) = []"
  by (simp_all add: fs_image_def lstate.defs fstate.defs cons_inv_def input_ready_def input_edit_def)

lemma fs_image_proc: "in_proc (fs_image p dk b ics) = in_proc p"
  by (simp add: in_proc_def fs_image_def disk_image_def fstate.defs bstate.defs pstate.defs lstate.defs myproc_def sinv_def table_ok_def
      mlfq_ok_def queue_ok_def qbank_def runnables_def cpu_ok_def)

lemma example_console:
  "\<exists>s :: fstate. cons_inv s \<and> sinv {} {} s \<and> held s = {} \<and> input_ready s = [] \<and> input_edit s = []"
proof -
  obtain p :: pstate and i where "reach sched_init sched_step p" "held p = {}" "myproc p = Some i" using example_running by blast
  then have "in_proc p" using sched_sys.reach_inv by (auto simp: in_proc_def)
  then have "in_proc (fs_image p [] (get_superblock []) [])" by (simp add: fs_image_proc)
  then show ?thesis using fs_image_cons by (intro exI [of _ "fs_image p [] (get_superblock []) []"]) (simp add: in_proc_def)
qed

text \<open>
  C14: The interrupt handler of the console edits lines as intended: the input that is ready and the line being typed
  change as the list operations of \<^const>\<open>line_char\<close> say, through any sequence of characters and any wrap-around
  of the indices, and the screen cursor never leaves the screen.
\<close>

theorem console_edits_lines:
  assumes "cons_inv s" "sinv {} {} s" "held s = {}" "\<forall>c \<in> set cs. c < 256"
  shows "\<exists>t. consoleintr cs s = Inr (16 \<in> set cs, t) \<and> cons_inv t \<and>
    (input_ready t, input_edit t) = fold line_char (filter (\<lambda>c. c \<noteq> 16) cs) (input_ready s, input_edit s)"
  using consoleintr_ok [OF assms] by blast

theorem console_edits_lines_witness:
  "\<exists>(s :: fstate) t. cons_inv s \<and> consoleintr [97, 98, 8, 99] s = Inr (False, t) \<and> input_edit t = [97, 99]"
proof -
  obtain s :: fstate where s: "cons_inv s" "sinv {} {} s" "held s = {}" "input_ready s = []" "input_edit s = []"
    using example_console by blast
  show ?thesis using console_edits_lines [OF s(1-3), of "[97, 98, 8, 99]"] s by (auto simp: line_char_def INPUT_BUF_def)
qed

text \<open>
  C30: A line typed at an idle console and ended with the return key is what the next read gets, and nothing of it is left.
\<close>

theorem typed_line_is_read:
  assumes "cons_inv s" "sinv {} {} s" "held s = {}" "input_ready s = []" "input_edit s = []"
    and "\<forall>c \<in> set line. c < 256 \<and> c \<notin> {0, 4, 8, 10, 13, 16, 21, 127}" "length line < INPUT_BUF" "length line < n"
  shows "\<exists>t u. consoleintr (line @ [13]) s = Inr (False, t) \<and>
    cons_read_loop n n [] t = Inr (Some (map ucast line @ [10]), u) \<and> input_ready u = []"
proof -
  have f: "filter (\<lambda>c. c \<noteq> 16) (line @ [13]) = line @ [13]" using assms(6) by (auto simp: filter_id_conv)
  have l: "fold line_char (line @ [13]) ([], []) = (map ucast line @ [10], [])"
    using type_line [OF assms(6), of "[]"] assms(7) by (simp add: line_char_def Let_def)
  have n16: "16 \<notin> set (line @ [13])" using assms(6) by auto
  obtain t where t: "consoleintr (line @ [13]) s = Inr (False, t)" "input_ready t = map ucast line @ [10]"
    using consoleintr_ok [OF assms(1-3), of "line @ [13]"] assms(4-6) f l n16 by auto
  have "10 \<notin> set (map ucast line :: u8 list)" "4 \<notin> set (map ucast line :: u8 list)"
    using assms(6) unat_ucast_u8 by (auto simp: word_unat_eq_iff)
  then show ?thesis using t cons_read_line [of t "map ucast line" "[]" n n "[]"] assms(8) by auto
qed

theorem typed_line_is_read_witness:
  "\<exists>(s :: fstate) t u. consoleintr [108, 115, 13] s = Inr (False, t) \<and> cons_read_loop 100 100 [] t = Inr (Some [108, 115, 10], u)"
proof -
  obtain s :: fstate where s: "cons_inv s" "sinv {} {} s" "held s = {}" "input_ready s = []" "input_edit s = []"
    using example_console by blast
  show ?thesis using typed_line_is_read [OF s, of "[108, 115]" 100] by (auto simp: INPUT_BUF_def)
qed

end
