(* ===== verification/Inode_Io.thy ===== *)
theory Inode_Io
  imports Console
begin

text \<open>
  Reading and writing the contents of an inode, directories and path names (\<^verbatim>\<open>fs.c\<close> from \<^verbatim>\<open>stati\<close> on). What a routine
  copies into a buffer of its caller is its result, a list of bytes; \<open>None\<close> stands for the result \<^verbatim>\<open>-1\<close>, and for a null
  pointer to an inode. Names and paths are lists of bytes without the null at the end. An offset \<^verbatim>\<open>off\<close> is a natural number
  inside the loops: the tests before them exclude that \<^verbatim>\<open>off + n\<close> wraps.
\<close>

record stat =
  st_type :: u16
  st_dev :: u32
  st_ino :: u32
  st_nlink :: u16
  st_size :: u32

definition stati :: "nat \<Rightarrow> 'a fstate_scheme \<Rightarrow> stat" where
  "stati ip s =
     (let p = icache s ! ip
      in \<lparr>st_type = i_type p, st_dev = i_dev p, st_ino = i_inum p, st_nlink = i_nlink p, st_size = i_size p\<rparr>)"

text \<open>The device of an inode, where its number is in range and the device is there.\<close>

definition has_dev :: "nat \<Rightarrow> 'a fstate_scheme \<Rightarrow> bool" where
  "has_dev ip s \<longleftrightarrow> (let m = sint (i_major (icache s ! ip)) in \<not> (m < 0 \<or> m \<ge> int NDEV \<or> \<not> devsw s ! nat m))"

section \<open>Reading\<close>

function read_loop :: "nat \<Rightarrow> nat \<Rightarrow> nat \<Rightarrow> 'a fstate_scheme \<Rightarrow> kerr + u8 list \<times> 'a fstate_scheme" where
  "read_loop ip off n s =
     (if n = 0 then Inr ([], s)
      else
        bindE (bmap ip (off div BSIZE) s) (\<lambda>(a, s).
        bindE (bread (i_dev (icache s ! ip)) a s) (\<lambda>(bp, s).
        let m = min n (BSIZE - off mod BSIZE); x = part (off mod BSIZE) m (b_data (bufs s ! bp)) in
        bindE (brelse bp s) (\<lambda>s.
        bindE (read_loop ip (off + m) (n - m) s) (\<lambda>(xs, s). Inr (x @ xs, s))))))"
  by pat_completeness auto
termination
  by (relation "measure (\<lambda>(ip, off, n, s). n)") (auto simp: BSIZE_def)

declare read_loop.simps [simp del]

definition readi :: "nat \<Rightarrow> u32 \<Rightarrow> u32 \<Rightarrow> 'a fstate_scheme \<Rightarrow> kerr + u8 list option \<times> 'a fstate_scheme" where
  "readi ip off n s =
     (let p = icache s ! ip in
      if i_type p = T_DEV then if \<not> has_dev ip s then Inr (None, s) else consoleread ip (nat (sint n)) s
      else if off > i_size p \<or> off + n < off then Inr (None, s)
      else
        (let n = (if off + n > i_size p then i_size p - off else n)
         in bindE (read_loop ip (unat off) (unat n) s) (\<lambda>(xs, s). Inr (Some xs, s))))"

section \<open>Writing\<close>

function write_loop :: "nat \<Rightarrow> nat \<Rightarrow> u8 list \<Rightarrow> 'a fstate_scheme \<Rightarrow> kerr + 'a fstate_scheme" where
  "write_loop ip off src s =
     (if src = [] then Inr s
      else
        bindE (bmap ip (off div BSIZE) s) (\<lambda>(a, s).
        bindE (bread (i_dev (icache s ! ip)) a s) (\<lambda>(bp, s).
        let m = min (length src) (BSIZE - off mod BSIZE) in
        bindE (log_write bp (put_data bp (patch (off mod BSIZE) (take m src) (b_data (bufs s ! bp))) s)) (\<lambda>s.
        bindE (brelse bp s)
        (write_loop ip (off + m) (drop m src))))))"
  by pat_completeness auto
termination
  by (relation "measure (\<lambda>(ip, off, src, s). length src)") (auto simp: BSIZE_def)

declare write_loop.simps [simp del]

definition writei :: "nat \<Rightarrow> u8 list \<Rightarrow> u32 \<Rightarrow> 'a fstate_scheme \<Rightarrow> kerr + int \<times> 'a fstate_scheme" where
  "writei ip src off s =
     (let p = icache s ! ip; n = of_nat (length src) :: u32 in
      if i_type p = T_DEV then
        if \<not> has_dev ip s then Inr (-1, s) else bindE (consolewrite ip src s) (\<lambda>(k, s). Inr (int k, s))
      else if off > i_size p \<or> off + n < off then Inr (-1, s)
      else if off + n > of_nat (MAXFILE * BSIZE) then Inr (-1, s)
      else
        bindE (write_loop ip (unat off) src s) (\<lambda>s.
          if n > 0 \<and> off + n > i_size (icache s ! ip) then
            bindE (iupdate ip (upd_inode ip (\<lambda>p. p\<lparr>i_size := off + n\<rparr>) s)) (\<lambda>s. Inr (int (length src), s))
          else Inr (int (length src), s)))"

section \<open>Directories\<close>

definition namecmp :: "u8 list \<Rightarrow> u8 list \<Rightarrow> int" where
  "namecmp s t = strncmp_list DIRSIZ s t"

text \<open>
  The loop over the entries of a directory: the first one that satisfies \<open>P\<close>, with its offset. \<open>msg\<close> is the message when
  an entry cannot be read.
\<close>

fun dir_scan :: "string \<Rightarrow> (dirent \<Rightarrow> bool) \<Rightarrow> nat \<Rightarrow> nat list \<Rightarrow> 'a fstate_scheme \<Rightarrow> kerr + (nat \<times> dirent) option \<times> 'a fstate_scheme" where
  "dir_scan msg P dp [] s = Inr (None, s)"
| "dir_scan msg P dp (off # offs) s =
     bindE (readi dp (of_nat off) (of_nat DIRENT_SIZE) s) (\<lambda>(r, s).
       case r of
         None \<Rightarrow> Inl (Panic msg)
       | Some xs \<Rightarrow>
           if length xs \<noteq> DIRENT_SIZE then Inl (Panic msg)
           else if P (get_dirent xs) then Inr (Some (off, get_dirent xs), s) else dir_scan msg P dp offs s)"

text \<open>The offsets \<^verbatim>\<open>for(off = 0; off < size; off += sizeof(de))\<close>.\<close>

definition dir_offs :: "u32 \<Rightarrow> nat list" where
  "dir_offs sz = map (\<lambda>k. DIRENT_SIZE * k) [0..<(unat sz + DIRENT_SIZE - 1) div DIRENT_SIZE]"

definition dirlookup :: "nat \<Rightarrow> u8 list \<Rightarrow> 'a fstate_scheme \<Rightarrow> kerr + (nat \<times> nat) option \<times> 'a fstate_scheme" where
  "dirlookup dp name s =
     (let p = icache s ! dp in
      if i_type p \<noteq> T_DIR then Inl (Panic ''dirlookup not DIR'')
      else
        bindE (dir_scan ''dirlookup read'' (\<lambda>de. de_inum de \<noteq> 0 \<and> namecmp name (de_name de) = 0) dp (dir_offs (i_size p)) s) (\<lambda>(r, s).
          case r of
            None \<Rightarrow> Inr (None, s)
          | Some (off, de) \<Rightarrow> bindE (iget (i_dev p) (ucast (de_inum de)) s) (\<lambda>(ip, s). Inr (Some (ip, off), s))))"

text \<open>\<^verbatim>\<open>strncpy\<close> into the field \<^verbatim>\<open>name\<close>.\<close>

definition pad_name :: "u8 list \<Rightarrow> u8 list" where
  "pad_name name = take DIRSIZ (name @ replicate DIRSIZ 0)"

definition dirlink :: "nat \<Rightarrow> u8 list \<Rightarrow> u32 \<Rightarrow> 'a fstate_scheme \<Rightarrow> kerr + int \<times> 'a fstate_scheme" where
  "dirlink dp name inum s =
     bindE (dirlookup dp name s) (\<lambda>(r, s).
       case r of
         Some (ip, _) \<Rightarrow> bindE (iput ip s) (\<lambda>s. Inr (-1, s))
       | None \<Rightarrow>
           (let offs = dir_offs (i_size (icache s ! dp)) in
            bindE (dir_scan ''dirlink read'' (\<lambda>de. de_inum de = 0) dp offs s) (\<lambda>(r, s).
            let off = (case r of Some (off, _) \<Rightarrow> off | None \<Rightarrow> DIRENT_SIZE * length offs) in
            bindE (writei dp (put_dirent \<lparr>de_inum = ucast inum, de_name = pad_name name\<rparr>) (of_nat off) s) (\<lambda>(n, s).
              if n \<noteq> int DIRENT_SIZE then Inl (Panic ''dirlink'') else Inr (0, s)))))"

section \<open>Paths\<close>

definition slash :: "u8 \<Rightarrow> bool" where "slash c \<longleftrightarrow> c = 47"

definition skipelem :: "u8 list \<Rightarrow> (u8 list \<times> u8 list) option" where
  "skipelem pth =
     (case dropWhile slash pth of
        [] \<Rightarrow> None
      | s \<Rightarrow> Some (take DIRSIZ (takeWhile (Not \<circ> slash) s), dropWhile slash (dropWhile (Not \<circ> slash) s)))"

lemma skipelem_shorter: "skipelem pth = Some (name, rest) \<Longrightarrow> length rest < length pth"
proof -
  assume a: "skipelem pth = Some (name, rest)"
  then obtain c s where s: "dropWhile slash pth = c # s" by (auto simp: skipelem_def split: list.splits)
  then have "\<not> slash c" by (metis dropWhile_eq_Cons_conv)
  with a s have "rest = dropWhile slash (dropWhile (Not \<circ> slash) s)" by (auto simp: skipelem_def)
  then have "length rest \<le> length s" by (meson length_dropWhile_le le_trans)
  moreover have "Suc (length s) \<le> length pth" using length_dropWhile_le [of slash pth] s by simp
  ultimately show ?thesis by simp
qed

text \<open>
  The loop of \<^verbatim>\<open>namex\<close> from the inode \<open>ip\<close>: the inode, with the last element of the path when the parent is asked for.
  \<open>name\<close> is what the buffer of the caller holds.
\<close>

function namex_loop :: "bool \<Rightarrow> u8 list \<Rightarrow> nat \<Rightarrow> u8 list \<Rightarrow> 'a fstate_scheme \<Rightarrow> kerr + (nat \<times> u8 list) option \<times> 'a fstate_scheme" where
  "namex_loop par pth ip name s =
     (case skipelem pth of
        None \<Rightarrow> if par then bindE (iput ip s) (\<lambda>s. Inr (None, s)) else Inr (Some (ip, name), s)
      | Some (name, pth) \<Rightarrow>
          bindE (ilock ip s) (\<lambda>s.
            if i_type (icache s ! ip) \<noteq> T_DIR then bindE (iunlockput ip s) (\<lambda>s. Inr (None, s))
            else if par \<and> pth = [] then bindE (iunlock ip s) (\<lambda>s. Inr (Some (ip, name), s))
            else
              bindE (dirlookup ip name s) (\<lambda>(r, s).
                case r of
                  None \<Rightarrow> bindE (iunlockput ip s) (\<lambda>s. Inr (None, s))
                | Some (next, _) \<Rightarrow> bindE (iunlockput ip s) (namex_loop par pth next name))))"
  by pat_completeness auto
termination
  by (relation "measure (\<lambda>(par, pth, ip, name, s). length pth)") (auto dest: skipelem_shorter)

declare namex_loop.simps [simp del]

definition namex :: "u8 list \<Rightarrow> bool \<Rightarrow> 'a fstate_scheme \<Rightarrow> kerr + (nat \<times> u8 list) option \<times> 'a fstate_scheme" where
  "namex pth par s =
     bindE (if pth \<noteq> [] \<and> slash (hd pth) then iget ROOTDEV ROOTINO s
            else (case myproc s of
                    None \<Rightarrow> Inl NullDeref
                  | Some p \<Rightarrow> (case p_cwd (procs s ! p) of None \<Rightarrow> Inl NullDeref | Some d \<Rightarrow> idup d s)))
       (\<lambda>(ip, s). namex_loop par pth ip [] s)"

definition namei :: "u8 list \<Rightarrow> 'a fstate_scheme \<Rightarrow> kerr + nat option \<times> 'a fstate_scheme" where
  "namei pth s = bindE (namex pth False s) (\<lambda>(r, s). Inr (map_option fst r, s))"

definition nameiparent :: "u8 list \<Rightarrow> 'a fstate_scheme \<Rightarrow> kerr + (nat \<times> u8 list) option \<times> 'a fstate_scheme" where
  "nameiparent pth s = namex pth True s"

end
