(* ===== verification/File_Data.thy ===== *)
theory File_Data
  imports File_Map Inode_Io
begin

text \<open>
  The contents of a file as a list of bytes, which \<^verbatim>\<open>readi\<close> reads a part of and \<^verbatim>\<open>writei\<close> writes a part of. In the disk blocks the bytes are
  spread over the blocks of the file, which may have to be allocated.
\<close>

section \<open>Pieces of a block\<close>

lemma in_block:
  assumes "i mod BSIZE + k < BSIZE"
  shows "(i + k) div BSIZE = i div BSIZE" "(i + k) mod BSIZE = i mod BSIZE + k"
proof -
  have z: "(q * BSIZE + r) div BSIZE = q" "(q * BSIZE + r) mod BSIZE = r" if "r < BSIZE" for q r using that by simp_all
  have e: "i + k = i div BSIZE * BSIZE + (i mod BSIZE + k)" by simp
  show "(i + k) div BSIZE = i div BSIZE" "(i + k) mod BSIZE = i mod BSIZE + k" unfolding e by (rule z(1) [OF assms], rule z(2) [OF assms])
qed

lemma BSIZE_pos: "0 < BSIZE"
  by (simp add: BSIZE_def)

lemma piece_of_block:
  assumes "baddr cur as (off div BSIZE) \<noteq> 0" "length (cur (baddr cur as (off div BSIZE))) = BSIZE" "off mod BSIZE + m \<le> BSIZE"
  shows "part (off mod BSIZE) m (cur (baddr cur as (off div BSIZE))) = map (byte_at cur as) [off..<off + m]"
proof (rule nth_equalityI)
  fix k assume "k < length (part (off mod BSIZE) m (cur (baddr cur as (off div BSIZE))))"
  then have "k < m" using assms(2,3) by (simp add: part_def)
  then show "part (off mod BSIZE) m (cur (baddr cur as (off div BSIZE))) ! k = map (byte_at cur as) [off..<off + m] ! k"
    using assms in_block [of off k] by (simp add: part_def byte_at_def)
qed (use assms in \<open>simp add: part_def\<close>)

lemma block_below: "bn < MAXFILE \<Longrightarrow> bn * BSIZE + BSIZE \<le> MAXFILE * BSIZE"
  using mult_le_mono1 [of "Suc bn" MAXFILE BSIZE] by simp

lemma loop_step:
  assumes "0 < n" "off + n \<le> MAXFILE * BSIZE"
  defines "m \<equiv> min n (BSIZE - off mod BSIZE)"
  shows "0 < m" "m \<le> n" "off mod BSIZE + m \<le> BSIZE" "off div BSIZE < MAXFILE"
proof -
  have "off mod BSIZE < BSIZE" by (simp add: BSIZE_def)
  then show "0 < m" "m \<le> n" "off mod BSIZE + m \<le> BSIZE" using assms(1) by (simp_all add: m_def)
  show "off div BSIZE < MAXFILE" using assms(1,2) by (simp add: less_mult_imp_div_less)
qed

section \<open>Reading\<close>

definition no_hole :: "nat \<Rightarrow> nat \<Rightarrow> (u32 \<Rightarrow> u8 list) \<Rightarrow> u32 list \<Rightarrow> bool" where
  "no_hole i j cur as \<longleftrightarrow> (\<forall>k. i \<le> k \<longrightarrow> k < j \<longrightarrow> baddr cur as (k div BSIZE) \<noteq> 0)"

lemma read_loop_ok:
  assumes "file_ok ip s" "room R N s" "off + n \<le> MAXFILE * BSIZE" "no_hole off (off + n) (bcur s) (addrs ip s)"
  shows "\<exists>t. read_loop ip off n s = Inr (map (byte_at (bcur s) (addrs ip s)) [off..<off + n], t) \<and> tx_inv t \<and> tx_view t = tx_view s"
  using assms
proof (induction n arbitrary: off s rule: less_induct)
  case (less n)
  show ?case
  proof (cases "n = 0")
    case True
    then show ?thesis using file_okD(5) [OF less.prems(1)] by (simp add: read_loop.simps)
  next
    case False
    define m where "m = min n (BSIZE - off mod BSIZE)"
    note st = loop_step [of n off, folded m_def, OF _ less.prems(3)]
    let ?a = "baddr (bcur s) (addrs ip s) (off div BSIZE)"
    have nz: "?a \<noteq> 0" using less.prems(4) False by (simp add: no_hole_def)
    obtain s1 where 1: "bmap ip (off div BSIZE) s = Inr (?a, s1)" "tx_inv s1" "tx_view s1 = tx_view s"
      using bmap_mapped [OF less.prems(1) st(4) nz less.prems(2)] False by auto
    note k = file_okD [OF grown_view(2) [OF less.prems(1) 1(2,3)]] and v = viewD [OF 1(3), simplified]
    have o: "?a \<in> own (bcur s) (addrs ip s)" using baddr_own [OF st(4) nz] False by simp
    have "?a \<notin> bheld s1" "?a < disksize s1" using file_okD(7,10) [OF less.prems(1)] o v(2) trest_fsD(3) [OF v(4)] by auto
    then obtain bp s2 t where t: "bread 1 ?a s1 = Inr (bp, s2)" "b_data (bufs s2 ! bp) = bcur s ?a" "brelse bp s2 = Inr t" "tx_inv t" "tx_view t = tx_view s"
      using view_room [OF 1(2), of ?a R N] room_view [OF 1(3)] less.prems(2) v(1) 1(3) by auto
    have ft: "file_ok ip t" using grown_view(2) [OF less.prems(1) t(4,5)] .
    note w = viewD [OF t(5), simplified]
    obtain u where u: "read_loop ip (off + m) (n - m) t = Inr (map (byte_at (bcur s) (addrs ip s)) [off + m..<off + m + (n - m)], u)" "tx_inv u" "tx_view u = tx_view t"
      using less.IH [of "n - m" t "off + m"] ft room_view [OF t(5)] st(1,2) less.prems(2-4) False w(1) trest_fsD(2) [OF w(4)]
      by (auto simp: no_hole_def)
    have "read_loop ip off n s = Inr (part (off mod BSIZE) m (bcur s ?a) @ map (byte_at (bcur s) (addrs ip s)) [off + m..<off + m + (n - m)], u)"
      using False 1(1) k(2) t(1-3) u(1) unfolding m_def by (subst read_loop.simps) (simp add: Let_def)
    moreover have "part (off mod BSIZE) m (bcur s ?a) = map (byte_at (bcur s) (addrs ip s)) [off..<off + m]"
      using piece_of_block [OF nz _ st(3)] file_okD(14) [OF less.prems(1) o] False by simp
    moreover have "[off..<off + m] @ [off + m..<off + m + (n - m)] = [off..<off + n]"
      using st(2) False upt_add_eq_append [of off "off + m" "n - m"] by simp
    ultimately show ?thesis using u(2,3) t(5) by (simp flip: map_append)
  qed
qed

section \<open>Writing\<close>

lemma write_block:
  assumes "file_ok ip s" "bn < MAXFILE" "baddr (bcur s) (addrs ip s) bn = a" "a \<noteq> 0" "tx_inv t" "tx_view t = t_write a d (tx_view s)"
  shows "rewritten ip (\<lambda>i. if i div BSIZE = bn then d ! (i mod BSIZE) else byte_at (bcur s) (addrs ip s) i) s t"
    "baddr (bcur t) (addrs ip t) = baddr (bcur s) (addrs ip s)" "free_blocks t = free_blocks s" "addrs ip t = addrs ip s"
proof -
  note k = file_okD [OF assms(1)] and v = viewD [OF assms(6), simplified]
  note f = trest_fsD [OF v(4)]
  have o: "a \<in> own (bcur s) (addrs ip s)" using baddr_own [OF assms(2)] assms(3,4) by metis
  have ai: "addrs ip s ! NDIRECT \<noteq> a" using k(3) assms(2-4) by (auto simp: tree_def)
  then have c: "bcur t (addrs ip s ! NDIRECT) = bcur s (addrs ip s ! NDIRECT)" by (simp add: v(1))
  note bc = baddr_cong [where cur' = "bcur t" and cur = "bcur s", OF c] and oc = own_cong [where cur' = "bcur t" and cur = "bcur s", OF c]
  show "baddr (bcur t) (addrs ip t) = baddr (bcur s) (addrs ip s)" "addrs ip t = addrs ip s" using bc by (simp_all add: f(2))
  have m: "map_inv (insert (iblk ip s) (own (bcur s) (addrs ip s))) t" "free_blocks t = free_blocks s"
    using map_inv_write [OF k(4) assms(5,6) k(12) [OF o]] by blast+
  show "free_blocks t = free_blocks s" by (fact m(2))
  have ft: "file_ok ip t" using assms(1) m(1) oc by (simp add: file_ok_def f v(2))
  have "byte_at (bcur t) (addrs ip t) i = (if i div BSIZE = bn then d ! (i mod BSIZE) else byte_at (bcur s) (addrs ip s) i)" if "i < MAXFILE * BSIZE" for i
  proof -
    have "i div BSIZE < MAXFILE" using that by (simp add: less_mult_imp_div_less)
    then have "baddr (bcur s) (addrs ip s) (i div BSIZE) = a \<longleftrightarrow> i div BSIZE = bn" using k(3) assms(2-4) unfolding tree_def by metis
    then show ?thesis using assms(4) bc by (auto simp: byte_at_def f(2) v(1) Let_def)
  qed
  then show "rewritten ip (\<lambda>i. if i div BSIZE = bn then d ! (i mod BSIZE) else byte_at (bcur s) (addrs ip s) i) s t"
    unfolding rewritten_def using ft v m(2) bc oc o trest_same_addrs [of s ip] by (intro conjI exI [of _ "addrs ip s"]) (simp_all add: f(2) image_def)
qed

lemma budget_write:
  assumes "tx_view t = t_write a d (tx_view s)" "free_blocks t = free_blocks s" "budget R (Suc n) ip s \<or> budget R n ip s \<and> a \<in> bpinned s"
  shows "budget R n ip t"
proof -
  note v = viewD [OF assms(1), simplified]
  note f = trest_fsD [OF v(4)]
  have i: "ind_need ip t = ind_need ip s" by (simp add: ind_need_def f(2))
  have "room R (n + ind_need ip s) t"
    using assms(3)
  proof
    assume "budget R (Suc n) ip s"
    then show ?thesis using room_write_new [OF assms(1)] by (simp add: budget_def)
  next
    assume a: "budget R n ip s \<and> a \<in> bpinned s"
    then have "bpinned t = bpinned s" using v(3) by auto
    then show ?thesis using room_shrink [of R _ s t] a v(2,4) by (simp add: budget_def)
  qed
  then show ?thesis using assms(2,3) v(3) by (auto simp: budget_def f i)
qed

lemma budget_view:
  assumes "file_ok ip s" "tx_inv t" "tx_view t = tx_view s" "budget R n ip s"
  shows "budget R n ip t"
proof -
  note v = viewD [OF assms(3), simplified]
  note f = trest_fsD [OF v(4)]
  have "free_blocks t = free_blocks s" by (simp add: free_blocks_def f v(1))
  then show ?thesis using assms(4) room_view [OF assms(3)] by (simp add: budget_def ind_need_def f v)
qed

lemma bmap_ok:
  assumes "file_ok ip s" "bn < MAXFILE" "budget R (Suc n) ip s"
  shows "\<exists>t. bmap ip bn s = Inr (baddr (bcur t) (addrs ip t) bn, t) \<and> baddr (bcur t) (addrs ip t) bn \<noteq> 0 \<and> grown ip s t \<and>
    (budget R (Suc n) ip t \<or> budget R n ip t \<and> baddr (bcur t) (addrs ip t) bn \<in> bpinned t) \<and>
    (baddr (bcur s) (addrs ip s) bn \<noteq> 0 \<longrightarrow> icache t = icache s) \<and>
    bpinned t \<subseteq> bpinned s \<union> map_blocks (sb s) \<union> ({addrs ip t ! NDIRECT, baddr (bcur t) (addrs ip t) bn} - {0})"
proof (cases "baddr (bcur s) (addrs ip s) bn = 0")
  case True
  then show ?thesis using bmap_new [OF assms(1,2) True assms(3)] by blast
next
  case False
  have "room R (Suc n + ind_need ip s) s" using assms(3) by (simp add: budget_def)
  then obtain t where t: "bmap ip bn s = Inr (baddr (bcur s) (addrs ip s) bn, t)" "tx_inv t" "tx_view t = tx_view s"
    using bmap_mapped [OF assms(1,2) False] by blast
  note v = viewD [OF t(3), simplified]
  have "baddr (bcur t) (addrs ip t) bn = baddr (bcur s) (addrs ip s) bn" "bpinned t = bpinned s" using trest_fsD(2) [OF v(4)] v by simp_all
  then show ?thesis
    using t(1) False grown_view(1) [OF assms(1) t(2,3)] budget_view [OF assms(1) t(2,3) assms(3)] trest_fsD(2) [OF v(4)] by (intro exI [of _ t]) auto
qed

lemma room_less: "room R m s \<Longrightarrow> n \<le> m \<Longrightarrow> room R n s"
  by (auto simp: room_def)

lemma write_step:
  assumes "file_ok ip s" "bn < MAXFILE" "budget R (Suc n) ip s" "\<And>x. length x = BSIZE \<Longrightarrow> length (g x) = BSIZE"
  shows "\<exists>a s1 bp s2 s3 t. bmap ip bn s = Inr (a, s1) \<and> bread (i_dev (icache s1 ! ip)) a s1 = Inr (bp, s2) \<and>
    log_write bp (put_data bp (g (b_data (bufs s2 ! bp))) s2) = Inr s3 \<and> brelse bp s3 = Inr t \<and> budget R n ip t \<and> a \<noteq> 0 \<and> baddr (bcur t) (addrs ip t) bn = a \<and>
    rewritten ip (\<lambda>i. if i div BSIZE = bn then g (map (byte_at (bcur s) (addrs ip s)) [bn * BSIZE..<bn * BSIZE + BSIZE]) ! (i mod BSIZE) else byte_at (bcur s) (addrs ip s) i) s t \<and>
    bpinned t \<subseteq> bpinned s \<union> map_blocks (sb s) \<union> ({addrs ip t ! NDIRECT, a} - {0}) \<and> (baddr (bcur s) (addrs ip s) bn \<noteq> 0 \<longrightarrow> icache t = icache s)"
proof -
  obtain s1 where 1: "bmap ip bn s = Inr (baddr (bcur s1) (addrs ip s1) bn, s1)" "baddr (bcur s1) (addrs ip s1) bn \<noteq> 0" "grown ip s s1"
    "budget R (Suc n) ip s1 \<or> budget R n ip s1 \<and> baddr (bcur s1) (addrs ip s1) bn \<in> bpinned s1"
    "bpinned s1 \<subseteq> bpinned s \<union> map_blocks (sb s) \<union> ({addrs ip s1 ! NDIRECT, baddr (bcur s1) (addrs ip s1) bn} - {0})"
    "baddr (bcur s) (addrs ip s) bn \<noteq> 0 \<longrightarrow> icache s1 = icache s"
    using bmap_ok [OF assms(1-3)] by blast
  define a where "a = baddr (bcur s1) (addrs ip s1) bn"
  note k = file_okD [OF rewrittenD(1) [OF 1(3)]]
  have o: "a \<in> own (bcur s1) (addrs ip s1)" using baddr_own [OF assms(2)] 1(2) by (simp add: a_def)
  have "room R n s1" using 1(4) by (auto simp: budget_def elim: room_less)
  then obtain bp s2 s3 t where t: "bread 1 a s1 = Inr (bp, s2)" "b_data (bufs s2 ! bp) = bcur s1 a" "log_write bp (put_data bp (g (bcur s1 a)) s2) = Inr s3" "brelse bp s3 = Inr t"
    "tx_inv t" "tx_view t = t_write a (g (bcur s1 a)) (tx_view s1)"
    using edit_room [OF k(5) k(10) [OF o] _ k(11) [OF o], of R n g] k(7) o assms(4) [OF k(14) [OF o]] by blast
  note w = write_block [OF rewrittenD(1) [OF 1(3)] assms(2) a_def [symmetric] _ t(5,6)]
  have b: "budget R n ip t" using budget_write [OF t(6) w(3)] 1(2,4) by (simp add: a_def)
  let ?o = "map (byte_at (bcur s) (addrs ip s)) [bn * BSIZE..<bn * BSIZE + BSIZE]"
  have "bcur s1 a = map (byte_at (bcur s1) (addrs ip s1)) [bn * BSIZE..<bn * BSIZE + BSIZE]"
    using piece_of_block [of "bcur s1" "addrs ip s1" "bn * BSIZE" BSIZE] 1(2) k(14) [OF o] BSIZE_pos by (simp add: a_def part_def)
  also have "\<dots> = ?o"
    using rewrittenD(4) [OF 1(3)] assms(2) block_below [OF assms(2)] by (intro map_cong) auto
  finally have "bcur s1 a = ?o" .
  then have "rewritten ip (\<lambda>i. if i div BSIZE = bn then g ?o ! (i mod BSIZE) else byte_at (bcur s) (addrs ip s) i) s t"
    using rewritten_cong [OF rewritten_trans [OF 1(3) w(1)]] 1(2) rewrittenD(4) [OF 1(3)] by (simp add: a_def)
  moreover have "bpinned t \<subseteq> bpinned s \<union> map_blocks (sb s) \<union> ({addrs ip t ! NDIRECT, a} - {0})"
    using 1(5) viewD(3) [OF t(6)] w(4) 1(2) by (auto simp: a_def)
  moreover have "baddr (bcur t) (addrs ip t) bn = a" using w(2) 1(2) by (simp add: a_def)
  moreover have "baddr (bcur s) (addrs ip s) bn \<noteq> 0 \<longrightarrow> icache t = icache s" using 1(6) trest_fsD(2) [OF viewD(4) [OF t(6), simplified]] by simp
  ultimately show ?thesis using 1(1,2) t(1-4) b k(2) unfolding a_def by (intro exI conjI) (assumption | simp)+
qed

text \<open>The number of blocks that a range of bytes meets.\<close>

definition chunks :: "nat \<Rightarrow> nat \<Rightarrow> nat" where
  "chunks off n = (if n = 0 then 0 else (off mod BSIZE + n + BSIZE - 1) div BSIZE)"

lemma chunks_step:
  assumes "0 < n"
  shows "chunks off n = Suc (chunks (off + min n (BSIZE - off mod BSIZE)) (n - min n (BSIZE - off mod BSIZE)))"
proof (cases "n \<le> BSIZE - off mod BSIZE")
  case True
  have "(off mod BSIZE + n + BSIZE - 1) div BSIZE = 1"
    using True assms mod_less_divisor [OF BSIZE_pos, of off] by (intro div_nat_eqI) simp_all
  then show ?thesis using True assms by (simp add: chunks_def)
next
  case False
  let ?m = "BSIZE - off mod BSIZE"
  have l: "off mod BSIZE < BSIZE" by (rule mod_less_divisor [OF BSIZE_pos])
  have e: "off + ?m = (off div BSIZE + 1) * BSIZE" using l div_mult_mod_eq [of off BSIZE] unfolding distrib_right by linarith
  have s: "off mod BSIZE + n + BSIZE - 1 = (n - ?m + BSIZE - 1) + BSIZE" using False l BSIZE_pos by simp
  have "(off mod BSIZE + n + BSIZE - 1) div BSIZE = (n - ?m + BSIZE - 1) div BSIZE + 1" unfolding s by (rule div_add_self2) (simp add: BSIZE_def)
  moreover have "(off + ?m) mod BSIZE = 0" unfolding e by simp
  ultimately show ?thesis using False assms by (simp add: chunks_def)
qed

text \<open>The bytes \<open>f\<close> with \<open>src\<close> over them from \<open>off\<close> on.\<close>

definition overlay :: "nat \<Rightarrow> u8 list \<Rightarrow> (nat \<Rightarrow> u8) \<Rightarrow> nat \<Rightarrow> u8" where
  "overlay off src f i = (if off \<le> i \<and> i < off + length src then src ! (i - off) else f i)"

lemma overlay_Nil [simp]: "overlay off [] f = f"
  by (rule ext) (auto simp: overlay_def)

lemma overlay_cong: "f i = g i \<Longrightarrow> overlay off src f i = overlay off src g i"
  by (simp add: overlay_def)

lemma overlay_split:
  "m \<le> length src \<Longrightarrow> overlay (off + m) (drop m src) (overlay off (take m src) f) = overlay off src f"
  by (rule ext) (auto simp: overlay_def)

text \<open>The piece of a block, and the bytes of a file.\<close>

lemma overlay_block:
  assumes "off mod BSIZE + length x \<le> BSIZE" "i div BSIZE = off div BSIZE"
  shows "patch (off mod BSIZE) x (map f [off div BSIZE * BSIZE..<off div BSIZE * BSIZE + BSIZE]) ! (i mod BSIZE) = overlay off x f i"
proof -
  have i: "off div BSIZE * BSIZE + i mod BSIZE = i" "off = off div BSIZE * BSIZE + off mod BSIZE" "i mod BSIZE < BSIZE"
    using assms(2) BSIZE_pos div_mult_mod_eq [of i BSIZE] by simp_all
  have "off \<le> i \<longleftrightarrow> off mod BSIZE \<le> i mod BSIZE" "i < off + length x \<longleftrightarrow> i mod BSIZE < off mod BSIZE + length x" "i - off = i mod BSIZE - off mod BSIZE"
    using i by linarith+
  then show ?thesis using assms(1) i(1,3) by (simp add: nth_patch overlay_def)
qed

lemma write_loop_ok:
  assumes "file_ok ip s" "off + length src \<le> MAXFILE * BSIZE" "budget R (n + chunks off (length src)) ip s"
  shows "\<exists>t. write_loop ip off src s = Inr t \<and> rewritten ip (overlay off src (byte_at (bcur s) (addrs ip s))) s t \<and> budget R n ip t \<and>
    no_hole off (off + length src) (bcur t) (addrs ip t) \<and> (no_hole off (off + length src) (bcur s) (addrs ip s) \<longrightarrow> icache t = icache s) \<and>
    bpinned t \<subseteq> bpinned s \<union> map_blocks (sb s) \<union> (insert (addrs ip t ! NDIRECT) ((\<lambda>i. baddr (bcur t) (addrs ip t) (i div BSIZE)) ` {off..<off + length src}) - {0})"
  using assms
proof (induction "length src" arbitrary: off src s rule: less_induct)
  case less
  show ?case
  proof (cases "src = []")
    case True
    then show ?thesis
      using less.prems grown_view(1) [OF less.prems(1) file_okD(5) [OF less.prems(1)] refl] by (auto simp: write_loop.simps no_hole_def chunks_def)
  next
    case False
    define m where "m = min (length src) (BSIZE - off mod BSIZE)"
    note st = loop_step [of "length src" off, folded m_def, OF _ less.prems(2)]
    let ?g = "patch (off mod BSIZE) (take m src)" and ?f = "byte_at (bcur s) (addrs ip s)"
    have lm: "length (take m src) = m" "off mod BSIZE + length (take m src) \<le> BSIZE" using st(2,3) False by simp_all
    have b: "budget R (Suc (n + chunks (off + m) (length (drop m src)))) ip s"
      using less.prems(3) chunks_step [of "length src" off, folded m_def] False by simp
    have g: "length x = BSIZE \<Longrightarrow> length (?g x) = BSIZE" for x using lm(2) by simp
    have bn: "off div BSIZE < MAXFILE" using st(4) False by simp
    obtain a s1 bp s2 s3 t where t: "bmap ip (off div BSIZE) s = Inr (a, s1)" "bread (i_dev (icache s1 ! ip)) a s1 = Inr (bp, s2)"
      "log_write bp (put_data bp (?g (b_data (bufs s2 ! bp))) s2) = Inr s3" "brelse bp s3 = Inr t" "budget R (n + chunks (off + m) (length (drop m src))) ip t" "a \<noteq> 0"
      "baddr (bcur t) (addrs ip t) (off div BSIZE) = a"
      "rewritten ip (\<lambda>i. if i div BSIZE = off div BSIZE then ?g (map ?f [off div BSIZE * BSIZE..<off div BSIZE * BSIZE + BSIZE]) ! (i mod BSIZE) else ?f i) s t"
      "bpinned t \<subseteq> bpinned s \<union> map_blocks (sb s) \<union> ({addrs ip t ! NDIRECT, a} - {0})" "baddr (bcur s) (addrs ip s) (off div BSIZE) \<noteq> 0 \<longrightarrow> icache t = icache s"
      using write_step [where g = ?g, OF less.prems(1) bn b g] by blast
    have "overlay off (take m src) ?f i = ?f i" if "i div BSIZE \<noteq> off div BSIZE" for i
    proof -
      have "\<not> (off \<le> i \<and> i < off + m)" using that in_block(1) [of off] lm by (auto simp: le_iff_add)
      then show ?thesis using lm(1) by (auto simp: overlay_def)
    qed
    then have r: "rewritten ip (overlay off (take m src) ?f) s t"
      using overlay_block [OF lm(2)] by (intro rewritten_cong [OF t(8)]) simp
    note sm = rewritten_same [OF r less.prems(1)] and rd = rewrittenD [OF r]
    obtain u where u: "write_loop ip (off + m) (drop m src) t = Inr u" "rewritten ip (overlay (off + m) (drop m src) (byte_at (bcur t) (addrs ip t))) t u" "budget R n ip u"
      "no_hole (off + m) (off + length src) (bcur u) (addrs ip u)" "no_hole (off + m) (off + length src) (bcur t) (addrs ip t) \<longrightarrow> icache u = icache t"
      "bpinned u \<subseteq> bpinned t \<union> map_blocks (sb s) \<union> (insert (addrs ip u ! NDIRECT) ((\<lambda>i. baddr (bcur u) (addrs ip u) (i div BSIZE)) ` {off + m..<off + length src}) - {0})"
      using less.hyps [of "drop m src" t "off + m", OF _ rd(1) _ t(5)] st(1,2) less.prems(2) False sm(1) by auto
    have "write_loop ip off src s = Inr u"
      using False t(1-4) u(1) unfolding m_def by (subst write_loop.simps) (simp add: Let_def)
    moreover have "rewritten ip (overlay off src ?f) s u"
      using overlay_cong [where f = "byte_at (bcur t) (addrs ip t)" and g = "overlay off (take m src) ?f", OF rd(4)] st(2) False by (intro rewritten_cong [OF rewritten_trans [OF r u(2)]]) (simp flip: overlay_split [of m src off ?f])
    moreover have bu: "baddr (bcur u) (addrs ip u) (k div BSIZE) = a" if "off \<le> k" "k < off + m" for k
      using in_block(1) [of off "k - off"] that rewrittenD(5) [OF u(2) st(4)] t(6,7) st(3) False by simp
    moreover have "no_hole off (off + length src) (bcur u) (addrs ip u)"
      using u(4) bu t(6) unfolding no_hole_def by (metis not_less)
    moreover have "bpinned u \<subseteq> bpinned s \<union> map_blocks (sb s) \<union> (insert (addrs ip u ! NDIRECT) ((\<lambda>i. baddr (bcur u) (addrs ip u) (i div BSIZE)) ` {off..<off + length src}) - {0})"
    proof -
      let ?h = "\<lambda>i. baddr (bcur u) (addrs ip u) (i div BSIZE)"
      have "a \<in> ?h ` {off..<off + length src}" using bu [of off] st(1,2) False by (auto simp: image_iff intro!: bexI [of _ off])
      moreover have "addrs ip t ! NDIRECT \<in> {0, addrs ip u ! NDIRECT}" using rewrittenD(10) [OF u(2)] by (cases "addrs ip t ! NDIRECT = 0") simp_all
      moreover have "?h ` {off + m..<off + length src} \<subseteq> ?h ` {off..<off + length src}" by (intro image_mono) auto
      ultimately show ?thesis using t(9) u(6) by blast
    qed
    moreover have "icache u = icache s" if h: "no_hole off (off + length src) (bcur s) (addrs ip s)"
    proof -
      have "baddr (bcur s) (addrs ip s) (k div BSIZE) \<noteq> 0 \<Longrightarrow> k < off + length src \<Longrightarrow> baddr (bcur t) (addrs ip t) (k div BSIZE) \<noteq> 0" for k
        using rd(5) [of "k div BSIZE"] less.prems(2) by (simp add: less_mult_imp_div_less)
      then have "no_hole (off + m) (off + length src) (bcur t) (addrs ip t)" using h by (simp add: no_hole_def)
      then show ?thesis using u(5) t(10) h False by (simp add: no_hole_def)
    qed
    ultimately show ?thesis using u(3) by blast
  qed
qed

section \<open>The contents of a file\<close>

definition fdata :: "nat \<Rightarrow> 'a fstate_scheme \<Rightarrow> u8 list" where
  "fdata ip s = map (byte_at (bcur s) (addrs ip s)) [0..<unat (i_size (icache s ! ip))]"

text \<open>
  The invariant of an inode between the operations: the block of the inode is one that can be written, there is a block for
  every byte up to the size, and the copy of the inode in its block is the one in memory.
\<close>

definition synced :: "nat \<Rightarrow> 'a fstate_scheme \<Rightarrow> bool" where
  "synced ip s \<longleftrightarrow> get_dinode (dinode_off (i_inum (icache s ! ip))) (bcur s (iblk ip s)) = dinode_of (icache s ! ip)"

definition file_inv :: "nat \<Rightarrow> 'a fstate_scheme \<Rightarrow> bool" where
  "file_inv ip s \<longleftrightarrow> file_ok ip s \<and> i_type (icache s ! ip) \<noteq> T_DEV \<and> iblk ip s < disksize s \<and> iblk ip s \<notin> bheld s \<union> log_area s \<union> map_blocks (sb s) \<and>
     unat (i_size (icache s ! ip)) \<le> MAXFILE * BSIZE \<and> no_hole 0 (unat (i_size (icache s ! ip))) (bcur s) (addrs ip s) \<and> synced ip s"

lemma file_invD:
  assumes "file_inv ip s"
  shows "file_ok ip s" "i_type (icache s ! ip) \<noteq> T_DEV" "iblk ip s < disksize s" "iblk ip s \<notin> bheld s" "iblk ip s \<notin> log_area s" "iblk ip s \<notin> map_blocks (sb s)"
    "unat (i_size (icache s ! ip)) \<le> MAXFILE * BSIZE" "no_hole 0 (unat (i_size (icache s ! ip))) (bcur s) (addrs ip s)" "synced ip s"
  using assms by (simp_all add: file_inv_def)

lemma length_fdata [simp]: "length (fdata ip s) = unat (i_size (icache s ! ip))"
  by (simp add: fdata_def)

lemma file_inv_view:
  assumes "file_inv ip s" "tx_inv t" "tx_view t = tx_view s"
  shows "file_inv ip t" "fdata ip t = fdata ip s"
proof -
  note v = viewD [OF assms(3), simplified]
  note f = trest_fsD [OF v(4)]
  show "fdata ip t = fdata ip s" by (simp add: fdata_def f v)
  show "file_inv ip t" using assms(1) grown_view(2) [OF file_invD(1) [OF assms(1)] assms(2,3)] by (simp add: file_inv_def synced_def f v)
qed

lemma unat_add_no_wrap: "\<not> (a + b :: u32) < a \<Longrightarrow> unat (a + b) = unat a + unat b"
  using unat_u32_bound [of b] by (simp add: word_less_nat_alt unat_plus_if' split: if_splits)

lemma map_upt_part: "i + k \<le> n \<Longrightarrow> map f [i..<i + k] = take k (drop i (map f [0..<n]))"
  by (simp add: take_map drop_map)

lemma readi_ok:
  assumes "file_inv ip s" "room R N s"
  shows "\<exists>t. readi ip off n s = Inr (if i_size (icache s ! ip) < off \<or> off + n < off then None else Some (take (unat n) (drop (unat off) (fdata ip s))), t) \<and>
    tx_inv t \<and> tx_view t = tx_view s"
proof (cases "i_size (icache s ! ip) < off \<or> off + n < off")
  case True
  then show ?thesis using file_invD(2) [OF assms(1)] file_okD(5) [OF file_invD(1) [OF assms(1)]] by (simp add: readi_def Let_def)
next
  case False
  let ?sz = "i_size (icache s ! ip)"
  define k where "k = (if off + n > ?sz then ?sz - off else n)"
  have o: "unat off \<le> unat ?sz" "unat (off + n) = unat off + unat n" using False unat_add_no_wrap [of off n] by (simp_all add: word_le_nat_alt not_less)
  have k: "unat off + unat k \<le> unat ?sz" "take (unat k) (drop (unat off) (fdata ip s)) = take (unat n) (drop (unat off) (fdata ip s))"
    using o by (auto simp: k_def word_less_nat_alt word_le_nat_alt unat_sub)
  have "no_hole (unat off) (unat off + unat k) (bcur s) (addrs ip s)" "unat off + unat k \<le> MAXFILE * BSIZE"
    using file_invD(7,8) [OF assms(1)] k(1) by (auto simp: no_hole_def)
  then obtain t where t: "read_loop ip (unat off) (unat k) s = Inr (map (byte_at (bcur s) (addrs ip s)) [unat off..<unat off + unat k], t)" "tx_inv t" "tx_view t = tx_view s"
    using read_loop_ok [OF file_invD(1) [OF assms(1)] assms(2)] by blast
  have "readi ip off n s = Inr (Some (take (unat n) (drop (unat off) (fdata ip s))), t)"
    using False file_invD(2) [OF assms(1)] t(1) map_upt_part [OF k(1), of "byte_at (bcur s) (addrs ip s)"] k(2)
    unfolding readi_def Let_def k_def [symmetric] by (simp add: fdata_def)
  then show ?thesis using False t(2,3) by simp
qed

lemma dinode_in_block: "dinode_off i + DINODE_SIZE \<le> BSIZE"
proof -
  have "unat (i mod of_nat IPB) \<le> 7" by (simp add: unat_mod IPB_def)
  then show ?thesis by (simp add: dinode_off_def DINODE_SIZE_def BSIZE_def)
qed

lemma iupdate_ok:
  assumes f: "file_ok ip s" and "iblk ip s < disksize s" "iblk ip s \<notin> bheld s" "iblk ip s \<notin> log_area s" "room R n s"
  shows "\<exists>t. iupdate ip s = Inr t \<and> tx_inv t \<and> get_dinode (dinode_off (i_inum (icache s ! ip))) (bcur t (iblk ip s)) = dinode_of (icache s ! ip) \<and>
    (\<exists>d. tx_view t = t_write (iblk ip s) d (tx_view s))"
proof -
  let ?p = "icache s ! ip" and ?d = "put_dinode (dinode_off (i_inum (icache s ! ip))) (dinode_of (icache s ! ip))"
  have l: "length (bcur s (iblk ip s)) = BSIZE" using tx.size_ok [OF file_okD(5) [OF f], of "iblk ip s"] assms(2) by simp
  have o: "dinode_off (i_inum ?p) + DINODE_SIZE \<le> BSIZE" by (rule dinode_in_block)
  have a: "length (di_addrs (dinode_of ?p)) = NDIRECT + 1" using file_okD(8) [OF f] by (simp add: dinode_of_def)
  obtain bp s1 s2 t where t: "bread 1 (iblk ip s) s = Inr (bp, s1)" "b_data (bufs s1 ! bp) = bcur s (iblk ip s)"
    "log_write bp (put_data bp (?d (bcur s (iblk ip s))) s1) = Inr s2" "brelse bp s2 = Inr t" "tx_inv t" "tx_view t = t_write (iblk ip s) (?d (bcur s (iblk ip s))) (tx_view s)"
    using edit_room [OF file_okD(5) [OF f] assms(2-5), of ?d] l o a by auto
  have "iupdate ip s = Inr t" using t file_okD(2) [OF f] by (simp add: iupdate_def Let_def)
  then show ?thesis using t(5,6) viewD(1) [OF t(6)] dinode_roundtrip l o a by auto
qed

lemma overlay_patch:
  assumes "off \<le> n"
  shows "map (overlay off src f) [0..<max n (off + length src)] = patch off src (map f [0..<n])"
  using assms by (intro nth_equalityI) (auto simp: patch_def nth_append overlay_def)

lemma rewritten_data:
  assumes "rewritten ip (overlay off src f) s t" "off \<le> n" "max n (off + length src) \<le> MAXFILE * BSIZE"
  shows "map (byte_at (bcur t) (addrs ip t)) [0..<max n (off + length src)] = patch off src (map f [0..<n])"
  unfolding overlay_patch [OF assms(2), symmetric] using rewrittenD(4) [OF assms(1)] assms(3) by (intro map_cong) auto

lemma rewritten_trest:
  assumes "rewritten ip f s t"
  shows "\<exists>as z. trest t = (trest s)\<lparr>icache := (icache s)[ip := (icache s ! ip)\<lparr>i_addrs := as, i_size := z\<rparr>]\<rparr>"
proof -
  obtain as where "trest t = (trest s)\<lparr>icache := (icache s)[ip := (icache s ! ip)\<lparr>i_addrs := as\<rparr>]\<rparr>" using rewrittenD(2) [OF assms] by blast
  then show ?thesis by (intro exI [of _ as] exI [of _ "i_size (icache s ! ip)"]) simp
qed

text \<open>
  After a write: the invariant, the contents, and that only the addresses and the size in the inode, the map, and the blocks of
  the file and of the inode have changed.
\<close>

definition wrote :: "nat \<Rightarrow> u8 list \<Rightarrow> 'a fstate_scheme \<Rightarrow> 'a fstate_scheme \<Rightarrow> bool" where
  "wrote ip xs s t \<longleftrightarrow> file_inv ip t \<and> fdata ip t = xs \<and> bheld t = bheld s \<and>
     (\<exists>as z. trest t = (trest s)\<lparr>icache := (icache s)[ip := (icache s ! ip)\<lparr>i_addrs := as, i_size := z\<rparr>]\<rparr>) \<and>
     own (bcur t) (addrs ip t) \<subseteq> own (bcur s) (addrs ip s) \<union> of_nat ` free_blocks s \<and>
     (\<forall>b. b \<notin> insert (iblk ip s) (map_blocks (sb s) \<union> own (bcur t) (addrs ip t)) \<longrightarrow> bcur t b = bcur s b)"

lemma wrote_same_size:
  assumes "file_inv ip s" "rewritten ip (overlay off src (byte_at (bcur s) (addrs ip s))) s t" "icache t = icache s" "off + length src \<le> unat (i_size (icache s ! ip))"
  shows "wrote ip (patch off src (fdata ip s)) s t"
proof -
  note r = rewrittenD [OF assms(2)] and k = file_invD [OF assms(1)]
  note sm = rewritten_same [OF assms(2) k(1)]
  have ib: "iblk ip s \<notin> own (bcur t) (addrs ip t)" using file_okD(13) [OF r(1)] sm(8) by metis
  have "bcur t (iblk ip s) = bcur s (iblk ip s)" using r(9) k(6) ib by blast
  moreover have "no_hole 0 (unat (i_size (icache s ! ip))) (bcur t) (addrs ip t)"
    using k(7,8) r(5) less_mult_imp_div_less unfolding no_hole_def by (metis order_less_le_trans)
  ultimately have "file_inv ip t" using k(2-5,6,7,9) r(1,3) sm by (simp add: file_inv_def synced_def assms(3))
  moreover have "fdata ip t = patch off src (fdata ip s)"
    using rewritten_data [OF assms(2), of "unat (i_size (icache s ! ip))"] assms(4) k(7) by (simp add: fdata_def assms(3) max_def)
  moreover have "\<exists>as z. trest t = (trest s)\<lparr>icache := (icache s)[ip := (icache s ! ip)\<lparr>i_addrs := as, i_size := z\<rparr>]\<rparr>"
    by (rule rewritten_trest [OF assms(2)])
  ultimately show ?thesis unfolding wrote_def using r(3,8,9) by (intro conjI) (assumption | blast)+
qed

text \<open>Writing a block that is not of the file.\<close>

lemma write_outside:
  assumes "file_ok ip s" "b \<notin> own (bcur s) (addrs ip s)" "b \<notin> map_blocks (sb s)" "tx_inv t" "tx_view t = t_write b d (tx_view s)"
  shows "file_ok ip t" "baddr (bcur t) (addrs ip t) = baddr (bcur s) (addrs ip s)" "own (bcur t) (addrs ip t) = own (bcur s) (addrs ip s)"
    "i < MAXFILE * BSIZE \<Longrightarrow> byte_at (bcur t) (addrs ip t) i = byte_at (bcur s) (addrs ip s) i"
proof -
  note k = file_okD [OF assms(1)] and v = viewD [OF assms(5), simplified]
  note f = trest_fsD [OF v(4)]
  have i: "addrs ip s ! NDIRECT = 0 \<or> bcur t (addrs ip s ! NDIRECT) = bcur s (addrs ip s ! NDIRECT)"
    using assms(2) ind_own [of "addrs ip s" "bcur s"] v(1) by auto
  then show b: "baddr (bcur t) (addrs ip t) = baddr (bcur s) (addrs ip s)" by (auto simp: baddr_def f(2))
  then show o: "own (bcur t) (addrs ip t) = own (bcur s) (addrs ip s)" by (simp add: own_def f(2))
  have "tree (bcur t) (addrs ip t)" using k(3) b by (simp add: tree_def f(2))
  then show "file_ok ip t" using assms(1) map_inv_write(1) [OF k(4) assms(4,5,3)] o by (simp add: file_ok_def f v(2))
  show "byte_at (bcur t) (addrs ip t) i = byte_at (bcur s) (addrs ip s) i" if "i < MAXFILE * BSIZE"
  proof -
    have "i div BSIZE < MAXFILE" using that by (simp add: less_mult_imp_div_less)
    then show ?thesis using baddr_own assms(2) v(1) b unfolding byte_at_def Let_def by (metis fun_upd_other)
  qed
qed

lemma size_simps:
  fixes s :: "'a fstate_scheme" and z :: u32
  assumes "ip < length (icache s)"
  defines "t \<equiv> upd_inode ip (\<lambda>p. p\<lparr>i_size := z\<rparr>) s"
  shows "icache t ! ip = (icache s ! ip)\<lparr>i_size := z\<rparr>" "iblk ip t = iblk ip s" "disksize t = disksize s" "log_area t = log_area s" "free_blocks t = free_blocks s" "room R n t = room R n s"
proof -
  note f = trest_ic [OF upd_inode_simps(7) [of ip "\<lambda>p. p\<lparr>i_size := z\<rparr>" s], folded t_def]
  note g = upd_inode_simps [of ip "\<lambda>p. p\<lparr>i_size := z\<rparr>" s, folded t_def]
  show "icache t ! ip = (icache s ! ip)\<lparr>i_size := z\<rparr>" "iblk ip t = iblk ip s" using f(1,2) assms(1) by simp_all
  show "disksize t = disksize s" "log_area t = log_area s" "free_blocks t = free_blocks s" using f g by (simp_all add: free_blocks_def)
  show "room R n t = room R n s" by (rule room_ic [OF g(7,3,4)])
qed

lemma file_ok_size:
  assumes "file_ok ip s"
  shows "file_ok ip (upd_inode ip (\<lambda>p. p\<lparr>i_size := z\<rparr>) s)"
proof -
  note g = upd_inode_simps [of ip "\<lambda>p. p\<lparr>i_size := z\<rparr>" s] and k = file_okD [OF assms] and z = size_simps [OF file_okD(1) [OF assms], where z = z]
  have "map_inv (insert (iblk ip s) (own (bcur s) (addrs ip s))) (upd_inode ip (\<lambda>p. p\<lparr>i_size := z\<rparr>) s)"
    using map_inv_ic(1) [OF k(4) _ g(7,3,2)] g(1) k(5) by simp
  then show ?thesis using assms by (simp add: file_ok_def z(1,2,4) g trest_ic(2) [OF g(7)])
qed

lemma wrote_new_size:
  assumes "file_inv ip s" "rewritten ip (overlay off src (byte_at (bcur s) (addrs ip s))) s t" "no_hole off (off + length src) (bcur t) (addrs ip t)"
    and "unat z = off + length src" "off \<le> unat (i_size (icache s ! ip))" "unat (i_size (icache s ! ip)) < unat z" "unat z \<le> MAXFILE * BSIZE" "room R n t"
  shows "\<exists>u d. iupdate ip (upd_inode ip (\<lambda>p. p\<lparr>i_size := z\<rparr>) t) = Inr u \<and> wrote ip (patch off src (fdata ip s)) s u \<and>
    tx_view u = t_write (iblk ip s) d (tx_view (upd_inode ip (\<lambda>p. p\<lparr>i_size := z\<rparr>) t)) \<and>
    addrs ip u = addrs ip t \<and> baddr (bcur u) (addrs ip u) = baddr (bcur t) (addrs ip t) \<and> free_blocks u = free_blocks t"
proof -
  let ?t = "upd_inode ip (\<lambda>p. p\<lparr>i_size := z\<rparr>) t"
  note r = rewrittenD [OF assms(2)] and k = file_invD [OF assms(1)]
  note sm = rewritten_same [OF assms(2) k(1)]
  have ip: "ip < length (icache t)" using file_okD(1) [OF r(1)] .
  have ib: "iblk ip s \<notin> own (bcur t) (addrs ip t)" using file_okD(13) [OF r(1)] sm(8) by metis
  note z = size_simps [OF ip, where z = z] and g = upd_inode_simps [of ip "\<lambda>p. p\<lparr>i_size := z\<rparr>" t]
  have e: "iblk ip ?t = iblk ip s" using z(2) sm(8) by simp
  obtain u d where u: "iupdate ip ?t = Inr u" "tx_inv u" "get_dinode (dinode_off (i_inum (icache ?t ! ip))) (bcur u (iblk ip s)) = dinode_of (icache ?t ! ip)"
     "tx_view u = t_write (iblk ip s) d (tx_view ?t)"
    using iupdate_ok [OF file_ok_size [OF r(1)], of z R n, unfolded e] k(3-5) sm(2,3) r(3) assms(8) by (auto simp: z g)
  note v = viewD [OF u(4), simplified]
  note f = trest_fsD [OF v(4)]
  have p: "icache u ! ip = (icache t ! ip)\<lparr>i_size := z\<rparr>" "iblk ip u = iblk ip s" "length (icache u) = length (icache t)"
    using f(1,2) g(5) z(1) e trest_ic(2) [OF g(7)] by simp_all
  have fz: "file_ok ip ?t" "own (bcur ?t) (addrs ip ?t) = own (bcur t) (addrs ip t)" using file_ok_size [OF r(1)] by (simp_all add: z(1) g)
  note w = write_outside [OF fz(1) _ _ u(2,4)]
  have pre: "iblk ip s \<notin> own (bcur ?t) (addrs ip ?t)" "iblk ip s \<notin> map_blocks (sb ?t)" using ib fz(2) k(6) sm(1) by (simp_all add: g)
  have b: "baddr (bcur u) (addrs ip u) = baddr (bcur t) (addrs ip t)" "own (bcur u) (addrs ip u) = own (bcur t) (addrs ip t)"
    using w(2,3) [OF pre] by (simp_all add: z(1) g)
  have "baddr (bcur t) (addrs ip t) (i div BSIZE) \<noteq> 0" if "i < unat z" for i
  proof (cases "off \<le> i")
    case True
    then show ?thesis using assms(3,4) that by (simp add: no_hole_def)
  next
    case False
    then have "baddr (bcur s) (addrs ip s) (i div BSIZE) \<noteq> 0" "i div BSIZE < MAXFILE" using k(8) assms(5,7) that by (auto simp: no_hole_def less_mult_imp_div_less)
    then show ?thesis using r(5) by simp
  qed
  then have "no_hole 0 (unat z) (bcur u) (addrs ip u)" using b(1) by (simp add: no_hole_def)
  then have "file_inv ip u"
    using w(1) [OF pre] k(2-6) sm r(3) u(3) assms(7) p v(2) f unfolding file_inv_def synced_def by (simp add: z g)
  moreover have "fdata ip u = patch off src (fdata ip s)"
  proof -
    have "fdata ip u = map (byte_at (bcur t) (addrs ip t)) [0..<unat z]"
      using w(4) [OF pre] assms(7) by (simp add: fdata_def p(1) z(1) g)
    then show ?thesis using rewritten_data [OF assms(2,5)] assms(4,6,7) by (simp add: fdata_def max_def)
  qed
  moreover have "\<exists>as z. trest u = (trest s)\<lparr>icache := (icache s)[ip := (icache s ! ip)\<lparr>i_addrs := as, i_size := z\<rparr>]\<rparr>"
  proof -
    obtain as where a: "trest t = (trest s)\<lparr>icache := (icache s)[ip := (icache s ! ip)\<lparr>i_addrs := as\<rparr>]\<rparr>" using r(2) by blast
    then show ?thesis using v(4) g(7) trest_ic(2) [OF a] ip by (intro exI [of _ as] exI [of _ z]) simp
  qed
  moreover have "bcur u b = bcur s b" if "b \<notin> insert (iblk ip s) (map_blocks (sb s) \<union> own (bcur u) (addrs ip u))" for b
    using that r(9) [of b] v(1) b(2) by (simp add: g)
  moreover have "bheld u = bheld s" "own (bcur u) (addrs ip u) \<subseteq> own (bcur s) (addrs ip s) \<union> of_nat ` free_blocks s" using r(3,8) v(2) b(2) by (simp_all add: g)
  ultimately have "wrote ip (patch off src (fdata ip s)) s u" unfolding wrote_def by (intro conjI) (assumption | blast)+
  moreover have "free_blocks u = free_blocks t" using map_inv_write(2) [OF file_okD(4) [OF fz(1)] u(2,4) pre(2)] z(5) by simp
  moreover have "addrs ip u = addrs ip t" using p(1) by simp
  ultimately show ?thesis using u(1,4) b(1) by blast
qed

lemma writei_ok:
  assumes "file_inv ip s" "unat off \<le> unat (i_size (icache s ! ip))" "unat off + length src \<le> MAXFILE * BSIZE" "budget R (n + chunks (unat off) (length src)) ip s" "iblk ip s \<in> R"
  shows "\<exists>t. writei ip src off s = Inr (int (length src), t) \<and> wrote ip (patch (unat off) src (fdata ip s)) s t \<and> budget R n ip t \<and>
    bpinned t \<subseteq> insert (iblk ip s) (bpinned s \<union> map_blocks (sb s) \<union> (insert (addrs ip t ! NDIRECT) ((\<lambda>i. baddr (bcur t) (addrs ip t) (i div BSIZE)) ` {unat off..<unat off + length src}) - {0}))"
proof -
  note k = file_invD [OF assms(1)]
  define z where "z = off + of_nat (length src)"
  have l: "unat (of_nat (length src) :: u32) = length src" using assms(3) by (intro unat_of_nat_u32) (simp add: MAXFILE_def NDIRECT_def NINDIRECT_def BSIZE_def)
  have z: "unat z = unat off + length src" using l assms(3) by (simp add: z_def unat_plus_if' MAXFILE_def NDIRECT_def NINDIRECT_def BSIZE_def)
  have m: "\<not> i_size (icache s ! ip) < off" "\<not> z < off" "\<not> of_nat (MAXFILE * BSIZE) < z"
    using assms(2,3) z by (simp_all add: word_less_nat_alt MAXFILE_def NDIRECT_def NINDIRECT_def BSIZE_def)
  obtain t where t: "write_loop ip (unat off) src s = Inr t" "rewritten ip (overlay (unat off) src (byte_at (bcur s) (addrs ip s))) s t" "budget R n ip t"
    "no_hole (unat off) (unat off + length src) (bcur t) (addrs ip t)" "no_hole (unat off) (unat off + length src) (bcur s) (addrs ip s) \<longrightarrow> icache t = icache s"
    "bpinned t \<subseteq> bpinned s \<union> map_blocks (sb s) \<union> (insert (addrs ip t ! NDIRECT) ((\<lambda>i. baddr (bcur t) (addrs ip t) (i div BSIZE)) ` {unat off..<unat off + length src}) - {0})"
    using write_loop_ok [OF k(1) assms(3,4)] by blast
  note sz = rewritten_same(6) [OF t(2) k(1)]
  have w: "writei ip src off s = (if 0 < length src \<and> i_size (icache s ! ip) < z then bindE (iupdate ip (upd_inode ip (\<lambda>p. p\<lparr>i_size := z\<rparr>) t)) (\<lambda>s. Inr (int (length src), s)) else Inr (int (length src), t))"
    using k(2) m t(1) sz l unfolding writei_def Let_def z_def [symmetric] by (simp add: word_less_nat_alt)
  show ?thesis
  proof (cases "0 < length src \<and> i_size (icache s ! ip) < z")
    case True
    let ?t = "upd_inode ip (\<lambda>p. p\<lparr>i_size := z\<rparr>) t"
    have r: "room R (n + ind_need ip t) t" using t(3) by (simp add: budget_def)
    have zz: "unat (i_size (icache s ! ip)) < unat z" "unat z \<le> MAXFILE * BSIZE" using True assms(3) z by (simp_all add: word_less_nat_alt)
    obtain u d where u: "iupdate ip ?t = Inr u" "wrote ip (patch (unat off) src (fdata ip s)) s u" "tx_view u = t_write (iblk ip s) d (tx_view ?t)"
      "addrs ip u = addrs ip t" "baddr (bcur u) (addrs ip u) = baddr (bcur t) (addrs ip t)" "free_blocks u = free_blocks t"
      using wrote_new_size [OF assms(1) t(2,4) z assms(2) zz r] by blast
    note v = viewD [OF u(3), simplified, unfolded upd_inode_simps]
    have "room R (n + ind_need ip t) u"
      using room_write [OF u(3) _ assms(5)] size_simps(6) [OF file_okD(1) [OF rewrittenD(1) [OF t(2)]], where z = z] r by simp
    moreover have "sb u = sb t" using trest_ic(1) [OF v(4)] .
    ultimately have "budget R n ip u" using t(3) u(4,6) v(3) by (auto simp: budget_def ind_need_def)
    then show ?thesis using True w u(1,2,4,5) t(6) v(3) by auto
  next
    case False
    then have "unat off + length src \<le> unat (i_size (icache s ! ip))" using assms(2) z by (auto simp: word_less_nat_alt)
    then have "wrote ip (patch (unat off) src (fdata ip s)) s t" using wrote_same_size [OF assms(1) t(2)] t(5) k(8) by (simp add: no_hole_def)
    then show ?thesis using False w t(3,6) by auto
  qed
qed

end
