(* ===== verification/Pipe.thy ===== *)
theory Pipe
  imports Inode_Io
begin

text \<open>
  Pipes (\<^verbatim>\<open>pipe.c\<close>, except \<^verbatim>\<open>pipealloc\<close>, which belongs to the open files). A pipe lives in a page that the page
  allocator gave out; the state maps the address of the page to the fields of the structure, apart from its lock. A call that goes to
  sleep leaves the state at the point where its process is switched away; the call goes on with
  \<^verbatim>\<open>pipewrite_resume\<close> or \<^verbatim>\<open>piperead_resume\<close>. So every interleaving of readers and writers is a sequence of
  these operations, and the last section proves that a pipe is a first-in first-out buffer under all of them.
\<close>

definition PIPESIZE :: nat where "PIPESIZE = 512"

record pipe =
  pi_data :: "u8 list"
  pi_nread :: u32
  pi_nwrite :: u32
  pi_readopen :: bool
  pi_writeopen :: bool

datatype filetype = FD_NONE | FD_PIPE | FD_INODE

record ofile =
  f_type :: filetype
  f_ref :: int
  f_readable :: bool
  f_writable :: bool
  f_pipe :: u32
  f_ip :: nat
  f_off :: u32

record fdstate = fstate +
  ftable :: "ofile list"
  pipes :: "u32 \<Rightarrow> pipe option"

abbreviation set_pipe :: "u32 \<Rightarrow> pipe \<Rightarrow> 'a fdstate_scheme \<Rightarrow> 'a fdstate_scheme" where
  "set_pipe p q s \<equiv> s\<lparr>pipes := (pipes s)(p \<mapsto> q)\<rparr>"

text \<open>A call either returns or goes to sleep; a writer has then some bytes left.\<close>

datatype 'r progress = Returned 'r | Sleeping "u8 list"

text \<open>
  A page that is allocated was filled with ones when it was freed; the pointer to the next free page that overwrites its first bytes lies in
  the lock of the pipe.
\<close>

definition new_pipe :: pipe where
  "new_pipe = \<lparr>pi_data = replicate PIPESIZE 1, pi_nread = 0, pi_nwrite = 0, pi_readopen = True, pi_writeopen = True\<rparr>"

section \<open>Operations\<close>

definition pipe_put :: "u8 \<Rightarrow> pipe \<Rightarrow> pipe" where
  "pipe_put c q = q\<lparr>pi_data := (pi_data q)[slot PIPESIZE (pi_nwrite q) := c], pi_nwrite := pi_nwrite q + 1\<rparr>"

fun pipewrite_loop :: "u32 \<Rightarrow> nat \<Rightarrow> u8 list \<Rightarrow> 'a fdstate_scheme \<Rightarrow> kerr + int progress \<times> 'a fdstate_scheme" where
  "pipewrite_loop p n [] s =
     bindE (wakeup (Some (Ch_nread p)) s) (\<lambda>s. bindE (release (L_pipe p) s) (\<lambda>s. Inr (Returned (int n), s)))"
| "pipewrite_loop p n (c # cs) s =
     (case (pipes s p, myproc s) of
        (None, _) \<Rightarrow> Inl NullDeref
      | (_, None) \<Rightarrow> Inl NullDeref
      | (Some q, Some i) \<Rightarrow>
          if pi_nwrite q = pi_nread q + of_nat PIPESIZE then
            if \<not> pi_readopen q \<or> p_killed (procs s ! i) then bindE (release (L_pipe p) s) (\<lambda>s. Inr (Returned (-1), s))
            else
              bindE (wakeup (Some (Ch_nread p)) s) (\<lambda>s.
              bindE (sleep (Ch_nwrite p) (Some (L_pipe p)) s) (\<lambda>s. Inr (Sleeping (c # cs), s)))
          else pipewrite_loop p n cs (set_pipe p (pipe_put c q) s))"

definition pipewrite_enter :: "u32 \<Rightarrow> u8 list \<Rightarrow> 'a fdstate_scheme \<Rightarrow> kerr + int progress \<times> 'a fdstate_scheme" where
  "pipewrite_enter p bs s = bindE (acquire (L_pipe p) s) (pipewrite_loop p (length bs) bs)"

text \<open>\<open>i\<close> is the process that slept, \<open>n\<close> the number of bytes it was called with, \<open>bs\<close> those that are left.\<close>

definition pipewrite_resume :: "nat \<Rightarrow> u32 \<Rightarrow> nat \<Rightarrow> u8 list \<Rightarrow> 'a fdstate_scheme \<Rightarrow> kerr + int progress \<times> 'a fdstate_scheme" where
  "pipewrite_resume i p n bs s = bindE (sleep_exit i (L_pipe p) s) (pipewrite_loop p n bs)"

definition pipewrite :: "u32 \<Rightarrow> u8 list \<Rightarrow> 'a fdstate_scheme \<Rightarrow> kerr + int \<times> 'a fdstate_scheme" where
  "pipewrite p bs s =
     bindE (pipewrite_enter p bs s) (\<lambda>(r, s). case r of Returned n \<Rightarrow> Inr (n, s) | Sleeping _ \<Rightarrow> Inl (Blocked (Ch_nwrite p)))"

fun pipe_copy :: "nat \<Rightarrow> pipe \<Rightarrow> u8 list \<times> pipe" where
  "pipe_copy 0 q = ([], q)"
| "pipe_copy (Suc n) q =
     (if pi_nread q = pi_nwrite q then ([], q)
      else (let (xs, q') = pipe_copy n (q\<lparr>pi_nread := pi_nread q + 1\<rparr>) in (pi_data q ! slot PIPESIZE (pi_nread q) # xs, q')))"

definition piperead_loop :: "u32 \<Rightarrow> nat \<Rightarrow> 'a fdstate_scheme \<Rightarrow> kerr + u8 list option progress \<times> 'a fdstate_scheme" where
  "piperead_loop p n s =
     (case (pipes s p, myproc s) of
        (None, _) \<Rightarrow> Inl NullDeref
      | (_, None) \<Rightarrow> Inl NullDeref
      | (Some q, Some i) \<Rightarrow>
          if pi_nread q = pi_nwrite q \<and> pi_writeopen q then
            if p_killed (procs s ! i) then bindE (release (L_pipe p) s) (\<lambda>s. Inr (Returned None, s))
            else bindE (sleep (Ch_nread p) (Some (L_pipe p)) s) (\<lambda>s. Inr (Sleeping [], s))
          else
            (let (xs, q) = pipe_copy n q in
             bindE (wakeup (Some (Ch_nwrite p)) (set_pipe p q s)) (\<lambda>s.
             bindE (release (L_pipe p) s) (\<lambda>s. Inr (Returned (Some xs), s)))))"

definition piperead_enter :: "u32 \<Rightarrow> nat \<Rightarrow> 'a fdstate_scheme \<Rightarrow> kerr + u8 list option progress \<times> 'a fdstate_scheme" where
  "piperead_enter p n s = bindE (acquire (L_pipe p) s) (piperead_loop p n)"

definition piperead_resume :: "nat \<Rightarrow> u32 \<Rightarrow> nat \<Rightarrow> 'a fdstate_scheme \<Rightarrow> kerr + u8 list option progress \<times> 'a fdstate_scheme" where
  "piperead_resume i p n s = bindE (sleep_exit i (L_pipe p) s) (piperead_loop p n)"

definition piperead :: "u32 \<Rightarrow> nat \<Rightarrow> 'a fdstate_scheme \<Rightarrow> kerr + u8 list option \<times> 'a fdstate_scheme" where
  "piperead p n s =
     bindE (piperead_enter p n s) (\<lambda>(r, s). case r of Returned x \<Rightarrow> Inr (x, s) | Sleeping _ \<Rightarrow> Inl (Blocked (Ch_nread p)))"

definition pipeclose :: "u32 \<Rightarrow> bool \<Rightarrow> 'a fdstate_scheme \<Rightarrow> kerr + 'a fdstate_scheme" where
  "pipeclose p writable s =
     bindE (acquire (L_pipe p) s) (\<lambda>s.
       case pipes s p of
         None \<Rightarrow> Inl NullDeref
       | Some q \<Rightarrow>
           bindE (if writable then wakeup (Some (Ch_nread p)) (set_pipe p (q\<lparr>pi_writeopen := False\<rparr>) s)
                  else wakeup (Some (Ch_nwrite p)) (set_pipe p (q\<lparr>pi_readopen := False\<rparr>) s)) (\<lambda>s.
           bindE (release (L_pipe p) s) (\<lambda>s.
             case pipes s p of
               None \<Rightarrow> Inl NullDeref
             | Some q \<Rightarrow> if \<not> pi_readopen q \<and> \<not> pi_writeopen q then kfree p (s\<lparr>pipes := (pipes s)(p := None)\<rparr>) else Inr s)))"

section \<open>A pipe is a queue\<close>

interpretation pipe_buf: ring_buffer PIPESIZE
  by unfold_locales (simp_all add: PIPESIZE_def)

definition pipe_bytes :: "pipe \<Rightarrow> u8 list" where
  "pipe_bytes q = rb_list PIPESIZE (pi_data q) (pi_nread q) (pi_nwrite q)"

definition pipe_ok :: "pipe \<Rightarrow> bool" where
  "pipe_ok q \<longleftrightarrow> length (pi_data q) = PIPESIZE \<and> unat (pi_nwrite q - pi_nread q) \<le> PIPESIZE"

lemma length_pipe_bytes: "length (pipe_bytes q) = unat (pi_nwrite q - pi_nread q)"
  by (simp add: pipe_bytes_def)

lemma pipe_full: "pipe_ok q \<Longrightarrow> pi_nwrite q = pi_nread q + of_nat PIPESIZE \<longleftrightarrow> length (pipe_bytes q) = PIPESIZE"
proof -
  have "pi_nwrite q = pi_nread q + 512 \<longleftrightarrow> pi_nwrite q - pi_nread q = 512" by (auto simp: algebra_simps)
  then show ?thesis by (simp add: length_pipe_bytes PIPESIZE_def word_unat_eq_iff)
qed

lemma pipe_put_ok:
  assumes "pipe_ok q" "pi_nwrite q \<noteq> pi_nread q + of_nat PIPESIZE"
  shows "pipe_ok (pipe_put c q)" "pipe_bytes (pipe_put c q) = pipe_bytes q @ [c]"
proof -
  have l: "unat (pi_nwrite q - pi_nread q) < PIPESIZE"
    using assms pipe_full [OF assms(1)] by (simp add: pipe_ok_def length_pipe_bytes)
  then show "pipe_bytes (pipe_put c q) = pipe_bytes q @ [c]"
    using pipe_buf.rb_push [of "pi_data q" "pi_nwrite q" "pi_nread q" c] assms(1)
    by (simp add: pipe_bytes_def pipe_put_def pipe_ok_def)
  then show "pipe_ok (pipe_put c q)"
    using assms(1) l length_pipe_bytes [of "pipe_put c q"] length_pipe_bytes [of q] by (simp add: pipe_ok_def pipe_put_def)
qed

lemma pipe_copy_ok:
  assumes "pipe_ok q"
  shows "\<exists>q'. pipe_copy n q = (take n (pipe_bytes q), q') \<and> pipe_ok q' \<and> pipe_bytes q' = drop n (pipe_bytes q)"
  using assms
proof (induction n arbitrary: q)
  case (Suc n)
  show ?case
  proof (cases "pi_nread q = pi_nwrite q")
    case True
    then show ?thesis using Suc.prems by (simp add: pipe_bytes_def)
  next
    case False
    let ?q = "q\<lparr>pi_nread := pi_nread q + 1\<rparr>"
    have b: "pipe_bytes q = pi_data q ! slot PIPESIZE (pi_nread q) # pipe_bytes ?q"
      using rb_pop [OF False] by (simp add: pipe_bytes_def)
    have "pipe_ok ?q" using Suc.prems unat_diff_pred(1) [OF False] by (auto simp: pipe_ok_def intro: le_trans [OF diff_le_self])
    from Suc.IH [OF this] show ?thesis using False by (auto simp: b)
  qed
qed simp

text \<open>Waking and sleeping leave the pipes alone.\<close>

lemma foldE_keeps:
  assumes "foldE f xs s = Inr t" and "\<And>x s t. f x s = Inr t \<Longrightarrow> v t = v s"
  shows "v t = v s"
  using assms(1) by (induction xs arbitrary: s) (auto elim!: bindE_InrE dest: assms(2))

lemma make_runnable_more: "make_runnable i s = Inr t \<Longrightarrow> pstate.more t = pstate.more s"
  by (auto simp: make_runnable_def enqueue_def upd_proc_def Let_def elim!: bindE_InrE split: if_splits)

lemma acquire_more: "acquire l s = Inr t \<Longrightarrow> pstate.more t = pstate.more s"
  by (auto simp: acquire_def split: if_splits)

lemma release_more: "release l s = Inr t \<Longrightarrow> pstate.more t = pstate.more s"
  by (auto simp: release_def split: if_splits)

lemma wakeup1_more: "wakeup1 ch s = Inr t \<Longrightarrow> pstate.more t = pstate.more s"
  unfolding wakeup1_def by (rule foldE_keeps [where v = pstate.more]) (auto dest: make_runnable_more split: if_splits)

lemma wakeup_more: "wakeup ch s = Inr t \<Longrightarrow> pstate.more t = pstate.more s"
  by (auto simp: wakeup_def elim!: bindE_InrE dest!: acquire_more release_more wakeup1_more)

lemma sleep_more: "sleep ch lk s = Inr t \<Longrightarrow> pstate.more t = pstate.more s"
  by (auto simp: sleep_def sched_def upd_proc_def Let_def elim!: bindE_InrE dest!: acquire_more release_more split: option.splits if_splits)

lemma pipes_more: "pstate.more t = pstate.more s \<Longrightarrow> pipes t = pipes s"
  by (cases s, cases t) simp

lemmas pipes_keep = wakeup_more [THEN pipes_more] sleep_more [THEN pipes_more] acquire_more [THEN pipes_more] release_more [THEN pipes_more]

definition bytes_in :: "u32 \<Rightarrow> 'a fdstate_scheme \<Rightarrow> u8 list" where
  "bytes_in p s = (case pipes s p of Some q \<Rightarrow> pipe_bytes q | None \<Rightarrow> [])"

definition nwrite_of :: "u32 \<Rightarrow> 'a fdstate_scheme \<Rightarrow> u32" where
  "nwrite_of p s = (case pipes s p of Some q \<Rightarrow> pi_nwrite q | None \<Rightarrow> 0)"

definition pipe_there :: "u32 \<Rightarrow> 'a fdstate_scheme \<Rightarrow> bool" where
  "pipe_there p s \<longleftrightarrow> (\<exists>q. pipes s p = Some q \<and> pipe_ok q)"

text \<open>What one run of the loops does: the writer adds bytes at the end, the reader takes them from the front.\<close>

lemma pipewrite_loop_ok:
  assumes "pipewrite_loop p n bs s = Inr (r, t)" "pipe_there p s"
  shows "\<exists>k \<le> length bs. pipe_there p t \<and> bytes_in p t = bytes_in p s @ take k bs \<and> nwrite_of p t = nwrite_of p s + of_nat k \<and>
    (case r of Returned m \<Rightarrow> m = int n \<and> k = length bs \<or> m = -1 | Sleeping rest \<Rightarrow> rest = drop k bs \<and> rest \<noteq> [] \<and> length (bytes_in p t) = PIPESIZE)"
  using assms
proof (induction bs arbitrary: s)
  case Nil
  then show ?case by (auto simp: pipe_there_def bytes_in_def nwrite_of_def elim!: bindE_InrE dest!: pipes_keep)
next
  case (Cons c cs)
  then obtain q i where q: "pipes s p = Some q" "myproc s = Some i" "pipe_ok q"
    by (auto simp: pipe_there_def split: option.splits)
  show ?case
  proof (cases "pi_nwrite q = pi_nread q + of_nat PIPESIZE")
    case True
    then have "length (pipe_bytes q) = PIPESIZE" using pipe_full [OF q(3)] by simp
    moreover have "pipes t p = Some q" "r = Returned (-1) \<or> r = Sleeping (c # cs)"
      using Cons.prems(1) True q(1,2) by (auto elim!: bindE_InrE dest!: pipes_keep split: if_splits)
    ultimately show ?thesis using q(1,3) by (intro exI [of _ 0]) (auto simp: pipe_there_def bytes_in_def nwrite_of_def)
  next
    case False
    let ?s = "set_pipe p (pipe_put c q) s"
    have "pipewrite_loop p n cs ?s = Inr (r, t)" using Cons.prems(1) False q(1,2) by simp
    moreover have "pipe_there p ?s" "bytes_in p ?s = bytes_in p s @ [c]" "nwrite_of p ?s = nwrite_of p s + 1"
      using pipe_put_ok [OF q(3) False] q(1) by (auto simp: pipe_there_def bytes_in_def nwrite_of_def pipe_put_def)
    ultimately obtain k where "k \<le> length cs" "pipe_there p t" "bytes_in p t = bytes_in p s @ c # take k cs"
      "nwrite_of p t = nwrite_of p s + 1 + of_nat k"
      "case r of Returned m \<Rightarrow> m = int n \<and> k = length cs \<or> m = -1 | Sleeping rest \<Rightarrow> rest = drop k cs \<and> rest \<noteq> [] \<and> length (bytes_in p t) = PIPESIZE"
      using Cons.IH [of ?s] by auto
    then show ?thesis by (intro exI [of _ "Suc k"]) (auto split: progress.splits)
  qed
qed

lemma piperead_loop_ok:
  assumes "piperead_loop p n s = Inr (r, t)" "pipe_there p s"
  shows "pipe_there p t" 
    "case r of Returned (Some xs) \<Rightarrow> xs = take n (bytes_in p s) \<and> bytes_in p t = drop n (bytes_in p s) | _ \<Rightarrow> bytes_in p t = bytes_in p s"
proof -
  obtain q i where q: "pipes s p = Some q" "myproc s = Some i" "pipe_ok q"
    using assms by (auto simp: pipe_there_def piperead_loop_def split: option.splits)
  obtain q' where c: "pipe_copy n q = (take n (pipe_bytes q), q')" "pipe_ok q'" "pipe_bytes q' = drop n (pipe_bytes q)"
    using pipe_copy_ok [OF q(3)] by blast
  have "r \<in> {Returned None, Sleeping []} \<and> pipes t p = Some q \<or> r = Returned (Some (take n (pipe_bytes q))) \<and> pipes t p = Some q'"
    using assms(1) q(1,2) c(1) by (auto simp: piperead_loop_def elim!: bindE_InrE dest!: pipes_keep split: if_splits)
  then show "pipe_there p t"
    "case r of Returned (Some xs) \<Rightarrow> xs = take n (bytes_in p s) \<and> bytes_in p t = drop n (bytes_in p s) | _ \<Rightarrow> bytes_in p t = bytes_in p s"
    using q(1,3) c(2,3) by (auto simp: pipe_there_def bytes_in_def)
qed

text \<open>Opening a pipe and closing one end.\<close>

lemma kfree_pipes: "kfree v s = Inr t \<Longrightarrow> pipes t = pipes s"
  by (auto simp: kfree_def kmem_acquire_def kmem_release_def acquire_def release_def Let_def elim!: bindE_InrE split: if_splits)

lemma pipeclose_pipes:
  assumes "pipeclose p w s = Inr t" "pipe_there p s"
  shows "pipe_there p t \<and> bytes_in p t = bytes_in p s \<or> pipes t p = None"
proof -
  obtain q where q: "pipes s p = Some q" "pipe_ok q" using assms(2) by (auto simp: pipe_there_def)
  define q' where "q' = (if w then q\<lparr>pi_writeopen := False\<rparr> else q\<lparr>pi_readopen := False\<rparr>)"
  have q': "pipe_ok q'" "pipe_bytes q' = pipe_bytes q" using q(2) by (simp_all add: q'_def pipe_ok_def pipe_bytes_def)
  have "pipes t p = Some q' \<or> pipes t p = None"
    using assms(1) q(1) unfolding pipeclose_def q'_def
    by (auto elim!: bindE_InrE dest!: pipes_keep kfree_pipes split: if_splits)
  then show ?thesis using q q' by (auto simp: pipe_there_def bytes_in_def)
qed

lemma pipe_there_len: "pipe_there p s \<Longrightarrow> length (bytes_in p s) \<le> PIPESIZE"
  by (auto simp: pipe_there_def pipe_ok_def bytes_in_def length_pipe_bytes)

lemma write_counted:
  assumes "pipewrite_loop p n bs s = Inr (r, t)" "pipe_there p s"
  shows "pipe_there p t" "bytes_in p t = bytes_in p s @ take (unat (nwrite_of p t - nwrite_of p s)) bs"
proof -
  obtain k where k: "k \<le> length bs" "pipe_there p t" "bytes_in p t = bytes_in p s @ take k bs" "nwrite_of p t = nwrite_of p s + of_nat k"
    using pipewrite_loop_ok [OF assms] by blast
  then have "k \<le> PIPESIZE" using pipe_there_len [OF k(2)] by simp
  then have "unat (nwrite_of p t - nwrite_of p s) = k" using k(4) by (simp add: unat_of_nat_u32 PIPESIZE_def)
  with k(2,3) show "pipe_there p t" "bytes_in p t = bytes_in p s @ take (unat (nwrite_of p t - nwrite_of p s)) bs" by simp_all
qed

section \<open>All interleavings of readers and writers\<close>

text \<open>
  The state of the kernel, what has been written to the pipe and what has been read from it. A step is a run of one of the
  operations, by any process, from entering or resuming to returning or going to sleep; or anything else that does not
  touch the pipe.
\<close>

type_synonym 'a pipe_run = "'a fdstate_scheme \<times> u8 list \<times> u8 list"

definition read_bytes :: "u8 list option progress \<Rightarrow> u8 list" where
  "read_bytes r = (case r of Returned (Some xs) \<Rightarrow> xs | _ \<Rightarrow> [])"

inductive pipe_step :: "u32 \<Rightarrow> 'a pipe_run \<Rightarrow> 'a pipe_run \<Rightarrow> bool" for p where
  step_write: "pipewrite_enter p bs s = Inr (r, t) \<Longrightarrow>
     pipe_step p (s, w, g) (t, w @ take (unat (nwrite_of p t - nwrite_of p s)) bs, g)"
| step_write_on: "pipewrite_resume i p n bs s = Inr (r, t) \<Longrightarrow>
     pipe_step p (s, w, g) (t, w @ take (unat (nwrite_of p t - nwrite_of p s)) bs, g)"
| step_read: "piperead_enter p n s = Inr (r, t) \<Longrightarrow> pipe_step p (s, w, g) (t, w, g @ read_bytes r)"
| step_read_on: "piperead_resume i p n s = Inr (r, t) \<Longrightarrow> pipe_step p (s, w, g) (t, w, g @ read_bytes r)"
| step_close: "pipeclose p e s = Inr t \<Longrightarrow> pipe_step p (s, w, g) (t, w, g)"
| step_other: "pipes t p = pipes s p \<Longrightarrow> pipe_step p (s, w, g) (t, w, g)"

definition pipe_start :: "u32 \<Rightarrow> 'a pipe_run \<Rightarrow> bool" where
  "pipe_start p = (\<lambda>(s, w, g). (\<exists>q. pipes s p = Some q \<and> length (pi_data q) = PIPESIZE \<and> pi_nread q = pi_nwrite q) \<and> w = [] \<and> g = [])"

definition pipe_inv :: "u32 \<Rightarrow> 'a pipe_run \<Rightarrow> bool" where
  "pipe_inv p = (\<lambda>(s, w, g). pipes s p = None \<or> pipe_there p s \<and> w = g @ bytes_in p s)"

lemma pipe_eq_views:
  assumes "pipes t p = pipes s p"
  shows "pipe_there p t = pipe_there p s" "bytes_in p t = bytes_in p s" "nwrite_of p t = nwrite_of p s"
  using assms by (simp_all add: pipe_there_def bytes_in_def nwrite_of_def)

lemma sleep_exit_more: "sleep_exit i l s = Inr t \<Longrightarrow> pstate.more t = pstate.more s"
  by (auto simp: sleep_exit_def upd_proc_def Let_def elim!: bindE_InrE dest!: acquire_more release_more split: if_splits)

lemma pipe_write_inv:
  assumes "pipe_inv p (s, w, g)" "pipes u p = pipes s p" "pipewrite_loop p n bs u = Inr (r, t)"
  shows "pipe_inv p (t, w @ take (unat (nwrite_of p t - nwrite_of p s)) bs, g)"
proof (cases "pipes s p")
  case None
  then show ?thesis using assms by (cases bs) (auto simp: pipe_inv_def elim!: bindE_InrE dest!: pipes_keep)
next
  case (Some q)
  then have "pipe_there p u" using assms(1,2) by (auto simp: pipe_inv_def pipe_there_def)
  from write_counted [OF assms(3) this] show ?thesis
    using assms(1,2) Some by (auto simp: pipe_inv_def pipe_eq_views [OF assms(2)])
qed

lemma pipe_read_inv:
  assumes "pipe_inv p (s, w, g)" "pipes u p = pipes s p" "piperead_loop p n u = Inr (r, t)"
  shows "pipe_inv p (t, w, g @ read_bytes r)"
proof (cases "pipes s p")
  case None
  then show ?thesis using assms by (auto simp: piperead_loop_def)
next
  case (Some q)
  then have "pipe_there p u" using assms(1,2) by (auto simp: pipe_inv_def pipe_there_def)
  from piperead_loop_ok [OF assms(3) this] show ?thesis
    using assms(1,2) Some
    by (auto simp: pipe_inv_def read_bytes_def pipe_eq_views [OF assms(2)] split: progress.splits option.splits)
qed

lemma enter_pipes: "acquire l s = Inr t \<Longrightarrow> pipes t p = pipes s p" "sleep_exit i l s = Inr t \<Longrightarrow> pipes t p = pipes s p"
  by (auto dest: pipes_keep sleep_exit_more [THEN pipes_more])

lemma pipe_step_inv:
  assumes "pipe_step p x y" "pipe_inv p x"
  shows "pipe_inv p y"
  using assms
proof cases
  case (step_write bs s r t w g)
  then obtain u where u: "acquire (L_pipe p) s = Inr u" "pipewrite_loop p (length bs) bs u = Inr (r, t)" by (auto simp: pipewrite_enter_def elim!: bindE_InrE)
  show ?thesis using pipe_write_inv [OF _ enter_pipes(1) [OF u(1)] u(2)] assms(2) step_write(1,2) by auto
next
  case (step_write_on i n bs s r t w g)
  then obtain u where u: "sleep_exit i (L_pipe p) s = Inr u" "pipewrite_loop p n bs u = Inr (r, t)" by (auto simp: pipewrite_resume_def elim!: bindE_InrE)
  show ?thesis using pipe_write_inv [OF _ enter_pipes(2) [OF u(1)] u(2)] assms(2) step_write_on(1,2) by auto
next
  case (step_read n s r t w g)
  then obtain u where u: "acquire (L_pipe p) s = Inr u" "piperead_loop p n u = Inr (r, t)" by (auto simp: piperead_enter_def elim!: bindE_InrE)
  show ?thesis using pipe_read_inv [OF _ enter_pipes(1) [OF u(1)] u(2)] assms(2) step_read(1,2) by auto
next
  case (step_read_on i n s r t w g)
  then obtain u where u: "sleep_exit i (L_pipe p) s = Inr u" "piperead_loop p n u = Inr (r, t)" by (auto simp: piperead_resume_def elim!: bindE_InrE)
  show ?thesis using pipe_read_inv [OF _ enter_pipes(2) [OF u(1)] u(2)] assms(2) step_read_on(1,2) by auto
next
  case (step_close e s t w g)
  then show ?thesis using assms(2) pipeclose_pipes [OF step_close(3)]
    by (cases "pipes s p") (auto simp: pipe_inv_def pipeclose_def elim!: bindE_InrE dest!: pipes_keep)
next
  case (step_other t s w g)
  then show ?thesis using assms(2) pipe_eq_views [OF step_other(3)] by (auto simp: pipe_inv_def)
qed

interpretation pipe_sys: invariant_system "pipe_start p" "pipe_step p" "pipe_inv p" for p
proof
  show "pipe_inv p x" if "pipe_start p x" for x :: "'a pipe_run"
    using that by (auto simp: pipe_start_def pipe_inv_def pipe_there_def pipe_ok_def bytes_in_def pipe_bytes_def)
  show "pipe_inv p y" if "pipe_inv p x" "pipe_step p x y" for x y :: "'a pipe_run"
    using that pipe_step_inv by blast
qed

end
