(* ===== verification/Pipe_Props.thy ===== *)
theory Pipe_Props
  imports Pipe
begin

text \<open>
  What pipes promise: first in, first out under every interleaving, and that a write of bytes for which there is room and
  a read from a pipe that is not empty return without sleeping.
\<close>

section \<open>Calls that return\<close>

lemma wakeup_release:
  assumes "sinv {} {} s" "held s = {l}" "l \<noteq> L_ptable" "myproc s \<noteq> None"
  shows "\<exists>t. bindE (wakeup ch s) (release l) = Inr t \<and> pipes t = pipes s \<and> in_proc t"
proof -
  obtain t where t: "wakeup ch s = Inr t" "quiet t = quiet s" "sinv {} {} t"
    using wakeup_in_proc [OF assms(1), of ch] assms(2,3) by auto
  note q = quietD [OF t(2)]
  have "release l t = Inr (t\<lparr>held := {}\<rparr>)" using q(1) assms(2) by (simp add: release_def)
  moreover have "pipes (t\<lparr>held := {}\<rparr>) = pipes s" using pipes_keep(1) [OF t(1)] by simp
  moreover have "in_proc (t\<lparr>held := {}\<rparr>)" using t(3) q(4) assms(4) by (simp add: in_proc_def myproc_def)
  ultimately show ?thesis using t(1) by auto
qed

lemma sinv_set_pipe: "sinv {} {} (set_pipe p q s) = sinv {} {} s"
  by (rule sinv_cong) simp_all

lemma pipewrite_loop_room:
  assumes "sinv {} {} s" "held s = {L_pipe p}" "myproc s \<noteq> None" "pipe_there p s" "length (bytes_in p s) + length bs \<le> PIPESIZE"
  shows "\<exists>t. pipewrite_loop p n bs s = Inr (Returned (int n), t) \<and> in_proc t"
  using assms
proof (induction bs arbitrary: s)
  case Nil
  then obtain t where "bindE (wakeup (Some (Ch_nread p)) s) (release (L_pipe p)) = Inr t" "in_proc t"
    using wakeup_release [of s "L_pipe p" "Some (Ch_nread p)"] by auto
  then show ?case by (auto elim!: bindE_InrE)
next
  case (Cons c cs)
  then obtain q i where q: "pipes s p = Some q" "pipe_ok q" "myproc s = Some i" by (auto simp: pipe_there_def)
  have nf: "pi_nwrite q \<noteq> pi_nread q + of_nat PIPESIZE" using pipe_full [OF q(2)] Cons.prems(5) q(1) by (simp add: bytes_in_def)
  let ?s = "set_pipe p (pipe_put c q) s"
  have "pipe_there p ?s" "length (bytes_in p ?s) + length cs \<le> PIPESIZE"
    using pipe_put_ok [OF q(2) nf] Cons.prems(5) q(1) by (simp_all add: pipe_there_def bytes_in_def)
  then have "\<exists>t. pipewrite_loop p n cs ?s = Inr (Returned (int n), t) \<and> in_proc t"
    by (intro Cons.IH) (use Cons.prems q(3) in \<open>simp_all add: sinv_set_pipe myproc_def\<close>)
  then show ?case using q nf by simp
qed

lemma pipewrite_room:
  assumes "in_proc s" "pipe_there p s" "length (bytes_in p s) + length bs \<le> PIPESIZE"
  shows "\<exists>t. pipewrite p bs s = Inr (int (length bs), t) \<and> in_proc t \<and> pipe_there p t \<and> bytes_in p t = bytes_in p s @ bs"
proof -
  let ?s = "s\<lparr>held := {L_pipe p}\<rparr>"
  have h: "held s = {}" "sinv {} {} s" "myproc s \<noteq> None" using assms(1) by (auto simp: in_proc_def)
  have e: "pipe_there p ?s = pipe_there p s" "bytes_in p ?s = bytes_in p s" by (rule pipe_eq_views; simp)+
  have "\<exists>t. pipewrite_loop p (length bs) bs ?s = Inr (Returned (int (length bs)), t) \<and> in_proc t"
    by (rule pipewrite_loop_room) (use h assms(2,3) e in \<open>simp_all add: myproc_def\<close>)
  then obtain t where t: "pipewrite_loop p (length bs) bs ?s = Inr (Returned (int (length bs)), t)" "in_proc t" by blast
  then have "pipe_there p t" "bytes_in p t = bytes_in p s @ bs"
    using pipewrite_loop_ok [OF t(1)] e assms(2) by auto
  moreover have "pipewrite p bs s = Inr (int (length bs), t)" using t(1) h(1) by (simp add: pipewrite_def pipewrite_enter_def)
  ultimately show ?thesis using t(2) by blast
qed

lemma piperead_ready:
  assumes "in_proc s" "pipe_there p s" "bytes_in p s \<noteq> []"
  shows "\<exists>t. piperead p n s = Inr (Some (take n (bytes_in p s)), t) \<and> in_proc t \<and> pipe_there p t \<and> bytes_in p t = drop n (bytes_in p s)"
proof -
  let ?s = "s\<lparr>held := {L_pipe p}\<rparr>"
  obtain q i where q: "pipes s p = Some q" "pipe_ok q" "myproc s = Some i" "held s = {}" "sinv {} {} s"
    using assms(1,2) by (auto simp: pipe_there_def in_proc_def)
  have ne: "pi_nread q \<noteq> pi_nwrite q" using assms(3) q(1) by (auto simp: bytes_in_def pipe_bytes_def)
  obtain q' where c: "pipe_copy n q = (take n (pipe_bytes q), q')" "pipe_ok q'" "pipe_bytes q' = drop n (pipe_bytes q)"
    using pipe_copy_ok [OF q(2)] by blast
  have sv: "sinv {} {} (set_pipe p q' ?s)" using q(5) by (subst sinv_cong [of _ s]) simp_all
  have "\<exists>t. bindE (wakeup (Some (Ch_nwrite p)) (set_pipe p q' ?s)) (release (L_pipe p)) = Inr t \<and> pipes t = pipes (set_pipe p q' ?s) \<and> in_proc t"
    by (rule wakeup_release) (use q sv in \<open>simp_all add: myproc_def\<close>)
  then obtain t where t: "bindE (wakeup (Some (Ch_nwrite p)) (set_pipe p q' ?s)) (release (L_pipe p)) = Inr t"
    "pipes t = pipes (set_pipe p q' ?s)" "in_proc t" by blast
  have "piperead p n s = Inr (Some (take n (bytes_in p s)), t)"
    using t(1) q ne c(1) by (auto simp: piperead_def piperead_enter_def piperead_loop_def myproc_def bytes_in_def elim!: bindE_InrE)
  then show ?thesis using t(2,3) c(2,3) q(1) by (auto simp: pipe_there_def bytes_in_def)
qed

section \<open>Properties\<close>

text \<open>An example: a running process and an empty pipe.\<close>

definition fd_image :: "fstate \<Rightarrow> ofile list \<Rightarrow> (u32 \<Rightarrow> pipe option) \<Rightarrow> fdstate" where
  "fd_image s fs ps = fstate.extend s (fdstate.fields fs ps)"

lemma fd_image_simps:
  "pipes (fd_image s fs ps) = ps" "ftable (fd_image s fs ps) = fs" "in_proc (fd_image s fs ps) = in_proc s"
  by (simp_all add: fd_image_def fstate.defs fdstate.defs in_proc_def myproc_def sinv_def table_ok_def mlfq_ok_def queue_ok_def
      qbank_def runnables_def cpu_ok_def)

lemma example_pipe:
  "\<exists>s :: fdstate. in_proc s \<and> pipes s 4096 = Some new_pipe"
proof -
  obtain p :: pstate and i where "reach sched_init sched_step p" "held p = {}" "myproc p = Some i" using example_running by blast
  then have "in_proc p" using sched_sys.reach_inv by (auto simp: in_proc_def)
  then have "in_proc (fd_image (fs_image p [] (get_superblock []) []) [] [4096 \<mapsto> new_pipe])" by (simp add: fs_image_proc fd_image_simps)
  then show ?thesis by (intro exI [of _ "fd_image (fs_image p [] (get_superblock []) []) [] [4096 \<mapsto> new_pipe]"]) (simp add: fd_image_simps)
qed

lemma new_pipe_ok: "pipe_ok new_pipe" "pipe_bytes new_pipe = []"
  by (simp_all add: new_pipe_def pipe_ok_def pipe_bytes_def)

text \<open>
  C5: A pipe is first in, first out. After any sequence of entering, resuming, closing and unrelated steps, by any processes in any
  order, the bytes that were stored by the writers are those the readers got, in the same order, followed by those in the pipe, and
  the pipe holds at most \<^verbatim>\<open>PIPESIZE\<close> bytes.
\<close>

theorem pipe_fifo:
  assumes "reach (pipe_start p) (pipe_step p) (s, written, got)" "pipes s p = Some q"
  shows "written = got @ pipe_bytes q \<and> length (pipe_bytes q) \<le> PIPESIZE"
  using pipe_sys.reach_inv [OF assms(1)] assms(2)
  by (auto simp: pipe_inv_def pipe_there_def bytes_in_def pipe_ok_def length_pipe_bytes)

text \<open>
  C29: A write for which the pipe has room stores all its bytes and returns their number, and a read that follows returns the
  first bytes of the pipe, without sleeping; the rest stays in the pipe.
\<close>

theorem pipe_write_then_read:
  assumes "in_proc s" "pipe_there p s" "bs \<noteq> []" "length (bytes_in p s) + length bs \<le> PIPESIZE"
  shows "\<exists>t u. pipewrite p bs s = Inr (int (length bs), t) \<and>
    piperead p n t = Inr (Some (take n (bytes_in p s @ bs)), u) \<and> bytes_in p u = drop n (bytes_in p s @ bs)"
proof -
  obtain t where t: "pipewrite p bs s = Inr (int (length bs), t)" "in_proc t" "pipe_there p t" "bytes_in p t = bytes_in p s @ bs"
    using pipewrite_room [OF assms(1,2,4)] by blast
  then have "bytes_in p t \<noteq> []" using assms(3) by simp
  from piperead_ready [OF t(2,3) this, of n] show ?thesis using t by auto
qed

theorem pipe_write_then_read_witness:
  "\<exists>(s :: fdstate) t u. pipewrite 4096 [1, 2, 3] s = Inr (3, t) \<and> piperead 4096 2 t = Inr (Some [1, 2], u) \<and> bytes_in 4096 u = [3]"
proof -
  obtain s :: fdstate where s: "in_proc s" "pipes s 4096 = Some new_pipe" using example_pipe by blast
  have "pipe_there 4096 s" "bytes_in 4096 s = []" using s(2) new_pipe_ok by (simp_all add: pipe_there_def bytes_in_def)
  then show ?thesis using pipe_write_then_read [OF s(1), of 4096 "[1, 2, 3]" 2] by (auto simp: PIPESIZE_def)
qed

theorem pipe_fifo_witness:
  "\<exists>(s :: fdstate) q. reach (pipe_start 4096) (pipe_step 4096) (s, [1, 2, 3], [1, 2]) \<and> pipes s 4096 = Some q \<and> [1, 2, 3] = [1, 2] @ pipe_bytes q"
proof -
  obtain s :: fdstate where s: "in_proc s" "pipes s 4096 = Some new_pipe" using example_pipe by blast
  have s0: "pipe_there 4096 s" "bytes_in 4096 s = []" using s(2) new_pipe_ok by (simp_all add: pipe_there_def bytes_in_def)
  then obtain t where t: "pipewrite 4096 [1, 2, 3] s = Inr (3, t)" "in_proc t" "pipe_there 4096 t" "bytes_in 4096 t = [1, 2, 3]"
    using pipewrite_room [OF s(1), of 4096 "[1, 2, 3]"] by (auto simp: PIPESIZE_def)
  then obtain u where u: "piperead 4096 2 t = Inr (Some [1, 2], u)" "pipe_there 4096 u" "bytes_in 4096 u = [3]"
    using piperead_ready [OF t(2,3), of 2] by auto
  have w: "pipewrite_enter 4096 [1, 2, 3] s = Inr (Returned 3, t)" and r: "piperead_enter 4096 2 t = Inr (Returned (Some [1, 2]), u)"
    using t(1) u(1) by (auto simp: pipewrite_def piperead_def elim!: bindE_InrE split: progress.splits)
  have "reach (pipe_start 4096) (pipe_step 4096) (s, [], [])"
    using s(2) by (intro reach_init) (simp add: pipe_start_def new_pipe_def)
  from reach_step [OF this step_write [OF w]]
  have "reach (pipe_start 4096) (pipe_step 4096) (t, take (unat (nwrite_of 4096 t - nwrite_of 4096 s)) [1, 2, 3], [])" by simp
  moreover have "take (unat (nwrite_of 4096 t - nwrite_of 4096 s)) [1, 2, 3 :: u8] = [1, 2, 3]"
  proof -
    obtain x where x: "acquire (L_pipe 4096) s = Inr x" "pipewrite_loop 4096 (length [1, 2, 3 :: u8]) [1, 2, 3] x = Inr (Returned 3, t)"
      using w unfolding pipewrite_enter_def by (rule bindE_InrE)
    note e = pipe_eq_views [OF enter_pipes(1) [OF x(1)], of 4096]
    show ?thesis using write_counted(2) [OF x(2)] e s0 t(4) by simp
  qed
  ultimately have "reach (pipe_start 4096) (pipe_step 4096) (t, [1, 2, 3], [])" by simp
  from reach_step [OF this step_read [OF r]]
  have "reach (pipe_start 4096) (pipe_step 4096) (u, [1, 2, 3], [1, 2])" by (simp add: read_bytes_def)
  moreover obtain q where "pipes u 4096 = Some q" using u(2) by (auto simp: pipe_there_def)
  ultimately show ?thesis using pipe_fifo [of 4096 u "[1, 2, 3]" "[1, 2]" q] by blast
qed

end
