(* ===== verification/File_Table.thy ===== *)
theory File_Table
  imports Pipe_Props
begin

text \<open>
  Open files (\<^verbatim>\<open>file.c\<close>) and \<^verbatim>\<open>pipealloc\<close>, which makes two of them. A pointer to a file is its index in
  \<^verbatim>\<open>ftable.file\<close>. The bytes a call copies to the user are its result; \<open>None\<close> stands for \<^verbatim>\<open>-1\<close>. The calls run as
  one process; where a pipe or the log makes it wait, the outcome is \<open>Blocked\<close>.
\<close>

definition upd_file :: "nat \<Rightarrow> (ofile \<Rightarrow> ofile) \<Rightarrow> 'a fdstate_scheme \<Rightarrow> 'a fdstate_scheme" where
  "upd_file f g s = s\<lparr>ftable := (ftable s)[f := g (ftable s ! f)]\<rparr>"

definition filealloc :: "'a fdstate_scheme \<Rightarrow> kerr + nat option \<times> 'a fdstate_scheme" where
  "filealloc s =
     bindE (acquire L_ftable s) (\<lambda>s.
       case scan (\<lambda>f. f_ref f = 0) 0 (ftable s) of
         Some f \<Rightarrow> bindE (release L_ftable (upd_file f (\<lambda>f. f\<lparr>f_ref := 1\<rparr>) s)) (\<lambda>s. Inr (Some f, s))
       | None \<Rightarrow> bindE (release L_ftable s) (\<lambda>s. Inr (None, s)))"

definition filedup :: "nat \<Rightarrow> 'a fdstate_scheme \<Rightarrow> kerr + 'a fdstate_scheme" where
  "filedup f s =
     bindE (acquire L_ftable s) (\<lambda>s.
       if f_ref (ftable s ! f) < 1 then Inl (Panic ''filedup'')
       else release L_ftable (upd_file f (\<lambda>f. f\<lparr>f_ref := f_ref f + 1\<rparr>) s))"

definition fileclose :: "nat \<Rightarrow> 'a fdstate_scheme \<Rightarrow> kerr + 'a fdstate_scheme" where
  "fileclose f s =
     bindE (acquire L_ftable s) (\<lambda>s.
       if f_ref (ftable s ! f) < 1 then Inl (Panic ''fileclose'')
       else if f_ref (ftable s ! f) - 1 > 0 then release L_ftable (upd_file f (\<lambda>f. f\<lparr>f_ref := f_ref f - 1\<rparr>) s)
       else
         (let ff = ftable s ! f in
          bindE (release L_ftable (upd_file f (\<lambda>f. f\<lparr>f_ref := 0, f_type := FD_NONE\<rparr>) s)) (\<lambda>s.
            if f_type ff = FD_PIPE then pipeclose (f_pipe ff) (f_writable ff) s
            else if f_type ff = FD_INODE then bindE (begin_op s) (\<lambda>s. bindE (iput (f_ip ff) s) end_op)
            else Inr s)))"

definition filestat :: "nat \<Rightarrow> 'a fdstate_scheme \<Rightarrow> kerr + stat option \<times> 'a fdstate_scheme" where
  "filestat f s =
     (let ff = ftable s ! f in
      if f_type ff = FD_INODE then
        bindE (ilock (f_ip ff) s) (\<lambda>s.
        let st = stati (f_ip ff) s in
        bindE (iunlock (f_ip ff) s) (\<lambda>s. Inr (Some st, s)))
      else Inr (None, s))"

definition fileread :: "nat \<Rightarrow> int \<Rightarrow> 'a fdstate_scheme \<Rightarrow> kerr + u8 list option \<times> 'a fdstate_scheme" where
  "fileread f n s =
     (let ff = ftable s ! f in
      if \<not> f_readable ff then Inr (None, s)
      else if f_type ff = FD_PIPE then piperead (f_pipe ff) (nat n) s
      else if f_type ff = FD_INODE then
        bindE (ilock (f_ip ff) s) (\<lambda>s.
        bindE (readi (f_ip ff) (f_off (ftable s ! f)) (word_of_int n) s) (\<lambda>(r, s).
        let s = (case r of Some xs \<Rightarrow> upd_file f (\<lambda>ff. ff\<lparr>f_off := f_off ff + of_nat (length xs)\<rparr>) s | None \<Rightarrow> s) in
        bindE (iunlock (f_ip ff) s) (\<lambda>s. Inr (r, s))))
      else Inl (Panic ''fileread''))"

text \<open>The most bytes that \<^verbatim>\<open>filewrite\<close> writes in one transaction.\<close>

definition write_max :: nat where
  "write_max = ((MAXOPBLOCKS - 1 - 1 - 2) div 2) * 512"

function filewrite_loop :: "nat \<Rightarrow> nat \<Rightarrow> u8 list \<Rightarrow> 'a fdstate_scheme \<Rightarrow> kerr + bool \<times> 'a fdstate_scheme" where
  "filewrite_loop f ip bs s =
     (if bs = [] then Inr (True, s)
      else
        (let chunk = take write_max bs in
         bindE (begin_op s) (\<lambda>s.
         bindE (ilock ip s) (\<lambda>s.
         bindE (writei ip chunk (f_off (ftable s ! f)) s) (\<lambda>(r, s).
         let s = (if r > 0 then upd_file f (\<lambda>ff. ff\<lparr>f_off := f_off ff + word_of_int r\<rparr>) s else s) in
         bindE (iunlock ip s) (\<lambda>s.
         bindE (end_op s) (\<lambda>s.
           if r < 0 then Inr (False, s)
           else if r \<noteq> int (length chunk) then Inl (Panic ''short filewrite'')
           else filewrite_loop f ip (drop write_max bs) s)))))))"
  by pat_completeness auto
termination
  by (relation "measure (\<lambda>(f, ip, bs, s). length bs)") (auto simp: write_max_def MAXOPBLOCKS_def)

declare filewrite_loop.simps [simp del]

definition filewrite :: "nat \<Rightarrow> u8 list \<Rightarrow> 'a fdstate_scheme \<Rightarrow> kerr + int \<times> 'a fdstate_scheme" where
  "filewrite f bs s =
     (let ff = ftable s ! f in
      if \<not> f_writable ff then Inr (-1, s)
      else if f_type ff = FD_PIPE then pipewrite (f_pipe ff) bs s
      else if f_type ff = FD_INODE then
        bindE (filewrite_loop f (f_ip ff) bs s) (\<lambda>(done, s). Inr (if done then int (length bs) else -1, s))
      else Inl (Panic ''filewrite''))"

section \<open>Making a pipe\<close>

definition pipe_end :: "u32 \<Rightarrow> bool \<Rightarrow> ofile \<Rightarrow> ofile" where
  "pipe_end p w f = f\<lparr>f_type := FD_PIPE, f_readable := \<not> w, f_writable := w, f_pipe := p\<rparr>"

definition pipealloc :: "'a fdstate_scheme \<Rightarrow> kerr + (nat \<times> nat) option \<times> 'a fdstate_scheme" where
  "pipealloc s =
     bindE (filealloc s) (\<lambda>(r, s).
       case r of
         None \<Rightarrow> Inr (None, s)
       | Some f0 \<Rightarrow>
           bindE (filealloc s) (\<lambda>(r, s).
             case r of
               None \<Rightarrow> bindE (fileclose f0 s) (\<lambda>s. Inr (None, s))
             | Some f1 \<Rightarrow>
                 bindE (kalloc s) (\<lambda>(p, s).
                   if p = 0 then bindE (fileclose f0 s) (\<lambda>s. bindE (fileclose f1 s) (\<lambda>s. Inr (None, s)))
                   else Inr (Some (f0, f1), upd_file f1 (pipe_end p True) (upd_file f0 (pipe_end p False) (set_pipe p new_pipe s))))))"

end
