(* ===== verification/Byte_File.thy ===== *)
theory Byte_File
  imports Disk_Format
begin

text \<open>
  The interface of a file for its clients: a list of bytes, of which a part can be read, and over which bytes can be written at
  any position up to the end. The client lemmas follow from the laws of reading and writing alone.
\<close>

locale byte_file =
  fixes inv :: "'s \<Rightarrow> bool" and data :: "'s \<Rightarrow> u8 list" and ready :: "'s \<Rightarrow> bool" and space :: "nat \<Rightarrow> 's \<Rightarrow> bool"
    and cap :: nat and cost :: "nat \<Rightarrow> nat \<Rightarrow> nat"
    and rd :: "u32 \<Rightarrow> u32 \<Rightarrow> 's \<Rightarrow> kerr + u8 list option \<times> 's" and wr :: "u8 list \<Rightarrow> u32 \<Rightarrow> 's \<Rightarrow> kerr + int \<times> 's"
  assumes cap_small: "cap < 4294967296"
    and read_ok: "inv s \<Longrightarrow> ready s \<Longrightarrow> unat off \<le> length (data s) \<Longrightarrow> unat off + unat len < 4294967296 \<Longrightarrow>
      \<exists>t. rd off len s = Inr (Some (part (unat off) (unat len) (data s)), t) \<and> inv t \<and> ready t \<and> data t = data s"
    and write_ok: "inv s \<Longrightarrow> unat off \<le> length (data s) \<Longrightarrow> unat off + length xs \<le> cap \<Longrightarrow> space (n + cost (unat off) (length xs)) s \<Longrightarrow>
      \<exists>t. wr xs off s = Inr (int (length xs), t) \<and> inv t \<and> ready t \<and> space n t \<and> data t = patch (unat off) xs (data s)"
begin

text \<open>What was written is read, and the bytes around it are the ones from before.\<close>

lemma write_read:
  assumes "inv s" "unat off \<le> length (data s)" "unat off + length xs \<le> cap" "space (n + cost (unat off) (length xs)) s"
  shows "\<exists>t. wr xs off s = Inr (int (length xs), t) \<and> inv t \<and> space n t \<and> (\<exists>u. rd off (of_nat (length xs)) t = Inr (Some xs, u)) \<and>
    (\<forall>a k. unat a + unat k \<le> length (data s) \<longrightarrow> unat a + unat k < 4294967296 \<longrightarrow> unat a + unat k \<le> unat off \<or> unat off + length xs \<le> unat a \<longrightarrow>
      (\<exists>u. rd a k t = Inr (Some (part (unat a) (unat k) (data s)), u)))"
proof -
  obtain t where t: "wr xs off s = Inr (int (length xs), t)" "inv t" "ready t" "space n t" "data t = patch (unat off) xs (data s)"
    using write_ok [OF assms] by blast
  have l: "unat (of_nat (length xs) :: u32) = length xs" using assms(3) cap_small by (intro unat_of_nat_u32) linarith
  have d: "part (unat off) (length xs) (data t) = xs" "unat off \<le> length (data t)" "length (data s) \<le> length (data t)"
    using assms(2) by (auto simp: t(5) part_def patch_def)
  have "\<exists>u. rd off (of_nat (length xs)) t = Inr (Some xs, u)"
    using read_ok [OF t(2,3) d(2), of "of_nat (length xs)"] d(1) assms(3) cap_small l by auto
  moreover have "\<exists>u. rd a k t = Inr (Some (part (unat a) (unat k) (data s)), u)"
    if "unat a + unat k \<le> length (data s)" "unat a + unat k < 4294967296" "unat a + unat k \<le> unat off \<or> unat off + length xs \<le> unat a" for a k
  proof -
    have "part (unat a) (unat k) (data t) = part (unat a) (unat k) (data s)"
      using that(3,1) assms(2) by (auto simp: t(5) part_def patch_def drop_take min_def)
    then show ?thesis using read_ok [OF t(2,3), of a k] that(1,2) d(3) by auto
  qed
  ultimately show ?thesis using t(1,2,4) by blast
qed

text \<open>Appending twice.\<close>

lemma append_twice:
  assumes "inv s" "unat off = length (data s)" "unat off + length xs + length ys \<le> cap"
    and "space (n + cost (unat off + length xs) (length ys) + cost (unat off) (length xs)) s"
  shows "\<exists>t u. wr xs off s = Inr (int (length xs), t) \<and> wr ys (off + of_nat (length xs)) t = Inr (int (length ys), u) \<and> inv u \<and> space n u \<and>
    data u = data s @ xs @ ys"
proof -
  obtain t where t: "wr xs off s = Inr (int (length xs), t)" "inv t" "space (n + cost (unat off + length xs) (length ys)) t" "data t = data s @ xs"
    using write_ok [OF assms(1) _ _ assms(4)] assms(2,3) by (auto simp: patch_def)
  have o: "unat (off + of_nat (length xs)) = unat off + length xs"
    using assms(3) cap_small by (simp add: unat_plus_if' unat_of_nat_u32)
  then show ?thesis
    using write_ok [OF t(2), of "off + of_nat (length xs)" ys n] t assms(2,3) by (auto simp: patch_def)
qed

end

end
