(* ===== verification/File_Props.thy ===== *)
theory File_Props
  imports File_Data File_Table Byte_File
begin

text \<open>
  The properties of files: reading and writing an inode implement reading and writing a list of bytes, what was written is
  read, the allocator hands out free blocks of zeros, and a write stays within the log space of one system call.
\<close>

section \<open>An example file system\<close>

text \<open>
  Sixty-four blocks: the log from 2 to 11, the inodes in block 32, the map of the blocks in 33. The blocks below 34 are in use, and inode 1 is an empty file.
\<close>

definition example_inode :: inode where
  "example_inode = \<lparr>i_dev = 1, i_inum = 1, i_ref = 1, i_lock = \<lparr>sl_locked = False, sl_pid = 0\<rparr>, i_valid = True, i_type = 2, i_major = 0, i_minor = 0,
     i_nlink = 1, i_size = 0, i_addrs = replicate (NDIRECT + 1) 0\<rparr>"

definition example_sb :: superblock where
  "example_sb = \<lparr>sb_size = 64, sb_nblocks = 30, sb_ninodes = 8, sb_nlog = 10, sb_logstart = 2, sb_inodestart = 32, sb_bmapstart = 33\<rparr>"

definition example_map :: "u8 list" where
  "example_map = [255, 255, 255, 255, 3] @ replicate (BSIZE - 5) 0"

definition example_disk :: "u8 list list" where
  "example_disk = (replicate 64 (replicate BSIZE 0))
     [32 := put_dinode (dinode_off 1) (dinode_of example_inode) (replicate BSIZE 0), 33 := example_map]"

definition example_fs :: "pstate \<Rightarrow> fstate" where
  "example_fs p = (fs_image p example_disk example_sb [example_inode])\<lparr>log_size := 10\<rparr>"

lemma boot_tx:
  fixes s :: "'a lstate_scheme"
  assumes "length (bufs s) = Suc NBUF" "\<forall>b \<in> set (bufs s). fresh_buf b" "in_proc s"
    and "length (memdisk s) = unat (disksize s)" "\<forall>d \<in> set (memdisk s). length d = BSIZE"
    and "log_geom s" "length (lh_block s) = LOGSIZE" "lh_n s = 0" "1 \<le> log_outstanding s"
  shows "tx_inv (binit s)" "bcur (binit s) = bdsk s" "bheld (binit s) = {}" "bpinned (binit s) = {}" "trest (binit s) = trest s"
proof -
  note b = binit_ok [OF assms(1-5)]
  show "bcur (binit s) = bdsk s" "bheld (binit s) = {}" "bpinned (binit s) = {}" using b by blast+
  show tr: "trest (binit s) = trest s" using b by (simp add: trest_def)
  note l = brest_log [of "binit s" s]
  have "log_geom (binit s)" "homes (binit s) = []" "length (lh_block (binit s)) = LOGSIZE" "lh_n (binit s) = 0" "log_outstanding (binit s) = log_outstanding s" "log_size (binit s) = log_size s"
    using b l assms(6-8) by (auto simp: log_geom_def homes_def)
  then show "tx_inv (binit s)" using b assms(6,9) by (simp add: tx_inv_def log_shape_def log_geom_def)
qed

lemma example_fs_simps:
  "bufs (example_fs p) = replicate (Suc NBUF) blank_buf" "memdisk (example_fs p) = example_disk" "disksize (example_fs p) = 64" "log_start (example_fs p) = 2"
  "log_size (example_fs p) = 10" "log_outstanding (example_fs p) = 1" "log_dev (example_fs p) = 1" "lh_n (example_fs p) = 0" "lh_block (example_fs p) = replicate LOGSIZE 0"
  "sb (example_fs p) = example_sb" "icache (example_fs p) = [example_inode]" "in_proc (example_fs p) = in_proc p"
proof -
  show "in_proc (example_fs p) = in_proc p"
    unfolding fs_image_proc [of p example_disk example_sb "[example_inode]", symmetric]
    by (simp add: example_fs_def in_proc_def myproc_def sinv_def table_ok_def mlfq_ok_def queue_ok_def qbank_def runnables_def cpu_ok_def)
qed (simp_all add: example_fs_def fs_image_def disk_image_def bstate.defs pstate.defs lstate.defs fstate.defs example_disk_def)

lemma example_disk_blocks: "length example_disk = 64" "\<forall>d \<in> set example_disk. length d = BSIZE" "example_disk ! 33 = example_map"
  "get_dinode (dinode_off 1) (example_disk ! 32) = dinode_of example_inode"
proof -
  have l: "length (di_addrs (dinode_of example_inode)) = NDIRECT + 1" by (simp add: dinode_of_def example_inode_def)
  show "length example_disk = 64" "example_disk ! 33 = example_map" by (simp_all add: example_disk_def)
  have "length example_map = BSIZE" by (simp add: example_map_def BSIZE_def)
  then show "\<forall>d \<in> set example_disk. length d = BSIZE"
    using dinode_in_block [of 1] l by (auto simp: example_disk_def dest!: subsetD [OF set_update_subset_insert])
  show "get_dinode (dinode_off 1) (example_disk ! 32) = dinode_of example_inode"
    using dinode_roundtrip [OF _ l] dinode_in_block [of 1] by (simp add: example_disk_def)
qed

lemma example_boot:
  assumes "in_proc p"
  defines "s \<equiv> binit (example_fs p)"
  shows "tx_inv s" "bcur s b = example_disk ! unat b" "bheld s = {}" "bpinned s = {}" "sb s = example_sb" "icache s = [example_inode]" "disksize s = 64" "log_size s = 10"
    "b \<in> log_area s \<Longrightarrow> unat b < 12"
proof -
  have g: "log_geom (example_fs p)" by (simp add: log_geom_def example_fs_simps LOGSIZE_def MAXOPBLOCKS_def)
  note t = boot_tx [OF _ _ _ _ _ g, folded s_def, simplified example_fs_simps, simplified]
  have pre: "fresh_buf blank_buf" by (simp add: fresh_buf_def blank_buf_def)
  have t': "tx_inv s" "bheld s = {}" "bpinned s = {}" "bcur s = bdsk (example_fs p)" "trest s = trest (example_fs p)"
    using t assms(1) example_disk_blocks(1,2) pre by simp_all
  note c = t'(4) and r = t'(5)
  show "tx_inv s" "bheld s = {}" "bpinned s = {}" by (fact t')+
  show "bcur s b = example_disk ! unat b" by (simp add: c bdsk_def example_fs_simps)
  note f = trest_fsD [OF r]
  show "sb s = example_sb" "icache s = [example_inode]" "disksize s = 64" "log_size s = 10" using f by (simp_all add: example_fs_simps)
  show "unat b < 12" if b: "b \<in> log_area s"
  proof -
    consider "b = 2" | k where "k < 9" "b = of_nat (k + 3)"
      using b unfolding f(4) by (auto simp: log_area_def lblk_def example_fs_simps)
    then show ?thesis
    proof cases
      case 2
      then have "unat b = k + 3" unfolding 2(2) by (intro unat_of_nat_u32) simp
      then show ?thesis using 2(1) by simp
    qed simp
  qed
qed

lemma example_map_bits:
  assumes "x < 64"
  shows "bit_of example_map x \<longleftrightarrow> x < 34"
proof -
  have m: "example_map ! k = (if k < 4 then - 1 else if k = 4 then 3 else 0)" if "k < 8" for k
  proof -
    have "(255 :: u8) = - 1" by simp
    moreover have "k \<in> {0, 1, 2, 3, 4, 5, 6, 7}" using that by auto
    ultimately show ?thesis by (auto simp: example_map_def BSIZE_def)
  qed
  have "(3 :: u8) = mask 2" by (simp add: mask_eq_exp_minus_1)
  then have b3: "bit (3 :: u8) n \<longleftrightarrow> n < 2" for n using bit_mask_iff [of 2 n, where 'a = u8] by auto
  have d: "x div 8 < 8" "x = 8 * (x div 8) + x mod 8" "x mod 8 < 8" using assms by auto
  consider "x div 8 < 4" | "x div 8 = 4" | "4 < x div 8" by linarith
  then show ?thesis
  proof cases
    case 1
    then have "x < 34" using d by linarith
    then show ?thesis using 1 m [OF d(1)] d(3) by (simp add: bit_of_iff)
  next
    case 2
    then have "x < 34 \<longleftrightarrow> x mod 8 < 2" using d by linarith
    then show ?thesis using 2 m [OF d(1)] b3 [of "x mod 8"] unfolding bit_of_iff by simp
  next
    case 3
    then have "\<not> x < 34" using d by linarith
    then show ?thesis using 3 m [OF d(1)] by (simp add: bit_of_iff)
  qed
qed

lemma example_BBLOCK: "x < 64 \<Longrightarrow> BBLOCK (of_nat x) example_sb = 33"
proof -
  assume x: "x < 64"
  then have "unat (of_nat x :: u32) = x" by (intro unat_of_nat_u32) simp
  then have "(of_nat x :: u32) div of_nat BPB = 0" using x by (simp add: word_unat_eq_iff unat_div BPB_def BSIZE_def)
  then show ?thesis by (simp add: BBLOCK_def example_sb_def)
qed

lemma example_used:
  assumes "in_proc p" "x < 64"
  shows "used example_sb (bcur (binit (example_fs p))) x \<longleftrightarrow> x < 34"
  using assms(2) example_map_bits [OF assms(2)] example_BBLOCK [OF assms(2)]
  by (simp add: used_def example_boot(2) [OF assms(1)] example_disk_blocks(3) BPB_def BSIZE_def)

lemma example_map_inv:
  assumes "in_proc p"
  defines "s \<equiv> binit (example_fs p)"
  shows "map_blocks (sb s) = {33}" "32 \<notin> log_area s" "33 \<notin> log_area s" "unat (sb_size (sb s)) = 64" "map_inv {32} s"
proof -
  note e = example_boot [OF assms(1), folded s_def]
  show sz: "unat (sb_size (sb s)) = 64" by (simp add: e(5) example_sb_def)
  have "(\<lambda>b. BBLOCK (of_nat b) example_sb) ` {..<64} = (\<lambda>_. 33) ` {..<64::nat}" by (rule image_cong) (simp_all add: example_BBLOCK)
  then show m: "map_blocks (sb s) = {33}" using sz by (simp add: map_blocks_def e(5) image_constant_conv lessThan_empty_iff)
  show la: "32 \<notin> log_area s" "33 \<notin> log_area s" using e(9) [of 32] e(9) [of 33] by auto
  have mo: "map_ok s" using la m by (simp add: map_ok_def e(5,7) example_sb_def BPB_def BSIZE_def)
  have "used (sb s) (bcur s) x" if "x < 64" "of_nat x \<in> insert 0 (log_area s \<union> {32, 33})" for x
  proof -
    have ux: "unat (of_nat x :: u32) = x" using that(1) by (intro unat_of_nat_u32) simp
    have "unat (of_nat x :: u32) < 34" using that(2) e(9) [of "of_nat x"] by (elim insertE UnE) simp_all
    then show ?thesis using example_used [OF assms(1) that(1), folded s_def] ux by (simp add: e(5))
  qed
  then show "map_inv {32} s" unfolding map_inv_def sz m e(3) using e(1) mo by auto
qed

lemma example_file:
  assumes "in_proc p"
  defines "s \<equiv> binit (example_fs p)"
  shows "file_inv 0 s" "fdata 0 s = []" "iblk 0 s = 32" "addrs 0 s ! NDIRECT = 0"
proof -
  note e = example_boot [OF assms(1), folded s_def] and m = example_map_inv [OF assms(1), folded s_def]
  have z: "length (addrs 0 s) = NDIRECT + 1" "j \<le> NDIRECT \<Longrightarrow> addrs 0 s ! j = 0" "i_size (icache s ! 0) = 0" for j
    by (simp_all add: e(6) example_inode_def del: replicate.simps)
  then show "addrs 0 s ! NDIRECT = 0" by simp
  have b: "baddr (bcur s) (addrs 0 s) = (\<lambda>_. 0)" using z(2) by (auto simp: baddr_def)
  then have o: "own (bcur s) (addrs 0 s) = {}" using z(2) by (auto simp: own_def)
  show i: "iblk 0 s = 32" by (simp add: e(5,6) IBLOCK_def example_inode_def example_sb_def IPB_def)
  show "fdata 0 s = []" by (simp add: fdata_def z)
  have "file_ok 0 s" unfolding file_ok_def i o tree_def b using m(5) z(1) by (simp add: e(6)) (simp add: example_inode_def)
  moreover have "synced 0 s"
    using example_disk_blocks(4) unfolding synced_def i by (simp add: e(2) e(6)) (simp add: example_inode_def)
  ultimately show "file_inv 0 s"
    unfolding file_inv_def i m(1) using m(2) by (simp add: e(3,6,7) no_hole_def example_inode_def T_DEV_def)
qed

lemma example_budget:
  assumes "in_proc p"
  defines "s \<equiv> binit (example_fs p)"
  shows "budget {32, 33} 1 0 s" "room {32, 33} 1 s" "34 \<in> free_blocks s"
proof -
  note e = example_boot [OF assms(1), folded s_def] and m = example_map_inv [OF assms(1), folded s_def]
  show "room {32, 33} 1 s" by (simp add: room_def e(3,4,8) NBUF_def MAXOPBLOCKS_def)
  have f: "{34, 35} \<subseteq> free_blocks s"
    using example_used [OF assms(1), of 34] example_used [OF assms(1), of 35] m(4) e(5) by (simp add: free_blocks_def flip: s_def)
  then show "34 \<in> free_blocks s" by simp
  have "card {34, 35::nat} \<le> card (free_blocks s)" using f by (intro card_mono) simp_all
  then show "budget {32, 33} 1 0 s"
    using example_file(4) [OF assms(1), folded s_def] by (simp add: budget_def ind_need_def m(1) room_def e(3,4,8) NBUF_def MAXOPBLOCKS_def)
qed

lemma example_exists: "\<exists>p :: pstate. in_proc p"
proof -
  obtain p :: pstate and i where "reach sched_init sched_step p" "held p = {}" "myproc p = Some i" using example_running by blast
  then have "in_proc p" using sched_sys.reach_inv by (auto simp: in_proc_def)
  then show ?thesis by blast
qed

section \<open>The block allocator\<close>

text \<open>
  C16: \<^verbatim>\<open>balloc\<close> returns the lowest block whose bit in the map is clear, marks it and no other one as used, fills it with zeros, and
  changes no block but that one and the map.
\<close>

theorem balloc_takes_lowest_free:
  assumes "map_inv K s" "free_blocks s \<noteq> {}" "map_blocks (sb s) \<subseteq> R" "room R 1 s"
  shows "\<exists>t. balloc 1 s = Inr (of_nat (Min (free_blocks s)), t) \<and> free_blocks t = free_blocks s - {Min (free_blocks s)} \<and>
    bcur t (of_nat (Min (free_blocks s))) = replicate BSIZE 0 \<and>
    (\<forall>b. b \<notin> insert (of_nat (Min (free_blocks s))) (map_blocks (sb s)) \<longrightarrow> bcur t b = bcur s b)"
proof -
  obtain x t where x: "balloc 1 s = Inr (of_nat x, t)" "x \<in> free_blocks s" "\<forall>y < x. y \<notin> free_blocks s" "free_blocks t = free_blocks s - {x}"
    "bcur t (of_nat x) = replicate BSIZE 0" "\<forall>b. b \<notin> insert (of_nat x) (map_blocks (sb s)) \<longrightarrow> bcur t b = bcur s b"
    using balloc_ok [OF assms(1-3), of 0] assms(4) by auto
  have "Min (free_blocks s) = x" using x(2,3) by (intro Min_eqI) (auto simp: not_less [symmetric])
  then show ?thesis using x(1,4-6) by simp
qed

theorem balloc_takes_lowest_free_witness:
  "\<exists>(s :: fstate) t. balloc 1 s = Inr (34, t) \<and> 34 \<in> free_blocks s \<and> 34 \<notin> free_blocks t \<and> bcur t 34 = replicate BSIZE 0"
proof -
  obtain p :: pstate where p: "in_proc p" using example_exists by blast
  let ?s = "binit (example_fs p)"
  note m = example_map_inv [OF p] and b = example_budget [OF p]
  have "Min (free_blocks ?s) = 34"
    using b(3) example_used [OF p] m(4) example_boot(5) [OF p] by (intro Min_eqI) (auto simp: free_blocks_def not_less [symmetric])
  moreover have "free_blocks ?s \<noteq> {}" using b(3) by blast
  ultimately obtain t where "balloc 1 ?s = Inr (34, t)" "free_blocks t = free_blocks ?s - {34}" "bcur t 34 = replicate BSIZE 0"
    using balloc_takes_lowest_free [OF m(5) _ _ b(2)] m(1) by auto
  then show ?thesis using b(3) by blast
qed

text \<open>
  C36: Freeing a block gives it back to the map and leaves every other block alone; freeing it once more panics.
\<close>

theorem double_free_panics:
  assumes "map_inv K s" "b < unat (sb_size (sb s))" "used (sb s) (bcur s) b" "map_blocks (sb s) \<subseteq> R" "room R n s"
    and "of_nat b \<notin> insert 0 (bheld s \<union> log_area s \<union> map_blocks (sb s) \<union> K)"
  shows "\<exists>t. bfree 1 (of_nat b) s = Inr t \<and> free_blocks t = insert b (free_blocks s) \<and> (\<forall>c. c \<notin> map_blocks (sb s) \<longrightarrow> bcur t c = bcur s c) \<and>
    bfree 1 (of_nat b) t = Inl (Panic ''freeing free block'')"
proof -
  obtain t where t: "bfree 1 (of_nat b) s = Inr t" "map_inv K t" "free_blocks t = insert b (free_blocks s)" "trest t = trest s" "room R n t"
    "\<forall>c. c \<notin> map_blocks (sb s) \<longrightarrow> bcur t c = bcur s c"
    using bfree_ok [OF assms] by blast
  have "\<not> used (sb t) (bcur t) b" using t(3) by (auto simp: free_blocks_def)
  then have "bfree 1 (of_nat b) t = Inl (Panic ''freeing free block'')"
    using bfree_eq(2) [of t b R n] t(2,5) assms(2,4) trest_fsD(1) [OF t(4)] by (simp add: map_inv_def)
  then show ?thesis using t by blast
qed

theorem double_free_panics_witness:
  "\<exists>(s :: fstate) t. bfree 1 12 s = Inr t \<and> 12 \<in> free_blocks t \<and> bfree 1 12 t = Inl (Panic ''freeing free block'')"
proof -
  obtain p :: pstate where p: "in_proc p" using example_exists by blast
  let ?s = "binit (example_fs p)"
  note m = example_map_inv [OF p] and b = example_budget [OF p] and e = example_boot [OF p]
  have "used (sb ?s) (bcur ?s) 12" using example_used [OF p, of 12] e(5) by simp
  moreover have "12 \<notin> log_area ?s" using e(9) [of 12] by auto
  ultimately obtain t where "bfree 1 12 ?s = Inr t" "free_blocks t = insert 12 (free_blocks ?s)" "bfree 1 12 t = Inl (Panic ''freeing free block'')"
    using double_free_panics [OF m(5), of 12 "{32, 33}" 1] b(2) m(1,4) e(3) by auto
  then show ?thesis by blast
qed

section \<open>Files as lists of bytes\<close>

definition can_read :: "'a fstate_scheme \<Rightarrow> bool" where
  "can_read s \<longleftrightarrow> (\<exists>R. room R 0 s)"

definition can_write :: "nat \<Rightarrow> nat \<Rightarrow> 'a fstate_scheme \<Rightarrow> bool" where
  "can_write ip n s \<longleftrightarrow> (\<exists>R. budget R n ip s \<and> iblk ip s \<in> R)"

lemma budget_can_read: "budget R n ip s \<Longrightarrow> can_read s"
  by (auto simp: budget_def can_read_def elim: room_less)

lemma readi_part:
  assumes "file_inv ip s" "can_read s" "unat off \<le> length (fdata ip s)" "unat off + unat n < 4294967296"
  shows "\<exists>t. readi ip off n s = Inr (Some (part (unat off) (unat n) (fdata ip s)), t) \<and> tx_inv t \<and> tx_view t = tx_view s"
proof -
  have "\<not> i_size (icache s ! ip) < off" "\<not> off + n < off" using assms(3,4) by (auto simp: word_less_nat_alt unat_plus_if')
  then show ?thesis using readi_ok [OF assms(1), of _ 0 off n] assms(2) by (auto simp: can_read_def part_def)
qed

lemma can_read_view: "tx_view t = tx_view s \<Longrightarrow> can_read t = can_read s"
  using room_view [of t s] by (simp add: can_read_def)

lemma wrote_iblk:
  assumes "wrote ip xs s t" "file_inv ip s"
  shows "iblk ip t = iblk ip s"
proof -
  obtain as z where r: "trest t = (trest s)\<lparr>icache := (icache s)[ip := (icache s ! ip)\<lparr>i_addrs := as, i_size := z\<rparr>]\<rparr>" using assms(1) unfolding wrote_def by blast
  show ?thesis using trest_ic(1,2) [OF r] file_okD(1) [OF file_invD(1) [OF assms(2)]] by simp
qed

interpretation ibytes: byte_file "file_inv ip" "fdata ip" can_read "can_write ip" "MAXFILE * BSIZE" chunks "readi ip" "writei ip" for ip
proof
  show "MAXFILE * BSIZE < 4294967296" by (simp add: MAXFILE_def NDIRECT_def NINDIRECT_def BSIZE_def)
  show "\<exists>t. readi ip off len s = Inr (Some (part (unat off) (unat len) (fdata ip s)), t) \<and> file_inv ip t \<and> can_read t \<and> fdata ip t = fdata ip s"
    if "file_inv ip s" "can_read s" "unat off \<le> length (fdata ip s)" "unat off + unat len < 4294967296" for s :: "'a fstate_scheme" and off len
    using readi_part [OF that] file_inv_view [OF that(1)] can_read_view that(2) by blast
  show "\<exists>t. writei ip xs off s = Inr (int (length xs), t) \<and> file_inv ip t \<and> can_read t \<and> can_write ip n t \<and> fdata ip t = patch (unat off) xs (fdata ip s)"
    if w: "file_inv ip s" "unat off \<le> length (fdata ip s)" "unat off + length xs \<le> MAXFILE * BSIZE" "can_write ip (n + chunks (unat off) (length xs)) s"
    for s :: "'a fstate_scheme" and off xs n
  proof -
    obtain R where R: "budget R (n + chunks (unat off) (length xs)) ip s" "iblk ip s \<in> R" using w(4) by (auto simp: can_write_def)
    obtain t where t: "writei ip xs off s = Inr (int (length xs), t)" "wrote ip (patch (unat off) xs (fdata ip s)) s t" "budget R n ip t"
      using writei_ok [OF w(1) _ w(3) R] w(2) by auto
    then have "iblk ip t = iblk ip s" using wrote_iblk [OF _ w(1)] by blast
    then show ?thesis using t R(2) budget_can_read [OF t(3)] by (auto simp: wrote_def can_write_def)
  qed
qed

text \<open>
  C8: \<^verbatim>\<open>readi\<close> of an inode that is not a device returns the bytes of the file from \<^verbatim>\<open>off\<close> on, at most \<^verbatim>\<open>n\<close> and none past the end, and
  \<^verbatim>\<open>-1\<close> exactly if \<^verbatim>\<open>off\<close> is past the end or \<^verbatim>\<open>off + n\<close> wraps. The file and the contents of all blocks stay as they are.
\<close>

theorem readi_refines:
  assumes "file_inv ip s" "room R n s"
  shows "\<exists>t. readi ip off k s = Inr (if unat off > length (fdata ip s) \<or> unat off + unat k \<ge> 4294967296 then None
      else Some (take (unat k) (drop (unat off) (fdata ip s))), t) \<and>
    file_inv ip t \<and> fdata ip t = fdata ip s \<and> bcur t = bcur s"
proof -
  have "off + k < off \<longleftrightarrow> 4294967296 \<le> unat off + unat k"
    using unat_u32_bound [of k] unat_u32_bound [of off] by (auto simp: word_less_nat_alt unat_plus_if')
  then obtain t where t: "readi ip off k s = Inr (if unat off > length (fdata ip s) \<or> unat off + unat k \<ge> 4294967296 then None
      else Some (take (unat k) (drop (unat off) (fdata ip s))), t)" "tx_inv t" "tx_view t = tx_view s"
    using readi_ok [OF assms, of off k] by (auto simp: word_less_nat_alt)
  then show ?thesis using file_inv_view [OF assms(1) t(2,3)] viewD(1) [OF t(3)] by auto
qed

theorem readi_refines_witness:
  "\<exists>(s :: fstate) t u. readi 0 0 5 s = Inr (Some [], t) \<and> readi 0 1 5 s = Inr (None, u)"
proof -
  obtain p :: pstate where p: "in_proc p" using example_exists by blast
  note r = readi_refines [OF example_file(1) [OF p] example_budget(2) [OF p], unfolded example_file(2) [OF p]]
  show ?thesis using r [of 0 5] r [of 1 5] by auto
qed

text \<open>
  C2: \<^verbatim>\<open>writei\<close> at a position in the file writes all bytes, with the blocks that it needs taken from the free ones: afterwards the contents are the
  old ones with the new bytes over them, the size has grown as far as needed, the copy of the inode on the disk is the one in memory (both are
  part of \<open>file_inv\<close>), and no block but those of the file, of the map and of the inode has changed.
\<close>

theorem writei_refines:
  assumes "file_inv ip s" "unat off \<le> length (fdata ip s)" "unat off + length src \<le> MAXFILE * BSIZE"
    and "budget R (chunks (unat off) (length src)) ip s" "iblk ip s \<in> R"
  shows "\<exists>t. writei ip src off s = Inr (int (length src), t) \<and> file_inv ip t \<and> fdata ip t = patch (unat off) src (fdata ip s) \<and>
    own (bcur t) (addrs ip t) \<subseteq> own (bcur s) (addrs ip s) \<union> of_nat ` free_blocks s \<and>
    (\<forall>b. b \<notin> insert (iblk ip s) (map_blocks (sb s) \<union> own (bcur t) (addrs ip t)) \<longrightarrow> bcur t b = bcur s b)"
  using writei_ok [OF assms(1) _ assms(3), of R 0] assms(2,4,5) by (auto simp: wrote_def)

theorem writei_refines_witness:
  "\<exists>(s :: fstate) t. fdata 0 s = [] \<and> writei 0 [104, 105] 0 s = Inr (2, t) \<and> fdata 0 t = [104, 105]"
proof -
  obtain p :: pstate where p: "in_proc p" using example_exists by blast
  let ?s = "binit (example_fs p)"
  have "chunks 0 (Suc (Suc 0)) = Suc 0" by (simp add: chunks_def BSIZE_def)
  then obtain t where "writei 0 [104, 105] 0 ?s = Inr (2, t)" "fdata 0 t = patch 0 [104, 105] (fdata 0 ?s)"
    using writei_refines [OF example_file(1) [OF p], of 0 "[104, 105]" "{32, 33}"] example_budget(1) [OF p] example_file(3) [OF p]
    by (auto simp: MAXFILE_def NDIRECT_def NINDIRECT_def BSIZE_def)
  then show ?thesis using example_file(2) [OF p] by (auto simp: patch_def)
qed

text \<open>
  C9: After \<^verbatim>\<open>writei\<close>, a \<^verbatim>\<open>readi\<close> of the same range returns the bytes that were written, and a \<^verbatim>\<open>readi\<close> of any other range of the old file
  returns what the file had there before.
\<close>

theorem file_write_then_read:
  assumes "file_inv ip s" "unat off \<le> length (fdata ip s)" "unat off + length src \<le> MAXFILE * BSIZE"
    and "budget R (chunks (unat off) (length src)) ip s" "iblk ip s \<in> R"
  shows "\<exists>t. writei ip src off s = Inr (int (length src), t) \<and> (\<exists>u. readi ip off (of_nat (length src)) t = Inr (Some src, u)) \<and>
    (\<forall>a k. unat a + unat k \<le> length (fdata ip s) \<longrightarrow> unat a + unat k \<le> unat off \<or> unat off + length src \<le> unat a \<longrightarrow>
      (\<exists>u. readi ip a k t = Inr (Some (part (unat a) (unat k) (fdata ip s)), u)))"
proof -
  have "can_write ip (0 + chunks (unat off) (length src)) s" using assms(4,5) by (auto simp: can_write_def)
  note w = ibytes.write_read [OF assms(1-3) this]
  have "length (fdata ip s) < 4294967296" by (simp add: unat_u32_bound)
  then have "unat (a :: u32) + unat (k :: u32) \<le> length (fdata ip s) \<Longrightarrow> unat a + unat k < 4294967296" for a k by linarith
  then show ?thesis using w by blast
qed

theorem file_write_then_read_witness:
  "\<exists>(s :: fstate) t u. writei 0 [104, 105] 0 s = Inr (2, t) \<and> readi 0 0 2 t = Inr (Some [104, 105], u)"
proof -
  obtain p :: pstate where p: "in_proc p" using example_exists by blast
  have "chunks 0 (Suc (Suc 0)) = Suc 0" by (simp add: chunks_def BSIZE_def)
  then show ?thesis
    using file_write_then_read [OF example_file(1) [OF p], of 0 "[104, 105]" "{32, 33}"] example_budget(1) [OF p] example_file(3) [OF p]
    by (auto simp: MAXFILE_def NDIRECT_def NINDIRECT_def BSIZE_def)
qed

text \<open>The blocks that a range of bytes meets are at most \<open>chunks\<close> many.\<close>

lemma card_chunks: "card ((\<lambda>i. g (i div BSIZE)) ` {off..<off + n}) \<le> chunks off n"
proof (cases "n = 0")
  case False
  have z: "(q * BSIZE + r) div BSIZE = q + r div BSIZE" for q r using BSIZE_pos by simp
  have "i div BSIZE < off div BSIZE + chunks off n" if "i < off + n" for i
  proof -
    have "off div BSIZE + chunks off n = (off div BSIZE * BSIZE + (off mod BSIZE + n + BSIZE - 1)) div BSIZE" 
      using False z [of "off div BSIZE" "off mod BSIZE + n + BSIZE - 1"] by (simp only: chunks_def if_False)
    also have "off div BSIZE * BSIZE + (off mod BSIZE + n + BSIZE - 1) = off + n + BSIZE - 1" using False BSIZE_pos div_mult_mod_eq [of off BSIZE] by linarith
    also have "(off + n + BSIZE - 1) div BSIZE \<ge> (i + BSIZE) div BSIZE" using that by (intro div_le_mono) linarith
    also have "(i + BSIZE) div BSIZE = i div BSIZE + 1" by (rule div_add_self2) (simp add: BSIZE_def)
    finally show ?thesis by simp
  qed
  then have "(\<lambda>i. i div BSIZE) ` {off..<off + n} \<subseteq> {off div BSIZE..<off div BSIZE + chunks off n}" by (auto intro: div_le_mono)
  then have "card ((\<lambda>i. i div BSIZE) ` {off..<off + n}) \<le> chunks off n" using card_mono [of "{off div BSIZE..<off div BSIZE + chunks off n}"] by fastforce
  moreover have "(\<lambda>i. g (i div BSIZE)) ` {off..<off + n} = g ` (\<lambda>i. i div BSIZE) ` {off..<off + n}" by (simp add: image_image)
  ultimately show ?thesis using card_image_le [of "(\<lambda>i. i div BSIZE) ` {off..<off + n}" g] by simp
qed simp

lemma chunks_write_max: "n \<le> write_max \<Longrightarrow> chunks off n \<le> 4"
proof -
  assume n: "n \<le> write_max"
  have "off mod BSIZE < 512" by (simp add: BSIZE_def)
  moreover have "write_max = 1536" by (simp add: write_max_def MAXOPBLOCKS_def)
  ultimately have "off mod BSIZE + n + BSIZE - 1 < 5 * BSIZE" using n by (simp add: BSIZE_def)
  then have "(off mod BSIZE + n + BSIZE - 1) div BSIZE < 5" by (rule less_mult_imp_div_less)
  then show "chunks off n \<le> 4" by (simp add: chunks_def)
qed

text \<open>
  C13: \<^verbatim>\<open>filewrite\<close> writes a file in pieces, each in a transaction of its own. The piece size is chosen so that a piece fits the log space that \<^verbatim>\<open>begin_op\<close>
  reserves: one \<^verbatim>\<open>writei\<close> of a piece adds at most \<^verbatim>\<open>MAXOPBLOCKS\<close> blocks to the log, on a disk whose map has at most four blocks.
\<close>

theorem write_piece_fits_log:
  assumes "file_inv ip s" "unat off \<le> length (fdata ip s)" "unat off + length src \<le> MAXFILE * BSIZE"
    and "budget R (chunks (unat off) (length src)) ip s" "iblk ip s \<in> R" "length src \<le> write_max" "card (map_blocks (sb s)) \<le> 4"
  shows "\<exists>t. writei ip src off s = Inr (int (length src), t) \<and> card (bpinned t - bpinned s) \<le> MAXOPBLOCKS"
proof -
  obtain t where t: "writei ip src off s = Inr (int (length src), t)"
    "bpinned t \<subseteq> insert (iblk ip s) (bpinned s \<union> map_blocks (sb s) \<union> (insert (addrs ip t ! NDIRECT) ((\<lambda>i. baddr (bcur t) (addrs ip t) (i div BSIZE)) ` {unat off..<unat off + length src}) - {0}))"
    using writei_ok [OF assms(1) _ assms(3), of R 0] assms(2,4,5) by auto
  let ?I = "(\<lambda>i. baddr (bcur t) (addrs ip t) (i div BSIZE)) ` {unat off..<unat off + length src}"
  have f: "finite (map_blocks (sb s))" by (simp add: map_blocks_def)
  have "bpinned t - bpinned s \<subseteq> insert (iblk ip s) (insert (addrs ip t ! NDIRECT) (map_blocks (sb s) \<union> ?I))" using t(2) by blast
  then have "card (bpinned t - bpinned s) \<le> card (insert (iblk ip s) (insert (addrs ip t ! NDIRECT) (map_blocks (sb s) \<union> ?I)))" using f by (intro card_mono) simp_all
  also have "\<dots> \<le> Suc (Suc (card (map_blocks (sb s) \<union> ?I)))" using f by (simp add: card_insert_if)
  also have "\<dots> \<le> Suc (Suc (4 + 4))"
    using card_Un_le [of "map_blocks (sb s)" ?I] assms(7) card_chunks [of "baddr (bcur t) (addrs ip t)" "unat off" "length src"] chunks_write_max [OF assms(6), of "unat off"] by linarith
  finally show ?thesis using t(1) by (simp add: MAXOPBLOCKS_def)
qed

theorem write_piece_fits_log_witness:
  "\<exists>(s :: fstate) t. writei 0 [104, 105] 0 s = Inr (2, t) \<and> bpinned s = {} \<and> card (bpinned t) \<le> 10"
proof -
  obtain p :: pstate where p: "in_proc p" using example_exists by blast
  have "chunks 0 (Suc (Suc 0)) = Suc 0" by (simp add: chunks_def BSIZE_def)
  then show ?thesis
    using write_piece_fits_log [OF example_file(1) [OF p], of 0 "[104, 105]" "{32, 33}"] example_budget(1) [OF p] example_file(3) [OF p]
      example_map_inv(1) [OF p] example_boot(4) [OF p]
    by (auto simp: MAXFILE_def NDIRECT_def NINDIRECT_def BSIZE_def write_max_def MAXOPBLOCKS_def)
qed

end
