(* ===== verification/Path_Elems.thy ===== *)
theory Path_Elems
  imports Inode_Io
begin

text \<open>
  What \<^verbatim>\<open>skipelem\<close> makes of a path: taking one element after the other, as the loop of \<^verbatim>\<open>namex\<close> does, gives the pieces between the slashes,
  without the empty ones and cut to \<^verbatim>\<open>DIRSIZ\<close> bytes.
\<close>

fun pieces :: "u8 list \<Rightarrow> u8 list list" where
  "pieces [] = [[]]"
| "pieces (c # cs) = (if slash c then [] # pieces cs else (c # hd (pieces cs)) # tl (pieces cs))"

function elems :: "u8 list \<Rightarrow> u8 list list" where
  "elems pth = (case skipelem pth of None \<Rightarrow> [] | Some (name, rest) \<Rightarrow> name # elems rest)"
  by pat_completeness auto
termination
  by (relation "measure length") (auto dest: skipelem_shorter)

declare elems.simps [simp del]

lemma pieces_slashes: "filter (\<lambda>p. p \<noteq> []) (pieces (dropWhile slash xs)) = filter (\<lambda>p. p \<noteq> []) (pieces xs)"
  by (induction xs) auto

lemma pieces_first:
  "pieces xs = takeWhile (Not \<circ> slash) xs # (case dropWhile (Not \<circ> slash) xs of [] \<Rightarrow> [] | _ # r \<Rightarrow> pieces r)"
  by (induction xs) (auto split: list.split)

lemma pieces_rest:
  "filter (\<lambda>p. p \<noteq> []) (pieces (dropWhile slash (dropWhile (Not \<circ> slash) xs))) =
   filter (\<lambda>p. p \<noteq> []) (case dropWhile (Not \<circ> slash) xs of [] \<Rightarrow> [] | _ # r \<Rightarrow> pieces r)"
proof (cases "dropWhile (Not \<circ> slash) xs")
  case (Cons c r)
  then have "slash c" by (metis comp_apply dropWhile_eq_Cons_conv)
  then show ?thesis using Cons by (simp add: pieces_slashes)
qed (simp del: dropWhile_eq_Nil_conv)

text \<open>
  C27: The elements that \<^verbatim>\<open>skipelem\<close> takes off a path one by one are the non-empty pieces between slashes in order, each cut to \<^verbatim>\<open>DIRSIZ\<close> bytes;
  the path that is left never begins with a slash, so that it is empty exactly at the last element.
\<close>

theorem path_elements:
  "elems pth = map (take DIRSIZ) (filter (\<lambda>p. p \<noteq> []) (pieces pth)) \<and>
   (case skipelem pth of None \<Rightarrow> elems pth = [] | Some (name, rest) \<Rightarrow> elems pth = name # elems rest \<and> name \<noteq> [] \<and> (rest = [] \<or> \<not> slash (hd rest)))"
proof
  show "elems pth = map (take DIRSIZ) (filter (\<lambda>p. p \<noteq> []) (pieces pth))"
  proof (induction pth rule: elems.induct)
    case (1 pth)
    show ?case
    proof (cases "dropWhile slash pth")
      case Nil
      then show ?thesis using pieces_slashes [of pth, symmetric] by (simp add: elems.simps [of pth] skipelem_def del: dropWhile_eq_Nil_conv)
    next
      case (Cons c cs)
      then have nc: "\<not> slash c" by (metis dropWhile_eq_Cons_conv)
      let ?n = "takeWhile (Not \<circ> slash) (c # cs)" and ?r = "dropWhile slash (dropWhile (Not \<circ> slash) (c # cs))"
      have s: "skipelem pth = Some (take DIRSIZ ?n, ?r)" using Cons by (simp add: skipelem_def)
      have "elems pth = take DIRSIZ ?n # map (take DIRSIZ) (filter (\<lambda>p. p \<noteq> []) (pieces ?r))"
        using 1 [OF s refl] by (subst elems.simps) (simp only: s option.case prod.case)
      also have "\<dots> = map (take DIRSIZ) (filter (\<lambda>p. p \<noteq> []) (pieces (c # cs)))"
        unfolding pieces_rest by (subst pieces_first [of "c # cs"]) (simp add: nc)
      also have "filter (\<lambda>p. p \<noteq> []) (pieces (c # cs)) = filter (\<lambda>p. p \<noteq> []) (pieces pth)" using pieces_slashes [of pth] Cons by simp
      finally show ?thesis .
    qed
  qed
  show "case skipelem pth of None \<Rightarrow> elems pth = [] | Some (name, rest) \<Rightarrow> elems pth = name # elems rest \<and> name \<noteq> [] \<and> (rest = [] \<or> \<not> slash (hd rest))"
  proof (cases "dropWhile slash pth")
    case Nil
    then show ?thesis by (simp add: elems.simps [of pth] skipelem_def del: dropWhile_eq_Nil_conv)
  next
    case (Cons c cs)
    then have "\<not> slash c" by (metis dropWhile_eq_Cons_conv)
    then show ?thesis using Cons hd_dropWhile [of slash] by (subst elems.simps) (auto simp: skipelem_def DIRSIZ_def)
  qed
qed

theorem path_elements_witness:
  "elems [47, 97, 47, 47, 98, 99] = [[97], [98, 99]] \<and> skipelem [47, 97, 47, 47, 98, 99] = Some ([97], [98, 99])"
proof -
  have "skipelem [47, 97, 47, 47, 98, 99] = Some ([97], [98, 99])" by (simp add: skipelem_def slash_def DIRSIZ_def)
  moreover have "elems [47, 97, 47, 47, 98, 99] = [[97], [98, 99]]"
    using path_elements [of "[47, 97, 47, 47, 98, 99]"] by (simp add: slash_def DIRSIZ_def)
  ultimately show ?thesis by simp
qed

end
