(* ===== verification/Syscall_Args.thy ===== *)
theory Syscall_Args
  imports File_Table
begin

text \<open>
  How the kernel gets at the memory of the process that made a system call (\<^verbatim>\<open>syscall.c\<close>): the arguments on its stack, pointers and strings.
  The kernel runs on the page table of the process, so that an access to a user address goes through the
  page table that the register \<^verbatim>\<open>cr3\<close> names; an address that is not mapped is a page fault. A result \<open>None\<close>
  is \<^verbatim>\<open>-1\<close>.
\<close>

section \<open>User memory\<close>

definition user_addr :: "u32 \<Rightarrow> 'a vm_scheme \<Rightarrow> kerr + u32" where
  "user_addr va s =
     bindE (walkpgdir (P2V (cr3 s)) va False s) (\<lambda>(pte, s).
       if pte = 0 \<or> load pte s AND PTE_P = 0 then Inl PageFault
       else Inr (P2V (PTE_ADDR (load pte s)) + (va - PGROUNDDOWN va)))"

definition uload8 :: "u32 \<Rightarrow> 'a vm_scheme \<Rightarrow> kerr + u8" where
  "uload8 va s = bindE (user_addr va s) (\<lambda>a. Inr (mem s a))"

fun uload :: "nat \<Rightarrow> u32 \<Rightarrow> 'a vm_scheme \<Rightarrow> kerr + u8 list" where
  "uload 0 va s = Inr []"
| "uload (Suc n) va s = bindE (uload8 va s) (\<lambda>c. bindE (uload n (va + 1) s) (\<lambda>cs. Inr (c # cs)))"

fun ustore :: "u8 list \<Rightarrow> u32 \<Rightarrow> 'a vm_scheme \<Rightarrow> kerr + 'a vm_scheme" where
  "ustore [] va s = Inr s"
| "ustore (c # cs) va s = bindE (user_addr va s) (\<lambda>a. ustore cs (va + 1) (s\<lparr>mem := (mem s)(a := c)\<rparr>))"

section \<open>Arguments\<close>

text \<open>The offsets of fields in a trap frame (\<^verbatim>\<open>x86.h\<close>).\<close>

definition TF_EAX :: u32 where "TF_EAX = 28"
definition TF_TRAPNO :: u32 where "TF_TRAPNO = 48"
definition TF_EIP :: u32 where "TF_EIP = 56"
definition TF_CS :: u32 where "TF_CS = 60"
definition TF_ESP :: u32 where "TF_ESP = 68"

definition cur_proc :: "'a pstate_scheme \<Rightarrow> kerr + nat" where
  "cur_proc s = (case myproc s of None \<Rightarrow> Inl NullDeref | Some i \<Rightarrow> Inr i)"

definition fetchint :: "u32 \<Rightarrow> 'a pstate_scheme \<Rightarrow> kerr + u32 option" where
  "fetchint addr s =
     bindE (cur_proc s) (\<lambda>i.
       let sz = p_sz (procs s ! i) in
       if addr \<ge> sz \<or> addr + 4 > sz then Inr None
       else bindE (uload 4 addr s) (\<lambda>bs. Inr (Some (word32 bs))))"

text \<open>The loop of \<^verbatim>\<open>fetchstr\<close> over the \<open>n\<close> bytes up to the end of the process: the string before the first null.\<close>

fun fetchstr_loop :: "nat \<Rightarrow> u32 \<Rightarrow> 'a vm_scheme \<Rightarrow> kerr + u8 list option" where
  "fetchstr_loop 0 a s = Inr None"
| "fetchstr_loop (Suc n) a s =
     bindE (uload8 a s) (\<lambda>c.
       if c = 0 then Inr (Some []) else bindE (fetchstr_loop n (a + 1) s) (\<lambda>r. Inr (map_option ((#) c) r)))"

definition fetchstr :: "u32 \<Rightarrow> 'a pstate_scheme \<Rightarrow> kerr + u8 list option" where
  "fetchstr addr s =
     bindE (cur_proc s) (\<lambda>i.
       let sz = p_sz (procs s ! i) in
       if addr \<ge> sz then Inr None else fetchstr_loop (unat (sz - addr)) addr s)"

definition argint :: "nat \<Rightarrow> 'a pstate_scheme \<Rightarrow> kerr + u32 option" where
  "argint n s =
     bindE (cur_proc s) (\<lambda>i. fetchint (load (p_tf (procs s ! i) + TF_ESP) s + 4 + 4 * of_nat n) s)"

definition argptr :: "nat \<Rightarrow> int \<Rightarrow> 'a pstate_scheme \<Rightarrow> kerr + u32 option" where
  "argptr n sz s =
     bindE (cur_proc s) (\<lambda>i.
     bindE (argint n s) (\<lambda>r.
       case r of
         None \<Rightarrow> Inr None
       | Some a \<Rightarrow>
           if sz < 0 \<or> a \<ge> p_sz (procs s ! i) \<or> a + word_of_int sz > p_sz (procs s ! i) then Inr None else Inr (Some a)))"

definition argstr :: "nat \<Rightarrow> 'a pstate_scheme \<Rightarrow> kerr + u8 list option" where
  "argstr n s = bindE (argint n s) (\<lambda>r. case r of None \<Rightarrow> Inr None | Some a \<Rightarrow> fetchstr a s)"

section \<open>Ranges\<close>

lemma argptr_eq:
  assumes "myproc s = Some i" "argptr n sz s = Inr (Some a)"
  shows "0 \<le> sz" "a < p_sz (procs s ! i)" "a + word_of_int sz \<le> p_sz (procs s ! i)"
  using assms by (auto simp: argptr_def cur_proc_def split: option.splits if_splits elim!: bindE_InrE)

lemma unat_word_of_int: "0 \<le> n \<Longrightarrow> n < 2 ^ 32 \<Longrightarrow> unat (word_of_int n :: u32) = nat n"
  by (simp add: unsigned_of_int take_bit_int_eq_self)

lemma fetchstr_loop_ok:
  "fetchstr_loop n a s = Inr (Some xs) \<Longrightarrow>
     length xs < n \<and> 0 \<notin> set xs \<and> uload (length xs) a s = Inr xs \<and> uload8 (a + of_nat (length xs)) s = Inr 0"
proof (induction n arbitrary: a xs)
  case (Suc n)
  then obtain c where c: "uload8 a s = Inr c" "(if c = 0 then Inr (Some []) else bindE (fetchstr_loop n (a + 1) s) (\<lambda>r. Inr (map_option ((#) c) r))) = Inr (Some xs)"
    by (auto elim!: bindE_InrE)
  show ?case
  proof (cases "c = 0")
    case True
    then show ?thesis using c by simp
  next
    case False
    then obtain ys where ys: "fetchstr_loop n (a + 1) s = Inr (Some ys)" "xs = c # ys" using c(2) by (auto elim!: bindE_InrE)
    from Suc.IH [OF ys(1)] show ?thesis using c(1) ys(2) False by (simp add: add.assoc)
  qed
qed simp

section \<open>Properties\<close>

text \<open>
  C26: A pointer argument that passes the check of \<^verbatim>\<open>argptr\<close> points to a block that lies in the memory of the process: neither a negative
  size nor an address near the top of the address space gets past it by wrapping around.
\<close>

theorem argptr_in_process:
  assumes "myproc s = Some i" "p_sz (procs s ! i) \<le> KERNBASE" "argptr n sz s = Inr (Some a)" "sz < 2 ^ 31"
  shows "0 \<le> sz \<and> unat a < unat (p_sz (procs s ! i)) \<and> unat a + nat sz \<le> unat (p_sz (procs s ! i))"
proof -
  note r = argptr_eq [OF assms(1,3)]
  have sz: "unat (word_of_int sz :: u32) = nat sz" using r(1) assms(4) by (intro unat_word_of_int) simp_all
  have k: "unat (p_sz (procs s ! i)) \<le> 2 ^ 31" using assms(2) by (simp add: word_le_nat_alt KERNBASE_def)
  have "unat a < unat (p_sz (procs s ! i))" using r(2) by (simp add: word_less_nat_alt)
  moreover have "nat sz < 2 ^ 31" using assms(4) r(1) by (simp add: nat_less_iff)
  ultimately have "unat a + nat sz < 4294967296" using k by simp
  then have "unat (a + word_of_int sz) = unat a + nat sz" using unat_add_u32 [of a "word_of_int sz"] sz by simp
  then show ?thesis using r by (simp add: word_le_nat_alt word_less_nat_alt)
qed

text \<open>
  C25: A string argument that \<^verbatim>\<open>fetchstr\<close> accepts lies with its null inside the process: its bytes are those of the memory there, none of them is
  null, and the byte that follows is.
\<close>

theorem fetchstr_in_process:
  assumes "myproc s = Some i" "fetchstr a s = Inr (Some xs)"
  shows "unat a + length xs < unat (p_sz (procs s ! i)) \<and> 0 \<notin> set xs \<and>
    uload (length xs) a s = Inr xs \<and> uload8 (a + of_nat (length xs)) s = Inr 0"
proof -
  let ?sz = "p_sz (procs s ! i)"
  have f: "a < ?sz" "fetchstr_loop (unat (?sz - a)) a s = Inr (Some xs)"
    using assms by (auto simp: fetchstr_def cur_proc_def Let_def not_le split: if_splits)
  then have "unat (?sz - a) = unat ?sz - unat a" by (intro unat_diff_u32) (simp add: word_less_nat_alt)
  then show ?thesis using fetchstr_loop_ok [OF f(2)] f(1) by (auto simp: word_less_nat_alt)
qed

text \<open>
  An example: a process with one page of memory, at the physical address 0x3000, whose stack pointer is 0x100 and whose first argument is
  0x200; its page table starts at the physical address 0x1000 and its trap frame lies at 0x80005000.
\<close>

definition user_example :: pstate where
  "user_example = (boot_example SCHED_RR)\<lparr>
     mem := (\<lambda>_. 0)(0x80001000 := 7, 0x80001001 := 0x20, 0x80002000 := 7, 0x80002001 := 0x30, 0x80005045 := 1, 0x80003105 := 2),
     cr3 := 0x1000, procs := [blank_proc\<lparr>p_sz := 4096, p_tf := 0x80005000\<rparr>], cpu_proc := (\<lambda>_. Some 0)\<rparr>"

lemma user_example_addr:
  assumes "va < 4096"
  shows "user_addr va user_example = Inr (0x80003000 + va)"
proof -
  have "unat va < 4096" using assms by (simp add: word_less_nat_alt)
  then have "drop_bit 22 va = 0" "drop_bit 12 va = 0"
    by (simp_all add: word_unat_eq_iff drop_bit_eq_div unat_div)
  moreover have "va - PGROUNDDOWN va = va"
  proof -
    have "va AND 0xFFF = take_bit 12 va" by (simp add: take_bit_eq_mask mask_eq_exp_minus_1)
    also have "\<dots> = va" using \<open>unat va < 4096\<close> by (simp add: word_unat_eq_iff unsigned_take_bit_eq take_bit_nat_eq_self)
    finally show ?thesis by (simp add: va_minus_rounddown)
  qed
  ultimately show ?thesis
    by (simp add: user_addr_def walkpgdir_def user_example_def boot_example_def load32_def PDX_def PTX_def PTE_ADDR_def P2V_def KERNBASE_def PTE_P_def)
qed

lemma uload_4:
  "uload 4 a s = bindE (uload8 a s) (\<lambda>w. bindE (uload8 (a + 1) s) (\<lambda>x. bindE (uload8 (a + 2) s) (\<lambda>y.
     bindE (uload8 (a + 3) s) (\<lambda>z. Inr [w, x, y, z]))))"
proof -
  have "4 = Suc (Suc (Suc (Suc 0)))" by simp
  moreover have "a + 1 + 1 = a + 2" "a + 2 + 1 = a + 3" by simp_all
  ultimately show ?thesis by (simp only: uload.simps bindE_assoc) (simp add: bindE_assoc)
qed

lemma user_example_simps:
  "myproc user_example = Some 0" "p_sz (procs user_example ! 0) = 4096" "argint 0 user_example = Inr (Some 0x200)"
proof -
  show m: "myproc user_example = Some 0" "p_sz (procs user_example ! 0) = 4096"
    by (simp_all add: user_example_def myproc_def)
  have e: "load (p_tf (procs user_example ! 0) + TF_ESP) user_example = 0x100" by (simp add: user_example_def load32_def TF_ESP_def)
  have u: "uload 4 0x104 user_example = Inr [0, 2, 0, 0]"
    by (simp add: uload_4 uload8_def user_example_addr) (simp add: user_example_def)
  show "argint 0 user_example = Inr (Some 0x200)"
    by (simp add: argint_def cur_proc_def m e fetchint_def u word32_def)
qed

theorem argptr_in_process_witness:
  "argptr 0 16 user_example = Inr (Some 0x200) \<and> unat (0x200 :: u32) + 16 \<le> unat (p_sz (procs user_example ! 0))"
proof -
  have a: "argptr 0 16 user_example = Inr (Some 0x200)"
    by (simp add: argptr_def cur_proc_def user_example_simps)
  show ?thesis using argptr_in_process [OF user_example_simps(1) _ a] a by (simp add: user_example_simps KERNBASE_def)
qed

theorem fetchstr_in_process_witness:
  "fetchstr 0x105 user_example = Inr (Some [2]) \<and> unat (0x105 :: u32) + length [2 :: u8] < unat (p_sz (procs user_example ! 0))"
proof -
  have l: "fetchstr_loop (Suc (Suc n)) 0x105 user_example = Inr (Some [2])" for n
    by (simp add: uload8_def user_example_addr) (simp add: user_example_def)
  have "unat (0xEFB :: u32) = Suc (Suc 0xEF9)" by simp
  then have f: "fetchstr 0x105 user_example = Inr (Some [2])"
    by (simp only: fetchstr_def cur_proc_def user_example_simps) (simp add: user_example_simps l [of "0xEF9", simplified])
  show ?thesis using fetchstr_in_process [OF user_example_simps(1) f] f by simp
qed

end
