(* ===== verification/Sh_Parse.thy ===== *)
theory Sh_Parse
  imports Xv6_Prelude
begin

text \<open>
  The command parser of the shell (\<^verbatim>\<open>sh.c\<close>). The line is the list of its bytes before the NUL; pointers into it are
  positions, and \<^verbatim>\<open>es\<close> is its length. A word is a pair of positions \<^verbatim>\<open>argv[i]\<close>, \<^verbatim>\<open>eargv[i]\<close>. The recursive procedures
  take fuel, and an error is the message of \<^verbatim>\<open>panic\<close>. \<^verbatim>\<open>parseexec\<close> returns a command wrapped in redirections whose
  innermost \<^verbatim>\<open>execcmd\<close> still gets arguments through a second pointer: the redirections are collected in a list
  and applied at the end.
\<close>

section \<open>Commands\<close>

type_synonym span = "nat \<times> nat"

datatype cmd =
    EXEC "span list"
  | REDIR cmd span u32 nat
  | PIPE cmd cmd
  | LIST cmd cmd
  | BACK cmd

datatype sh_error = Out_of_fuel | Sh_panic string

definition MAXARGS :: nat where "MAXARGS = 10"
definition O_RDONLY :: u32 where "O_RDONLY = 0x000"
definition O_WRONLY :: u32 where "O_WRONLY = 0x001"
definition O_RDWR :: u32 where "O_RDWR = 0x002"
definition O_CREATE :: u32 where "O_CREATE = 0x200"

definition whitespace :: "u8 list" where "whitespace = [32, 9, 13, 10, 11]"
definition symbols :: "u8 list" where "symbols = [60, 124, 62, 38, 59, 40, 41]"

section \<open>Tokens\<close>

text \<open>The byte at a position; the NUL at the end. A line has no other NUL, so \<^verbatim>\<open>strchr\<close> is membership.\<close>

definition at :: "u8 list \<Rightarrow> nat \<Rightarrow> u8" where
  "at b s = (if s < length b then b ! s else 0)"

function skip_while :: "(u8 \<Rightarrow> bool) \<Rightarrow> u8 list \<Rightarrow> nat \<Rightarrow> nat" where
  "skip_while P b s = (if s < length b \<and> P (at b s) then skip_while P b (Suc s) else s)"
  by pat_completeness auto
termination by (relation "measure (\<lambda>(P, b, s). length b - s)") auto

declare skip_while.simps [simp del]

abbreviation skip_ws :: "u8 list \<Rightarrow> nat \<Rightarrow> nat" where
  "skip_ws \<equiv> skip_while (\<lambda>c. c \<in> set whitespace)"

definition word_char :: "u8 \<Rightarrow> bool" where
  "word_char c \<longleftrightarrow> c \<notin> set whitespace \<and> c \<notin> set symbols"

text \<open>The result, the bounds \<open>q\<close> and \<open>eq\<close> of the token, and the new position.\<close>

definition gettoken :: "u8 list \<Rightarrow> nat \<Rightarrow> u8 \<times> span \<times> nat" where
  "gettoken b s =
     (let q = skip_ws b s; c = at b q;
          (ret, e) =
            (if c = 0 then (c, q)
             else if c \<in> set [124, 40, 41, 59, 38, 60] then (c, Suc q)
             else if c = 62 then if at b (Suc q) = 62 then (43, Suc (Suc q)) else (c, Suc q)
             else (97, skip_while word_char b q))
      in (ret, (q, e), skip_ws b e))"

definition peek :: "u8 list \<Rightarrow> nat \<Rightarrow> u8 list \<Rightarrow> bool \<times> nat" where
  "peek b s toks = (let s = skip_ws b s in (at b s \<noteq> 0 \<and> at b s \<in> set toks, s))"

lemma skip_while_bounds: "s \<le> length b \<Longrightarrow> s \<le> skip_while P b s \<and> skip_while P b s \<le> length b"
proof (induction P b s rule: skip_while.induct)
  case (1 P b s)
  then show ?case by (subst (1 2) skip_while.simps) (auto simp: Suc_le_eq)
qed

lemma skip_while_ge: "s \<le> skip_while P b s"
  using skip_while_bounds [of s b P] skip_while.simps [of P b s] by (cases "s \<le> length b") auto

lemma skip_while_stop: "skip_while P b s < length b \<Longrightarrow> \<not> P (at b (skip_while P b s))"
proof (induction P b s rule: skip_while.induct)
  case (1 P b s)
  then show ?case by (cases "s < length b \<and> P (at b s)") (auto simp: skip_while.simps [of P b s])
qed

lemma skip_while_run: "s \<le> i \<Longrightarrow> i < skip_while P b s \<Longrightarrow> P (at b i)"
proof (induction P b s rule: skip_while.induct)
  case (1 P b s)
  then show ?case by (cases "s < length b \<and> P (at b s)"; cases "i = s") (auto simp: skip_while.simps [of P b s])
qed

lemma skip_while_pos: "s < length b \<Longrightarrow> P (at b s) \<Longrightarrow> s < skip_while P b s"
  using skip_while_bounds [of "Suc s" b P] by (subst skip_while.simps) simp

text \<open>A line is a string: no NUL inside.\<close>

lemma at_nonzero: "0 \<notin> set b \<Longrightarrow> at b s = 0 \<longleftrightarrow> length b \<le> s"
  by (auto simp: at_def in_set_conv_nth)

lemma peek_bounds:
  assumes "s \<le> length b" "peek b s toks = (r, t)"
  shows "s \<le> t" "t \<le> length b" "r \<Longrightarrow> t < length b"
  using assms skip_while_bounds [OF assms(1), of "\<lambda>c. c \<in> set whitespace"] by (auto simp: peek_def Let_def at_def split: if_splits)

lemma gettoken_bounds:
  assumes "s \<le> length b" "gettoken b s = (r, (q, e), t)"
  shows "s \<le> q" "q \<le> e" "e \<le> t" "t \<le> length b" "r \<noteq> 0 \<Longrightarrow> q < e"
proof -
  let ?q = "skip_ws b s"
  have q: "q = ?q" "s \<le> ?q" "?q \<le> length b"
    using assms skip_while_bounds [OF assms(1), of "\<lambda>c. c \<in> set whitespace"] by (auto simp: gettoken_def Let_def split: if_splits)
  have e: "?q \<le> e \<and> e \<le> length b \<and> (r \<noteq> 0 \<longrightarrow> ?q < e) \<and> t = skip_ws b e"
  proof (cases "at b ?q = 0")
    case True
    then show ?thesis using assms(2) q by (auto simp: gettoken_def Let_def)
  next
    case False
    then have l: "?q < length b" by (auto simp: at_def split: if_splits)
    have w: "word_char (at b ?q) \<or> at b ?q \<in> set symbols" using skip_while_stop [OF l] by (auto simp: word_char_def)
    have n: "at b (Suc ?q) = 62 \<Longrightarrow> Suc ?q < length b" by (auto simp: at_def split: if_splits)
    show ?thesis
      using assms(2) False l w n skip_while_bounds [of ?q b word_char] skip_while_pos [of ?q b word_char]
      by (auto simp: gettoken_def Let_def symbols_def split: if_splits)
  qed
  then show "s \<le> q" "q \<le> e" "e \<le> t" "t \<le> length b" "r \<noteq> 0 \<Longrightarrow> q < e"
    using q skip_while_bounds [of e b "\<lambda>c. c \<in> set whitespace"] by auto
qed

lemma peek_advance:
  assumes "peek b s toks = (True, t)"
  shows "t < length b" "gettoken b t = (r, sp, u) \<Longrightarrow> t < u"
proof -
  have t: "t = skip_ws b s" "at b t \<noteq> 0" using assms by (auto simp: peek_def Let_def)
  then show l: "t < length b" by (auto simp: at_def split: if_splits)
  then have q: "skip_ws b t = t" using skip_while_stop [of "\<lambda>c. c \<in> set whitespace" b s] t(1)
    by (subst skip_while.simps) simp
  assume g: "gettoken b t = (r, sp, u)"
  obtain e where sp: "sp = (t, e)" using g q by (auto simp: gettoken_def Let_def split: if_splits)
  have "r \<noteq> 0" using g q t(2) by (auto simp: gettoken_def Let_def split: if_splits)
  then show "t < u" using gettoken_bounds [of t b r t e u] g l sp by simp
qed

lemma peek_loop:
  assumes "peek b s toks = (True, t)" "gettoken b t = (r, sp, u)"
  shows "length b - u < length b - s" "u \<le> length b"
proof -
  have "s \<le> t" using assms(1) skip_while_ge by (auto simp: peek_def Let_def)
  moreover have "u \<le> length b" using gettoken_bounds(4) [of t b r "fst sp" "snd sp" u] peek_advance(1) [OF assms(1)] assms(2) by simp
  ultimately show "length b - u < length b - s" "u \<le> length b" using peek_advance [OF assms(1)] assms(2) by auto
qed

lemma peek_loop_again:
  assumes "(True, t) = peek b s toks"
  shows "length b - snd (snd (gettoken b t)) < length b - s"
    and "(tok, v, u) = gettoken b t \<Longrightarrow> (tok2, sp, u') = gettoken b u \<Longrightarrow> length b - u' < length b - s"
proof -
  note p = assms [symmetric]
  show "length b - snd (snd (gettoken b t)) < length b - s"
    using peek_loop(1) [OF p] by (cases "gettoken b t") simp
  assume g: "(tok, v, u) = gettoken b t" "(tok2, sp, u') = gettoken b u"
  have "u \<le> u'" using gettoken_bounds [of u b tok2 "fst sp" "snd sp" u'] peek_loop(2) [OF p g(1) [symmetric]] g(2) by simp
  then show "length b - u' < length b - s" using peek_loop [OF p g(1) [symmetric]] by linarith
qed

section \<open>The loops\<close>

function back_loop :: "u8 list \<Rightarrow> nat \<Rightarrow> cmd \<Rightarrow> cmd \<times> nat" where
  "back_loop b s c =
     (case peek b s [38] of (r, s) \<Rightarrow>
        if r then back_loop b (snd (snd (gettoken b s))) (BACK c) else (c, s))"
  by pat_completeness auto
termination
  by (relation "measure (\<lambda>(b, s, c). length b - s)") (auto intro: peek_loop_again)

type_synonym redir = "span \<times> u32 \<times> nat"

function redir_loop :: "u8 list \<Rightarrow> nat \<Rightarrow> redir list \<Rightarrow> sh_error + redir list \<times> nat" where
  "redir_loop b s rs =
     (case peek b s [60, 62] of (r, s) \<Rightarrow>
        if r then
          (case gettoken b s of (tok, _, s) \<Rightarrow>
           case gettoken b s of (tok2, sp, s) \<Rightarrow>
             if tok2 \<noteq> 97 then Inl (Sh_panic ''missing file for redirection'')
             else redir_loop b s
               (if tok = 60 then rs @ [(sp, O_RDONLY, 0)]
                else if tok = 62 then rs @ [(sp, O_WRONLY OR O_CREATE, 1)]
                else if tok = 43 then rs @ [(sp, O_WRONLY OR O_CREATE, 1)]
                else rs))
        else Inr (rs, s))"
  by pat_completeness auto
termination
  by (relation "measure (\<lambda>(b, s, rs). length b - s)") (auto intro: peek_loop_again)

function exec_loop :: "u8 list \<Rightarrow> nat \<Rightarrow> span list \<Rightarrow> redir list \<Rightarrow> sh_error + span list \<times> redir list \<times> nat" where
  "exec_loop b s argv rs =
     (case peek b s [124, 41, 38, 59] of (r, s) \<Rightarrow>
        if r then Inr (argv, rs, s)
        else case gettoken b s of (tok, sp, s) \<Rightarrow>
          if tok = 0 then Inr (argv, rs, s)
          else if tok \<noteq> 97 then Inl (Sh_panic ''syntax'')
          else if length (argv @ [sp]) \<ge> MAXARGS then Inl (Sh_panic ''too many args'')
          else bindE (redir_loop b s rs) (\<lambda>(rs, s). exec_loop b s (argv @ [sp]) rs))"
  by pat_completeness auto
termination
  by (relation "measure (\<lambda>(b, s, argv, rs). MAXARGS - length argv)") auto

declare back_loop.simps [simp del] redir_loop.simps [simp del] exec_loop.simps [simp del]

definition wrap :: "redir list \<Rightarrow> cmd \<Rightarrow> cmd" where
  "wrap rs c = fold (\<lambda>(sp, mode, fd) c. REDIR c sp mode fd) rs c"

section \<open>The grammar\<close>

fun parseline :: "nat \<Rightarrow> u8 list \<Rightarrow> nat \<Rightarrow> sh_error + cmd \<times> nat"
  and parsepipe :: "nat \<Rightarrow> u8 list \<Rightarrow> nat \<Rightarrow> sh_error + cmd \<times> nat"
  and parseexec :: "nat \<Rightarrow> u8 list \<Rightarrow> nat \<Rightarrow> sh_error + cmd \<times> nat"
  and parseblock :: "nat \<Rightarrow> u8 list \<Rightarrow> nat \<Rightarrow> sh_error + cmd \<times> nat" where
  "parseline 0 b s = Inl Out_of_fuel"
| "parseline (Suc n) b s =
     bindE (parsepipe n b s) (\<lambda>(c, s).
     let (c, s) = back_loop b s c; (r, s) = peek b s [59] in
     if r then bindE (parseline n b (snd (snd (gettoken b s)))) (\<lambda>(c', s). Inr (LIST c c', s))
     else Inr (c, s))"
| "parsepipe 0 b s = Inl Out_of_fuel"
| "parsepipe (Suc n) b s =
     bindE (parseexec n b s) (\<lambda>(c, s).
     let (r, s) = peek b s [124] in
     if r then bindE (parsepipe n b (snd (snd (gettoken b s)))) (\<lambda>(c', s). Inr (PIPE c c', s))
     else Inr (c, s))"
| "parseexec 0 b s = Inl Out_of_fuel"
| "parseexec (Suc n) b s =
     (let (r, s) = peek b s [40] in
      if r then parseblock n b s
      else bindE (redir_loop b s []) (\<lambda>(rs, s).
           bindE (exec_loop b s [] rs) (\<lambda>(argv, rs, s). Inr (wrap rs (EXEC argv), s))))"
| "parseblock 0 b s = Inl Out_of_fuel"
| "parseblock (Suc n) b s =
     (let (r, s) = peek b s [40] in
      if \<not> r then Inl (Sh_panic ''parseblock'')
      else bindE (parseline n b (snd (snd (gettoken b s)))) (\<lambda>(c, s).
           let (r, s) = peek b s [41] in
           if \<not> r then Inl (Sh_panic ''syntax - missing )'')
           else bindE (redir_loop b (snd (snd (gettoken b s))) []) (\<lambda>(rs, s). Inr (wrap rs c, s))))"

text \<open>\<^verbatim>\<open>nulterminate\<close> overwrites the byte after each word. The buffer ends with the NUL of the line.\<close>

fun nulterminate :: "cmd \<Rightarrow> u8 list \<Rightarrow> u8 list" where
  "nulterminate (EXEC argv) b = fold (\<lambda>(q, e) b. b[e := 0]) argv b"
| "nulterminate (REDIR c (q, e) mode fd) b = (nulterminate c b)[e := 0]"
| "nulterminate (PIPE l r) b = nulterminate r (nulterminate l b)"
| "nulterminate (LIST l r) b = nulterminate r (nulterminate l b)"
| "nulterminate (BACK c) b = nulterminate c b"

definition parsecmd :: "u8 list \<Rightarrow> sh_error + cmd \<times> u8 list" where
  "parsecmd b =
     bindE (parseline (4 * length b + 4) b 0) (\<lambda>(c, s).
     let (_, s) = peek b s [] in
     if s \<noteq> length b then Inl (Sh_panic ''syntax'') else Inr (c, nulterminate c (b @ [0])))"

section \<open>Words\<close>

fun tokens :: "cmd \<Rightarrow> span set" where
  "tokens (EXEC argv) = set argv"
| "tokens (REDIR c sp mode fd) = insert sp (tokens c)"
| "tokens (PIPE l r) = tokens l \<union> tokens r"
| "tokens (LIST l r) = tokens l \<union> tokens r"
| "tokens (BACK c) = tokens c"

text \<open>A span is a maximal run of word characters to the right.\<close>

definition tok_ok :: "u8 list \<Rightarrow> span \<Rightarrow> bool" where
  "tok_ok b sp \<longleftrightarrow> fst sp < snd sp \<and> snd sp \<le> length b \<and> (\<forall>i. fst sp \<le> i \<longrightarrow> i < snd sp \<longrightarrow> word_char (b ! i)) \<and>
     (snd sp < length b \<longrightarrow> \<not> word_char (b ! snd sp))"

lemma gettoken_word:
  assumes "gettoken b s = (97, sp, t)"
  shows "tok_ok b sp"
proof -
  let ?q = "skip_ws b s"
  let ?e = "skip_while word_char b ?q"
  have c: "at b ?q \<noteq> 0" "at b ?q \<notin> set symbols" "sp = (?q, ?e)"
    using assms by (auto simp: gettoken_def Let_def symbols_def split: if_splits)
  then have l: "?q < length b" by (auto simp: at_def split: if_splits)
  have "word_char (at b ?q)" using skip_while_stop [OF l] c(2) by (simp add: word_char_def)
  then have "?q < ?e" "?e \<le> length b" using skip_while_pos [OF l] skip_while_bounds [of ?q b word_char] l by auto
  moreover have "word_char (b ! i)" if "?q \<le> i" "i < ?e" for i
    using skip_while_run [OF that] that \<open>?e \<le> length b\<close> by (simp add: at_def)
  moreover have "\<not> word_char (b ! ?e)" if "?e < length b" using skip_while_stop [OF that] that by (simp add: at_def)
  ultimately show ?thesis by (simp add: tok_ok_def c(3))
qed

lemma back_loop_ok:
  "s \<le> length b \<Longrightarrow> back_loop b s c = (c', s') \<Longrightarrow> s \<le> s' \<and> s' \<le> length b \<and> tokens c' = tokens c"
proof (induction b s c rule: back_loop.induct)
  case (1 b s c)
  obtain r t where p: "peek b s [38] = (r, t)" by fastforce
  note pb = peek_bounds [OF 1(2) p]
  show ?case
  proof (cases r)
    case True
    obtain x sp u where g: "gettoken b t = (x, sp, u)" by (metis prod_cases3)
    have u: "t \<le> u" "u \<le> length b" using gettoken_bounds [of t b x "fst sp" "snd sp" u] g pb by simp_all
    have "back_loop b u (BACK c) = (c', s')" using 1(3) p g True by (simp add: back_loop.simps [of b s])
    then show ?thesis using 1(1) [OF p [symmetric] True] g u pb by simp
  next
    case False
    then show ?thesis using 1(3) p pb by (simp add: back_loop.simps [of b s])
  qed
qed

lemma redir_loop_ok:
  assumes "s \<le> length b" "\<forall>x \<in> set rs. tok_ok b (fst x)"
  shows "case redir_loop b s rs of Inl e \<Rightarrow> e \<noteq> Out_of_fuel
    | Inr (rs', s') \<Rightarrow> s \<le> s' \<and> s' \<le> length b \<and> (\<forall>x \<in> set rs'. tok_ok b (fst x))"
  using assms
proof (induction b s rs rule: redir_loop.induct)
  case (1 b s rs)
  obtain r t where p: "peek b s [60, 62] = (r, t)" by fastforce
  note pb = peek_bounds [OF 1(2) p]
  show ?case
  proof (cases r)
    case True
    obtain x sp u where g: "gettoken b t = (x, sp, u)" by (metis prod_cases3)
    obtain y sp' v where h: "gettoken b u = (y, sp', v)" by (metis prod_cases3)
    have u: "t \<le> u" "u \<le> length b" using gettoken_bounds [of t b x "fst sp" "snd sp" u] g pb by simp_all
    have v: "u \<le> v" "v \<le> length b" using gettoken_bounds [of u b y "fst sp'" "snd sp'" v] h u by simp_all
    show ?thesis
    proof (cases "y = 97")
      case y: True
      let ?rs = "if x = 60 then rs @ [(sp', O_RDONLY, 0)] else if x = 62 then rs @ [(sp', O_WRONLY OR O_CREATE, 1)]
        else if x = 43 then rs @ [(sp', O_WRONLY OR O_CREATE, 1)] else rs"
      have e: "redir_loop b s rs = redir_loop b v ?rs" using p g h True y by (simp add: redir_loop.simps [of b s])
      have "tok_ok b sp'" using gettoken_word h y by blast
      then have "\<forall>x \<in> set ?rs. tok_ok b (fst x)" using 1(3) by auto
      then have "case redir_loop b v ?rs of Inl e \<Rightarrow> e \<noteq> Out_of_fuel
          | Inr (rs', s') \<Rightarrow> v \<le> s' \<and> s' \<le> length b \<and> (\<forall>x \<in> set rs'. tok_ok b (fst x))"
        using 1(1) [OF p [symmetric] True g [symmetric] refl h [symmetric] refl _ v(2)] y by blast
      then show ?thesis unfolding e using u v pb by (cases "redir_loop b v ?rs") auto
    next
      case False
      then show ?thesis using p g h True by (simp add: redir_loop.simps [of b s])
    qed
  next
    case False
    then show ?thesis using p pb 1(3) by (simp add: redir_loop.simps [of b s])
  qed
qed

lemma exec_loop_ok:
  assumes "s \<le> length b" "\<forall>x \<in> set argv. tok_ok b x" "\<forall>x \<in> set rs. tok_ok b (fst x)"
  shows "case exec_loop b s argv rs of Inl e \<Rightarrow> e \<noteq> Out_of_fuel
    | Inr (argv', rs', s') \<Rightarrow> s \<le> s' \<and> s' \<le> length b \<and> (\<forall>x \<in> set argv'. tok_ok b x) \<and> (\<forall>x \<in> set rs'. tok_ok b (fst x))"
  using assms
proof (induction b s argv rs rule: exec_loop.induct)
  case (1 b s argv rs)
  obtain r t where p: "peek b s [124, 41, 38, 59] = (r, t)" by fastforce
  note pb = peek_bounds [OF 1(2) p]
  obtain x sp u where g: "gettoken b t = (x, sp, u)" by (metis prod_cases3)
  have u: "t \<le> u" "u \<le> length b" using gettoken_bounds [of t b x "fst sp" "snd sp" u] g pb by simp_all
  consider "r \<or> x = 0" | "\<not> r" "x \<noteq> 0" "x \<noteq> 97 \<or> MAXARGS \<le> Suc (length argv)" | "\<not> r" "x = 97" "\<not> MAXARGS \<le> Suc (length argv)" by fastforce
  then show ?case
  proof cases
    case 3
    have e: "exec_loop b s argv rs = bindE (redir_loop b u rs) (\<lambda>(rs, s). exec_loop b s (argv @ [sp]) rs)"
      using p g 3 by (simp add: exec_loop.simps [of b s])
    have sp: "tok_ok b sp" using gettoken_word g 3 by blast
    show ?thesis
    proof (cases "redir_loop b u rs")
      case (Inl e')
      then show ?thesis using e redir_loop_ok [OF u(2) 1(4)] by simp
    next
      case (Inr y)
      obtain rs' v where y: "y = (rs', v)" by fastforce
      have v: "u \<le> v" "v \<le> length b" "\<forall>x \<in> set rs'. tok_ok b (fst x)"
        using redir_loop_ok [OF u(2) 1(4)] Inr y by auto
      have "exec_loop b s argv rs = exec_loop b v (argv @ [sp]) rs'" using e Inr y by simp
      then show ?thesis
        using 1(1) [OF p [symmetric] _ g [symmetric] refl _ _ _ Inr y [symmetric]] 3 1(3) sp u v pb
        by (fastforce split: sum.splits prod.splits)
    qed
  qed (use p g pb u 1(3,4) in \<open>auto simp: exec_loop.simps [of b s]\<close>)
qed

lemma tokens_wrap: "tokens (wrap rs c) = fst ` set rs \<union> tokens c"
  by (induction rs arbitrary: c) (auto simp: wrap_def)

definition parsed :: "u8 list \<Rightarrow> nat \<Rightarrow> nat \<Rightarrow> nat \<Rightarrow> sh_error + cmd \<times> nat \<Rightarrow> bool" where
  "parsed b s k n r = (case r of Inl e \<Rightarrow> 4 * (length b - s) + k \<le> n \<longrightarrow> e \<noteq> Out_of_fuel
     | Inr (c, s') \<Rightarrow> s \<le> s' \<and> s' \<le> length b \<and> (\<forall>sp \<in> tokens c. tok_ok b sp))"

lemma parsed_bind:
  assumes "parsed b s' k' n' m" "s \<le> s'" "4 * (length b - s) + k \<le> n \<Longrightarrow> 4 * (length b - s') + k' \<le> n'"
    and "\<And>c t. m = Inr (c, t) \<Longrightarrow> s \<le> t \<Longrightarrow> s' \<le> t \<Longrightarrow> t \<le> length b \<Longrightarrow> \<forall>sp \<in> tokens c. tok_ok b sp \<Longrightarrow> parsed b s k n (f (c, t))"
  shows "parsed b s k n (bindE m f)"
proof (cases m)
  case (Inl e)
  then show ?thesis using assms(1,3) by (simp add: parsed_def)
next
  case (Inr x)
  then show ?thesis using assms(1,2,4) by (cases x) (simp add: parsed_def)
qed

lemma parsed_redirs:
  assumes "s \<le> s'" "s' \<le> length b" and "\<forall>sp \<in> tokens c. tok_ok b sp"
  shows "parsed b s k n (bindE (redir_loop b s' []) (\<lambda>(rs, t). Inr (wrap rs c, t)))"
  using redir_loop_ok [OF assms(2), of "[]"] assms by (auto simp: parsed_def tokens_wrap bindE_def split: sum.splits)

lemma parsed_exec:
  assumes "s \<le> t" "t \<le> length b"
  shows "parsed b s k n (bindE (redir_loop b t []) (\<lambda>(rs, s). bindE (exec_loop b s [] rs) (\<lambda>(argv, rs, s). Inr (wrap rs (EXEC argv), s))))"
proof (cases "redir_loop b t []")
  case (Inl e)
  then show ?thesis using redir_loop_ok [OF assms(2), of "[]"] by (simp add: parsed_def)
next
  case (Inr x)
  obtain rs u where x: "x = (rs, u)" by fastforce
  have u: "t \<le> u" "u \<le> length b" "\<forall>x \<in> set rs. tok_ok b (fst x)" using redir_loop_ok [OF assms(2), of "[]"] Inr x by auto
  show ?thesis
    using exec_loop_ok [OF u(2) _ u(3), of "[]"] Inr x u(1) assms
    by (auto simp: parsed_def tokens_wrap bindE_def split: sum.splits)
qed

lemma peek_token:
  assumes "s \<le> length b" "peek b s toks = (True, t)"
  shows "s < snd (snd (gettoken b t))" "snd (snd (gettoken b t)) \<le> length b"
proof -
  obtain x sp u where g: "gettoken b t = (x, sp, u)" by (metis prod_cases3)
  show "s < snd (snd (gettoken b t))" "snd (snd (gettoken b t)) \<le> length b"
    using peek_bounds [OF assms] peek_advance [OF assms(2)] peek_loop(2) [OF assms(2) g] g by auto
qed

text \<open>Another command after a separator.\<close>

lemma parsed_more:
  assumes IH: "\<And>s. s \<le> length b \<Longrightarrow> parsed b s k n (p n b s)" and s: "s \<le> t" "t \<le> length b" and "peek b t toks = (True, t')"
    and c: "\<forall>sp \<in> tokens c. tok_ok b sp" and op: "\<And>c'. tokens (op c c') = tokens c \<union> tokens c'" and "k \<le> 4"
  shows "parsed b s k (Suc n) (bindE (p n b (snd (snd (gettoken b t')))) (\<lambda>(c', s). Inr (op c c', s)))"
proof -
  let ?u = "snd (snd (gettoken b t'))"
  have u: "t < ?u" "?u \<le> length b" using peek_token [OF s(2) assms(4)] by auto
  show ?thesis
    by (rule parsed_bind [OF IH [OF u(2)]]) (use u s assms(7) c op in \<open>auto simp: parsed_def\<close>)
qed

lemma parse_ok:
  "s \<le> length b \<Longrightarrow> parsed b s 4 n (parseline n b s)"
  "s \<le> length b \<Longrightarrow> parsed b s 3 n (parsepipe n b s)"
  "s \<le> length b \<Longrightarrow> parsed b s 2 n (parseexec n b s)"
  "s \<le> length b \<Longrightarrow> parsed b s 1 n (parseblock n b s)"
proof (induction n arbitrary: s)
  case 0
  {
    case 1
    then show ?case by (simp add: parsed_def)
  next
    case 2
    then show ?case by (simp add: parsed_def)
  next
    case 3
    then show ?case by (simp add: parsed_def)
  next
    case 4
    then show ?case by (simp add: parsed_def)
  }
next
  case (Suc n)
  {
    case 1
    show ?case unfolding parseline.simps
    proof (rule parsed_bind [OF Suc.IH(2) [OF 1]])
      fix c t
      assume t: "s \<le> t" "t \<le> length b" "\<forall>sp \<in> tokens c. tok_ok b sp"
      obtain c1 t1 where bl: "back_loop b t c = (c1, t1)" by fastforce
      note t1 = back_loop_ok [OF t(2) bl]
      obtain r t2 where p: "peek b t1 [59] = (r, t2)" by fastforce
      have "parsed b s 4 (Suc n) (bindE (parseline n b (snd (snd (gettoken b t2)))) (\<lambda>(c', s). Inr (LIST c1 c', s)))" if r
        by (rule parsed_more [of b 4 n parseline s t1 "[59]"]) (use Suc.IH(1) t t1 p that in auto)
      moreover have "s \<le> t2" "t2 \<le> length b" using peek_bounds [OF _ p] t t1 by auto
      ultimately show "parsed b s 4 (Suc n) (case (c, t) of (c, s) \<Rightarrow> let (c, s) = back_loop b s c; (r, s) = peek b s [59] in
          if r then bindE (parseline n b (snd (snd (gettoken b s)))) (\<lambda>(c', s). Inr (LIST c c', s)) else Inr (c, s))"
        using bl p t t1 by (simp add: parsed_def)
    qed (use 1 in auto)
  next
    case 2
    show ?case unfolding parsepipe.simps
    proof (rule parsed_bind [OF Suc.IH(3) [OF 2]])
      fix c t
      assume t: "s \<le> t" "t \<le> length b" "\<forall>sp \<in> tokens c. tok_ok b sp"
      obtain r t2 where p: "peek b t [124] = (r, t2)" by fastforce
      have "parsed b s 3 (Suc n) (bindE (parsepipe n b (snd (snd (gettoken b t2)))) (\<lambda>(c', s). Inr (PIPE c c', s)))" if r
        by (rule parsed_more [of b 3 n parsepipe s t "[124]"]) (use Suc.IH(2) t p that in auto)
      moreover have "s \<le> t2" "t2 \<le> length b" using peek_bounds [OF _ p] t by auto
      ultimately show "parsed b s 3 (Suc n) (case (c, t) of (c, s) \<Rightarrow> let (r, s) = peek b s [124] in
          if r then bindE (parsepipe n b (snd (snd (gettoken b s)))) (\<lambda>(c', s). Inr (PIPE c c', s)) else Inr (c, s))"
        using p t by (simp add: parsed_def)
    qed (use 2 in auto)
  next
    case 3
    obtain r t where p: "peek b s [40] = (r, t)" by fastforce
    have t: "s \<le> t" "t \<le> length b" using peek_bounds [OF 3 p] by auto
    show ?case
    proof (cases r)
      case True
      have "parsed b t 1 n (parseblock n b t)" by (rule Suc.IH(4) [OF t(2)])
      then show ?thesis using p True t by (auto simp: parsed_def split: sum.splits)
    next
      case False
      then have "parseexec (Suc n) b s = bindE (redir_loop b t []) (\<lambda>(rs, s). bindE (exec_loop b s [] rs) (\<lambda>(argv, rs, s). Inr (wrap rs (EXEC argv), s)))"
        using p by simp
      then show ?thesis using parsed_exec [OF t] by (simp only:)
    qed
  next
    case 4
    obtain r t where p: "peek b s [40] = (r, t)" by fastforce
    show ?case
    proof (cases r)
      case True
      note u = peek_token [OF 4 p [unfolded eqTrueI [OF True]]]
      have "parsed b s 1 (Suc n) (bindE (parseline n b (snd (snd (gettoken b t)))) (\<lambda>(c, s).
          let (r, s) = peek b s [41] in
          if \<not> r then Inl (Sh_panic ''syntax - missing )'')
          else bindE (redir_loop b (snd (snd (gettoken b s))) []) (\<lambda>(rs, s). Inr (wrap rs c, s))))"
      proof (rule parsed_bind [OF Suc.IH(1) [OF u(2)]])
        fix c v
        assume v: "s \<le> v" "v \<le> length b" "\<forall>sp \<in> tokens c. tok_ok b sp"
        obtain r' w where p': "peek b v [41] = (r', w)" by fastforce
        show "parsed b s 1 (Suc n) (case (c, v) of (c, s) \<Rightarrow> let (r, s) = peek b s [41] in
            if \<not> r then Inl (Sh_panic ''syntax - missing )'')
            else bindE (redir_loop b (snd (snd (gettoken b s))) []) (\<lambda>(rs, s). Inr (wrap rs c, s)))"
        proof (cases r')
          case True
          note u' = peek_token [OF v(2) p' [unfolded eqTrueI [OF True]]]
          show ?thesis using parsed_redirs [OF _ u'(2) v(3), of s 1 "Suc n"] u'(1) v(1) p' True by simp
        qed (use p' in \<open>simp add: parsed_def\<close>)
      qed (use u in auto)
      then show ?thesis using p True by simp
    qed (use p in \<open>simp add: parsed_def\<close>)
  }
qed

section \<open>Properties\<close>

lemma nulterminate_length: "length (nulterminate c b) = length b"
proof -
  have "length (fold (\<lambda>(q, e) b. b[e := 0]) argv b) = length b" for argv :: "span list" and b :: "u8 list"
    by (induction argv arbitrary: b) auto
  then show ?thesis by (induction c b rule: nulterminate.induct) auto
qed

lemma nulterminate_nth: "i < length b \<Longrightarrow> nulterminate c b ! i = (if i \<in> snd ` tokens c then 0 else b ! i)"
proof (induction c b rule: nulterminate.induct)
  case (1 argv b)
  then show ?case
  proof (induction argv arbitrary: b)
    case (Cons sp argv)
    then show ?case by (cases sp) (auto simp: nth_list_update)
  qed simp
next
  case (2 c q e mode fd b)
  then show ?case by (cases "i = e") (simp_all add: nulterminate_length nth_list_update)
qed (simp_all add: nulterminate_length image_Un)

text \<open>
  C23: The parser ends on every line: the fuel it starts with, four for each byte of the line and four more, is never used up.
\<close>

theorem parsecmd_terminates: "parsecmd b \<noteq> Inl Out_of_fuel"
proof -
  have "parsed b 0 4 (4 * length b + 4) (parseline (4 * length b + 4) b 0)" by (rule parse_ok) simp
  then show ?thesis by (auto simp: parsecmd_def parsed_def bindE_def Let_def split: sum.splits prod.splits)
qed

text \<open>
  C24: Every word of a parsed command is a run of bytes that are neither white space nor symbols, and after \<^verbatim>\<open>nulterminate\<close> it is a
  string in the buffer: its bytes are unchanged and the byte after it is NUL.
\<close>

theorem parsecmd_words:
  assumes "parsecmd b = Inr (c, buf)" and "(q, e) \<in> tokens c"
  shows "q < e \<and> e \<le> length b \<and> (\<forall>i. q \<le> i \<and> i < e \<longrightarrow> word_char (b ! i) \<and> buf ! i = b ! i) \<and> buf ! e = 0"
proof -
  have "parsed b 0 4 (4 * length b + 4) (parseline (4 * length b + 4) b 0)" by (rule parse_ok) simp
  moreover obtain s where "parseline (4 * length b + 4) b 0 = Inr (c, s)" and buf: "buf = nulterminate c (b @ [0])"
    using assms(1) by (auto simp: parsecmd_def Let_def elim!: bindE_InrE split: prod.splits if_splits)
  ultimately have t: "\<forall>sp \<in> tokens c. tok_ok b sp" by (simp add: parsed_def)
  have ok: "q < e" "e \<le> length b" "\<And>i. q \<le> i \<Longrightarrow> i < e \<Longrightarrow> word_char (b ! i)"
    using t assms(2) by (fastforce simp: tok_ok_def)+
  have "i \<notin> snd ` tokens c" if "q \<le> i" "i < e" for i
  proof
    assume "i \<in> snd ` tokens c"
    then obtain q' where "(q', i) \<in> tokens c" by auto
    then have "i < length b \<longrightarrow> \<not> word_char (b ! i)" using t by (fastforce simp: tok_ok_def)
    then show False using ok that by auto
  qed
  then have "buf ! i = b ! i" if "q \<le> i" "i < e" for i
    unfolding buf using nulterminate_nth [of i "b @ [0]" c] that ok(2) by (simp add: nth_append)
  moreover have "buf ! e = 0"
    unfolding buf using nulterminate_nth [of e "b @ [0]" c] ok(2) assms(2) by (force simp: nth_append)
  ultimately show ?thesis using ok by blast
qed

text \<open>The line \<^verbatim>\<open>a>>b;c\<close>.\<close>

definition sh_line :: "u8 list" where
  "sh_line = [97, 62, 62, 98, 59, 99]"

lemma sh_line_parsed:
  "parsecmd sh_line = Inr (LIST (REDIR (EXEC [(0, 1)]) (3, 4) (O_WRONLY OR O_CREATE) 1) (EXEC [(5, 6)]), [97, 0, 62, 98, 0, 99, 0])"
  by code_simp

theorem parsecmd_words_witness:
  "\<exists>c buf. parsecmd sh_line = Inr (c, buf) \<and> (3, 4) \<in> tokens c \<and> buf ! 3 = sh_line ! 3 \<and> buf ! 4 = 0"
  using parsecmd_words [OF sh_line_parsed, of 3 4] sh_line_parsed by auto

section \<open>Appending\<close>

text \<open>A line with \<^verbatim>\<open>>>\<close> at position \<open>k\<close>, and the line with a blank instead of the second character.\<close>

definition twin :: "nat \<Rightarrow> u8 list \<Rightarrow> u8 list \<Rightarrow> bool" where
  "twin k b b' \<longleftrightarrow> Suc k < length b \<and> b ! k = 62 \<and> b ! Suc k = 62 \<and> (k = 0 \<or> b ! (k - 1) \<noteq> 62) \<and> b' = b[Suc k := 32]"

lemma twin_at:
  assumes "twin k b b'"
  shows "i \<noteq> Suc k \<Longrightarrow> at b' i = at b i" "at b' (Suc k) = 32" "at b (Suc k) = 62" "at b k = 62" "length b' = length b" "Suc i = k \<Longrightarrow> at b i \<noteq> 62"
  using assms by (auto simp: twin_def at_def)

lemma twin_skip:
  assumes "twin k b b'" "\<not> P 62" "s \<noteq> Suc k"
  shows "skip_while P b' s = skip_while P b s \<and> skip_while P b s \<noteq> Suc k"
  using assms
proof (induction P b s rule: skip_while.induct)
  case (1 P b s)
  note a = twin_at [OF 1(2)]
  show ?case
  proof (cases "s < length b \<and> P (at b s)")
    case True
    then have "s \<noteq> k" using a(4) 1(3) by auto
    then show ?thesis using 1(1) [OF True 1(2,3)] True a(1) [OF 1(4)] a(5) by (simp add: skip_while.simps [of P b s] skip_while.simps [of P b' s])
  next
    case False
    then show ?thesis using a(1) [OF 1(4)] a(5) 1(4) by (auto simp: skip_while.simps [of P b s] skip_while.simps [of P b' s])
  qed
qed

lemma twin_ws: "twin k b b' \<Longrightarrow> s \<noteq> Suc k \<Longrightarrow> skip_ws b' s = skip_ws b s \<and> skip_ws b s \<noteq> Suc k"
  by (rule twin_skip) (simp_all add: whitespace_def)

lemma twin_peek:
  assumes "twin k b b'" "s \<noteq> Suc k" "peek b s toks = (r, t)"
  shows "peek b' s toks = (r, t)" "t \<noteq> Suc k"
  using twin_ws [OF assms(1,2)] twin_at(1) [OF assms(1)] assms(3) by (auto simp: peek_def Let_def)

lemma twin_gettoken:
  assumes "twin k b b'" "s \<noteq> Suc k" "gettoken b s = (tok, sp, t)"
  shows "t \<noteq> Suc k \<and> (\<exists>tok' sp'. gettoken b' s = (tok', sp', t) \<and> (tok' = tok \<and> sp' = sp \<or> tok = 43 \<and> tok' = 62))"
proof -
  note a = twin_at [OF assms(1)] and w = twin_ws [OF assms(1)]
  let ?q = "skip_ws b s"
  have q: "skip_ws b' s = ?q" "?q \<noteq> Suc k" "at b' ?q = at b ?q" using w [OF assms(2)] a(1) by auto
  have e: "skip_while word_char b' ?q = skip_while word_char b ?q" "skip_while word_char b ?q \<noteq> Suc k"
    using twin_skip [OF assms(1) _ q(2), of word_char] by (auto simp: word_char_def symbols_def)
  have two: "skip_ws b' (Suc k) = skip_ws b (Suc (Suc k))"
    using w [of "Suc (Suc k)"] a(2,5) assms(1) by (subst skip_while.simps) (auto simp: twin_def whitespace_def)
  show ?thesis
  proof (cases "at b ?q = 62")
    case True
    show ?thesis
    proof (cases "?q = k")
      case k: True
      then show ?thesis using assms(3) a(2-4) q two w [of "Suc (Suc k)"] by (auto simp: gettoken_def Let_def)
    next
      case False
      have "at b' (Suc ?q) = at b (Suc ?q)" using False a(1) [of "Suc ?q"] by simp
      moreover have "at b (Suc ?q) = 62 \<Longrightarrow> Suc ?q \<noteq> k" using a(6) [of ?q] True by auto
      ultimately show ?thesis using assms(3) True False q w [of "Suc ?q"] w [of "Suc (Suc ?q)"] by (auto simp: gettoken_def Let_def split: if_splits)
    qed
  next
    case False
    then have "?q \<noteq> k" using a(4) by auto
    then show ?thesis using assms(3) False q e w [of ?q] w [of "Suc ?q"] w [of "skip_while word_char b ?q"]
      by (auto simp: gettoken_def Let_def split: if_splits)
  qed
qed

lemma twin_next:
  assumes "twin k b b'" "s \<noteq> Suc k"
  shows "snd (snd (gettoken b' s)) = snd (snd (gettoken b s))" "snd (snd (gettoken b s)) \<noteq> Suc k"
  using twin_gettoken [OF assms, of "fst (gettoken b s)" "fst (snd (gettoken b s))" "snd (snd (gettoken b s))"] by auto

text \<open>Nothing in the grammar sees the difference, and no position falls between the two characters.\<close>

definition keeps :: "nat \<Rightarrow> sh_error + 'a \<times> nat \<Rightarrow> sh_error + 'a \<times> nat \<Rightarrow> bool" where
  "keeps k r r' \<longleftrightarrow> r' = r \<and> (\<forall>c t. r = Inr (c, t) \<longrightarrow> t \<noteq> Suc k)"

lemma twin_back:
  assumes "twin k b b'" "s \<noteq> Suc k"
  shows "back_loop b' s c = back_loop b s c \<and> snd (back_loop b s c) \<noteq> Suc k"
  using assms
proof (induction b s c rule: back_loop.induct)
  case (1 b s c)
  obtain r t where p: "peek b s [38] = (r, t)" by fastforce
  note p' = twin_peek [OF 1(2,3) p]
  show ?case
    using 1(1) [OF p [symmetric] _ 1(2)] twin_next [OF 1(2) p'(2)] p p'
    by (cases r) (simp_all add: back_loop.simps [of b s] back_loop.simps [of b' s])
qed

lemma twin_redir:
  assumes "twin k b b'" "s \<noteq> Suc k"
  shows "keeps k (redir_loop b s rs) (redir_loop b' s rs)"
  using assms
proof (induction b s rs rule: redir_loop.induct)
  case (1 b s rs)
  obtain r t where p: "peek b s [60, 62] = (r, t)" by fastforce
  note p' = twin_peek [OF 1(2,3) p]
  obtain x sp u where g: "gettoken b t = (x, sp, u)" by (metis prod_cases3)
  obtain y sq v where h: "gettoken b u = (y, sq, v)" by (metis prod_cases3)
  obtain x' sp' where g': "gettoken b' t = (x', sp', u)" "u \<noteq> Suc k" "x' = x \<or> x = 43 \<and> x' = 62" using twin_gettoken [OF 1(2) p'(2) g] by blast
  obtain y' sq' where h': "gettoken b' u = (y', sq', v)" "v \<noteq> Suc k" "y' = y \<and> sq' = sq \<or> y = 43 \<and> y' = 62" using twin_gettoken [OF 1(2) g'(2) h] by blast
  show ?case
  proof (cases "r \<and> y = 97")
    case True
    then have "y' = 97" "sq' = sq" using h'(3) by auto
    with 1(1) [OF p [symmetric] _ g [symmetric] refl h [symmetric] refl _ 1(2) h'(2)] True p p' g g' h h' show ?thesis
      by (auto simp: redir_loop.simps [of b s] redir_loop.simps [of b' s])
  next
    case False
    then show ?thesis using p p' g g' h h' by (auto simp: redir_loop.simps [of b s] redir_loop.simps [of b' s] keeps_def)
  qed
qed

lemma keeps_Inl [simp]: "keeps k (Inl e) (Inl e)"
  by (simp add: keeps_def)

lemma keeps_bind:
  assumes "keeps k r r'" "\<And>c t. t \<noteq> Suc k \<Longrightarrow> keeps k (f (c, t)) (f' (c, t))"
  shows "keeps k (bindE r f) (bindE r' f')"
  using assms by (cases r) (auto simp: keeps_def)

lemma twin_exec:
  assumes "twin k b b'" "s \<noteq> Suc k"
  shows "exec_loop b' s argv rs = exec_loop b s argv rs \<and> (\<forall>x. exec_loop b s argv rs = Inr x \<longrightarrow> snd (snd x) \<noteq> Suc k)"
  using assms
proof (induction b s argv rs rule: exec_loop.induct)
  case (1 b s argv rs)
  obtain r t where p: "peek b s [124, 41, 38, 59] = (r, t)" by fastforce
  note p' = twin_peek [OF 1(2,3) p]
  obtain x sp u where g: "gettoken b t = (x, sp, u)" by (metis prod_cases3)
  obtain x' sp' where g': "gettoken b' t = (x', sp', u)" "u \<noteq> Suc k" "x' = x \<and> sp' = sp \<or> x = 43 \<and> x' = 62" using twin_gettoken [OF 1(2) p'(2) g] by blast
  note e = exec_loop.simps [of b s] exec_loop.simps [of b' s]
  show ?case
  proof (cases "\<not> r \<and> x = 97 \<and> length (argv @ [sp]) < MAXARGS")
    case True
    then have x: "\<not> r" "x \<noteq> 0" "\<not> x \<noteq> 97" "\<not> MAXARGS \<le> length (argv @ [sp])" "x' = x" "sp' = sp" using g'(3) by auto
    note k = twin_redir [OF 1(2) g'(2), of rs]
    show ?thesis
    proof (cases "redir_loop b u rs")
      case (Inl er)
      then show ?thesis using k x p p' g g' by (simp add: e keeps_def)
    next
      case (Inr y)
      then obtain rs2 v where y: "redir_loop b u rs = Inr (rs2, v)" by (cases y) auto
      then have v: "v \<noteq> Suc k" "redir_loop b' u rs = Inr (rs2, v)" using k by (auto simp: keeps_def)
      then show ?thesis using 1(1) [OF p [symmetric] x(1) g [symmetric] refl x(2-4) y refl 1(2) v(1)] x y p p' g g' by (simp add: e)
    qed
  next
    case False
    then show ?thesis using p p' g g' by (auto simp: e)
  qed
qed

lemma keeps_Inr: "t \<noteq> Suc k \<Longrightarrow> keeps k (Inr (c, t)) (Inr (c, t))"
  by (simp add: keeps_def)

lemma twin_line:
  assumes "twin k b b'" "keeps k (parsepipe n b s) (parsepipe n b' s)" "\<And>s. s \<noteq> Suc k \<Longrightarrow> keeps k (parseline n b s) (parseline n b' s)"
  shows "keeps k (parseline (Suc n) b s) (parseline (Suc n) b' s)"
proof -
  have "keeps k (case back_loop b t c of (c, s) \<Rightarrow> case peek b s [59] of (r, s) \<Rightarrow>
        if r then bindE (parseline n b (snd (snd (gettoken b s)))) (\<lambda>(c', s). Inr (LIST c c', s)) else Inr (c, s))
      (case back_loop b' t c of (c, s) \<Rightarrow> case peek b' s [59] of (r, s) \<Rightarrow>
        if r then bindE (parseline n b' (snd (snd (gettoken b' s)))) (\<lambda>(c', s). Inr (LIST c c', s)) else Inr (c, s))"
    if t: "t \<noteq> Suc k" for c t
  proof -
    obtain c2 u where u: "back_loop b t c = (c2, u)" by fastforce
    have u': "back_loop b' t c = (c2, u)" "u \<noteq> Suc k" using twin_back [OF assms(1) t, of c] u by auto
    obtain r v where v: "peek b u [59] = (r, v)" by fastforce
    note v' = twin_peek [OF assms(1) u'(2) v]
    show ?thesis using u u' v v' twin_next [OF assms(1) v'(2)] assms(3) by (auto intro!: keeps_bind keeps_Inr)
  qed
  then show ?thesis using assms(2) by (auto simp: Let_def intro!: keeps_bind)
qed

lemma twin_pipe:
  assumes "twin k b b'" "keeps k (parseexec n b s) (parseexec n b' s)" "\<And>s. s \<noteq> Suc k \<Longrightarrow> keeps k (parsepipe n b s) (parsepipe n b' s)"
  shows "keeps k (parsepipe (Suc n) b s) (parsepipe (Suc n) b' s)"
proof -
  have "keeps k (case peek b t [124] of (r, s) \<Rightarrow>
        if r then bindE (parsepipe n b (snd (snd (gettoken b s)))) (\<lambda>(c', s). Inr (PIPE c c', s)) else Inr (c, s))
      (case peek b' t [124] of (r, s) \<Rightarrow>
        if r then bindE (parsepipe n b' (snd (snd (gettoken b' s)))) (\<lambda>(c', s). Inr (PIPE c c', s)) else Inr (c, s))"
    if t: "t \<noteq> Suc k" for c t
  proof -
    obtain r v where v: "peek b t [124] = (r, v)" by fastforce
    note v' = twin_peek [OF assms(1) t v]
    show ?thesis using v v' twin_next [OF assms(1) v'(2)] assms(3) by (auto intro!: keeps_bind keeps_Inr)
  qed
  then show ?thesis using assms(2) by (auto simp: Let_def intro!: keeps_bind)
qed

lemma twin_parseexec:
  assumes "twin k b b'" "s \<noteq> Suc k" "\<And>s. s \<noteq> Suc k \<Longrightarrow> keeps k (parseblock n b s) (parseblock n b' s)"
  shows "keeps k (parseexec (Suc n) b s) (parseexec (Suc n) b' s)"
proof -
  obtain r v where v: "peek b s [40] = (r, v)" by fastforce
  note v' = twin_peek [OF assms(1,2) v]
  have "keeps k (bindE (exec_loop b t [] rs) (\<lambda>(argv, rs, s). Inr (wrap rs (EXEC argv), s)))
      (bindE (exec_loop b' t [] rs) (\<lambda>(argv, rs, s). Inr (wrap rs (EXEC argv), s)))" if "t \<noteq> Suc k" for rs t
    using twin_exec [OF assms(1) that, of "[]" rs] by (cases "exec_loop b t [] rs") (auto simp: keeps_def)
  then show ?thesis using v v' assms(3) twin_redir [OF assms(1) v'(2), of "[]"] by (auto intro!: keeps_bind)
qed

lemma twin_block:
  assumes "twin k b b'" "s \<noteq> Suc k" "\<And>s. s \<noteq> Suc k \<Longrightarrow> keeps k (parseline n b s) (parseline n b' s)"
  shows "keeps k (parseblock (Suc n) b s) (parseblock (Suc n) b' s)"
proof -
  obtain r v where v: "peek b s [40] = (r, v)" by fastforce
  note v' = twin_peek [OF assms(1,2) v]
  have "keeps k (case peek b t [41] of (r, s) \<Rightarrow> if \<not> r then Inl (Sh_panic ''syntax - missing )'')
        else bindE (redir_loop b (snd (snd (gettoken b s))) []) (\<lambda>(rs, s). Inr (wrap rs c, s)))
      (case peek b' t [41] of (r, s) \<Rightarrow> if \<not> r then Inl (Sh_panic ''syntax - missing )'')
        else bindE (redir_loop b' (snd (snd (gettoken b' s))) []) (\<lambda>(rs, s). Inr (wrap rs c, s)))"
    if t: "t \<noteq> Suc k" for c t
  proof -
    obtain q w where w: "peek b t [41] = (q, w)" by fastforce
    note w' = twin_peek [OF assms(1) t w]
    show ?thesis using w w' twin_next [OF assms(1) w'(2)] twin_redir [OF assms(1)] by (auto intro!: keeps_bind keeps_Inr)
  qed
  then show ?thesis using v v' twin_next [OF assms(1) v'(2)] assms(3) by (auto simp: Let_def intro!: keeps_bind)
qed

lemma twin_grammar:
  assumes "twin k b b'" "s \<noteq> Suc k"
  shows "keeps k (parseline n b s) (parseline n b' s)" "keeps k (parsepipe n b s) (parsepipe n b' s)"
    "keeps k (parseexec n b s) (parseexec n b' s)" "keeps k (parseblock n b s) (parseblock n b' s)"
  using assms(2)
proof (induction n arbitrary: s)
  case 0
  { case 1 show ?case by simp next
    case 2 show ?case by simp next
    case 3 show ?case by simp next
    case 4 show ?case by simp }
next
  case (Suc n)
  { case 1 then show ?case by (intro twin_line assms Suc.IH) next
    case 2 then show ?case by (intro twin_pipe assms Suc.IH) next
    case 3 then show ?case by (intro twin_parseexec assms Suc.IH) next
    case 4 then show ?case by (intro twin_block assms Suc.IH) }
qed

text \<open>
  C39: The shell treats \<^verbatim>\<open>>>\<close> like \<^verbatim>\<open>>\<close>, wherever it stands in a line: with a blank for the second character every line gives the same command, with the file opened in the
  same mode, or the same error. So \<^verbatim>\<open>>>\<close> overwrites the file from its beginning and nothing is appended.
\<close>

theorem append_overwrites:
  assumes "x = [] \<or> last x \<noteq> 62"
  shows "map_sum id fst (parsecmd (x @ [62, 62] @ y)) = map_sum id fst (parsecmd (x @ [62, 32] @ y))"
proof -
  let ?b = "x @ [62, 62] @ y" and ?b' = "x @ [62, 32] @ y" and ?k = "length x"
  have t: "twin ?k ?b ?b'"
    using assms by (cases x rule: rev_cases) (auto simp: twin_def nth_append list_update_append)
  have l: "keeps ?k (parseline (4 * length ?b + 4) ?b 0) (parseline (4 * length ?b + 4) ?b' 0)" by (rule twin_grammar(1) [OF t]) simp
  show ?thesis
  proof (cases "parseline (4 * length ?b + 4) ?b 0")
    case (Inl e)
    then show ?thesis using l by (simp add: parsecmd_def keeps_def)
  next
    case (Inr cs)
    then obtain c s where s: "parseline (4 * length ?b + 4) ?b 0 = Inr (c, s)" by (cases cs) auto
    then have s': "s \<noteq> Suc ?k" "parseline (4 * length ?b + 4) ?b' 0 = Inr (c, s)" using l by (auto simp: keeps_def)
    obtain r u where u: "peek ?b s [] = (r, u)" by fastforce
    show ?thesis using s s' u twin_peek [OF t s'(1) u] by (simp add: parsecmd_def)
  qed
qed

theorem append_overwrites_witness:
  "map_sum id fst (parsecmd sh_line) = map_sum id fst (parsecmd [97, 62, 32, 98, 59, 99]) \<and>
   map_sum id fst (parsecmd sh_line) = Inr (LIST (REDIR (EXEC [(0, 1)]) (3, 4) (O_WRONLY OR O_CREATE) 1) (EXEC [(5, 6)]))"
  using append_overwrites [of "[97]" "[98, 59, 99]"] sh_line_parsed by (simp add: sh_line_def)

end
