(* ===== verification/Sys_File.thy ===== *)
theory Sys_File
  imports Syscall_Args Sh_Parse
begin

text \<open>
  The system calls on files (\<^verbatim>\<open>sysfile.c\<close>). The result of a call is the integer that it returns. A call that fetches its
  arguments with \<^verbatim>\<open>argstr\<close>, \<^verbatim>\<open>argint\<close> and \<^verbatim>\<open>argptr\<close> does so in the order of the code, and fails with \<^verbatim>\<open>-1\<close> at the first that is bad.
  What \<^verbatim>\<open>read\<close>, \<^verbatim>\<open>fstat\<close> and \<^verbatim>\<open>pipe\<close> deliver is stored at the address given by the process.
\<close>

text \<open>The common pattern of fetching an argument: \<^verbatim>\<open>if(arg... < 0) return -1\<close>.\<close>

definition with_arg :: "(kerr + 'x option) \<Rightarrow> ('x \<Rightarrow> kerr + int \<times> 's) \<Rightarrow> 's \<Rightarrow> kerr + int \<times> 's" where
  "with_arg m f s = bindE m (\<lambda>r. case r of None \<Rightarrow> Inr (-1, s) | Some x \<Rightarrow> f x)"

section \<open>File descriptors\<close>

definition argfd :: "nat \<Rightarrow> 'a fdstate_scheme \<Rightarrow> kerr + (nat \<times> nat) option" where
  "argfd n s =
     bindE (argint n s) (\<lambda>r.
       case r of
         None \<Rightarrow> Inr None
       | Some fd \<Rightarrow>
           if sint fd < 0 \<or> sint fd \<ge> int NOFILE then Inr None
           else bindE (cur_proc s) (\<lambda>i. Inr (map_option (Pair (unat fd)) (p_ofile (procs s ! i) ! unat fd))))"

definition set_ofile :: "nat \<Rightarrow> nat \<Rightarrow> nat option \<Rightarrow> 'a fdstate_scheme \<Rightarrow> 'a fdstate_scheme" where
  "set_ofile i fd f = upd_proc i (\<lambda>p. p\<lparr>p_ofile := (p_ofile p)[fd := f]\<rparr>)"

definition fdalloc :: "nat \<Rightarrow> 'a fdstate_scheme \<Rightarrow> kerr + nat option \<times> 'a fdstate_scheme" where
  "fdalloc f s =
     bindE (cur_proc s) (\<lambda>i.
       case scan (\<lambda>x. x = None) 0 (p_ofile (procs s ! i)) of
         None \<Rightarrow> Inr (None, s)
       | Some fd \<Rightarrow> Inr (Some fd, set_ofile i fd (Some f) s))"

definition sys_dup :: "'a fdstate_scheme \<Rightarrow> kerr + int \<times> 'a fdstate_scheme" where
  "sys_dup s =
     with_arg (argfd 0 s) (\<lambda>(_, f).
       bindE (fdalloc f s) (\<lambda>(r, s).
         case r of None \<Rightarrow> Inr (-1, s) | Some fd \<Rightarrow> bindE (filedup f s) (\<lambda>s. Inr (int fd, s)))) s"

definition sys_read :: "'a fdstate_scheme \<Rightarrow> kerr + int \<times> 'a fdstate_scheme" where
  "sys_read s =
     with_arg (argfd 0 s) (\<lambda>(_, f).
     with_arg (argint 2 s) (\<lambda>n.
     with_arg (argptr 1 (sint n) s) (\<lambda>p.
       bindE (fileread f (sint n) s) (\<lambda>(r, s).
         case r of None \<Rightarrow> Inr (-1, s) | Some xs \<Rightarrow> bindE (ustore xs p s) (\<lambda>s. Inr (int (length xs), s)))) s) s) s"

definition sys_write :: "'a fdstate_scheme \<Rightarrow> kerr + int \<times> 'a fdstate_scheme" where
  "sys_write s =
     with_arg (argfd 0 s) (\<lambda>(_, f).
     with_arg (argint 2 s) (\<lambda>n.
     with_arg (argptr 1 (sint n) s) (\<lambda>p.
       bindE (uload (nat (sint n)) p s) (\<lambda>bs. filewrite f bs s)) s) s) s"

definition sys_close :: "'a fdstate_scheme \<Rightarrow> kerr + int \<times> 'a fdstate_scheme" where
  "sys_close s =
     with_arg (argfd 0 s) (\<lambda>(fd, f).
       bindE (cur_proc s) (\<lambda>i. bindE (fileclose f (set_ofile i fd None s)) (\<lambda>s. Inr (0, s)))) s"

text \<open>The structure \<^verbatim>\<open>stat\<close> in memory: the 16-bit fields are followed by padding, which the call leaves as it was.\<close>

definition STAT_SIZE :: int where "STAT_SIZE = 20"

definition store_stat :: "stat \<Rightarrow> u32 \<Rightarrow> 'a fdstate_scheme \<Rightarrow> kerr + 'a fdstate_scheme" where
  "store_stat st a s =
     bindE (ustore (bytes16 (st_type st)) a s) (\<lambda>s.
     bindE (ustore (bytes32 (st_dev st) @ bytes32 (st_ino st) @ bytes16 (st_nlink st)) (a + 4) s)
       (ustore (bytes32 (st_size st)) (a + 16)))"

definition sys_fstat :: "'a fdstate_scheme \<Rightarrow> kerr + int \<times> 'a fdstate_scheme" where
  "sys_fstat s =
     with_arg (argfd 0 s) (\<lambda>(_, f).
     with_arg (argptr 1 STAT_SIZE s) (\<lambda>p.
       bindE (filestat f s) (\<lambda>(r, s).
         case r of None \<Rightarrow> Inr (-1, s) | Some st \<Rightarrow> bindE (store_stat st p s) (\<lambda>s. Inr (0, s)))) s) s"

section \<open>Links\<close>

definition end_with :: "int \<Rightarrow> 'a fdstate_scheme \<Rightarrow> kerr + int \<times> 'a fdstate_scheme" where
  "end_with r s = bindE (end_op s) (\<lambda>s. Inr (r, s))"

definition add_nlink :: "nat \<Rightarrow> u16 \<Rightarrow> 'a fdstate_scheme \<Rightarrow> kerr + 'a fdstate_scheme" where
  "add_nlink ip d s = iupdate ip (upd_inode ip (\<lambda>p. p\<lparr>i_nlink := i_nlink p + d\<rparr>) s)"

definition link_bad :: "nat \<Rightarrow> 'a fdstate_scheme \<Rightarrow> kerr + int \<times> 'a fdstate_scheme" where
  "link_bad ip s =
     bindE (ilock ip s) (\<lambda>s. bindE (add_nlink ip (-1) s) (\<lambda>s. bindE (iunlockput ip s) (end_with (-1))))"

definition do_link :: "u8 list \<Rightarrow> u8 list \<Rightarrow> 'a fdstate_scheme \<Rightarrow> kerr + int \<times> 'a fdstate_scheme" where
  "do_link old new s =
     bindE (begin_op s) (\<lambda>s.
     bindE (namei old s) (\<lambda>(r, s).
       case r of
         None \<Rightarrow> end_with (-1) s
       | Some ip \<Rightarrow>
           bindE (ilock ip s) (\<lambda>s.
             if i_type (icache s ! ip) = T_DIR then bindE (iunlockput ip s) (end_with (-1))
             else
               bindE (add_nlink ip 1 s) (\<lambda>s.
               bindE (iunlock ip s) (\<lambda>s.
               bindE (nameiparent new s) (\<lambda>(r, s).
                 case r of
                   None \<Rightarrow> link_bad ip s
                 | Some (dp, name) \<Rightarrow>
                     bindE (ilock dp s) (\<lambda>s.
                       bindE (if i_dev (icache s ! dp) \<noteq> i_dev (icache s ! ip) then Inr (-1, s)
                              else dirlink dp name (i_inum (icache s ! ip)) s) (\<lambda>(r, s).
                         if r < 0 then bindE (iunlockput dp s) (link_bad ip)
                         else bindE (iunlockput dp s) (\<lambda>s. bindE (iput ip s) (end_with 0))))))))))"

definition sys_link :: "'a fdstate_scheme \<Rightarrow> kerr + int \<times> 'a fdstate_scheme" where
  "sys_link s = with_arg (argstr 0 s) (\<lambda>old. with_arg (argstr 1 s) (\<lambda>new. do_link old new s) s) s"

definition isdirempty :: "nat \<Rightarrow> 'a fdstate_scheme \<Rightarrow> kerr + bool \<times> 'a fdstate_scheme" where
  "isdirempty dp s =
     bindE (dir_scan ''isdirempty: readi'' (\<lambda>de. de_inum de \<noteq> 0) dp (drop 2 (dir_offs (i_size (icache s ! dp)))) s) (\<lambda>(r, s).
       Inr (r = None, s))"

definition dot :: "u8 list" where "dot = [46]"
definition dotdot :: "u8 list" where "dotdot = [46, 46]"

definition unlink_bad :: "nat \<Rightarrow> 'a fdstate_scheme \<Rightarrow> kerr + int \<times> 'a fdstate_scheme" where
  "unlink_bad dp s = bindE (iunlockput dp s) (end_with (-1))"

definition do_unlink :: "u8 list \<Rightarrow> 'a fdstate_scheme \<Rightarrow> kerr + int \<times> 'a fdstate_scheme" where
  "do_unlink pth s =
     bindE (begin_op s) (\<lambda>s.
     bindE (nameiparent pth s) (\<lambda>(r, s).
       case r of
         None \<Rightarrow> end_with (-1) s
       | Some (dp, name) \<Rightarrow>
           bindE (ilock dp s) (\<lambda>s.
             if namecmp name dot = 0 \<or> namecmp name dotdot = 0 then unlink_bad dp s
             else
               bindE (dirlookup dp name s) (\<lambda>(r, s).
                 case r of
                   None \<Rightarrow> unlink_bad dp s
                 | Some (ip, off) \<Rightarrow>
                     bindE (ilock ip s) (\<lambda>s.
                       if sint (i_nlink (icache s ! ip)) < 1 then Inl (Panic ''unlink: nlink < 1'')
                       else
                         bindE (if i_type (icache s ! ip) = T_DIR then isdirempty ip s else Inr (True, s)) (\<lambda>(empty, s).
                           if \<not> empty then bindE (iunlockput ip s) (unlink_bad dp)
                           else
                             bindE (writei dp (replicate DIRENT_SIZE 0) (of_nat off) s) (\<lambda>(n, s).
                               if n \<noteq> int DIRENT_SIZE then Inl (Panic ''unlink: writei'')
                               else
                                 bindE (if i_type (icache s ! ip) = T_DIR then add_nlink dp (-1) s else Inr s) (\<lambda>s.
                                 bindE (iunlockput dp s) (\<lambda>s.
                                 bindE (add_nlink ip (-1) s) (\<lambda>s.
                                 bindE (iunlockput ip s) (end_with 0)))))))))))"

definition sys_unlink :: "'a fdstate_scheme \<Rightarrow> kerr + int \<times> 'a fdstate_scheme" where
  "sys_unlink s = with_arg (argstr 0 s) (\<lambda>pth. do_unlink pth s) s"

section \<open>Creating and opening\<close>

text \<open>The inode that \<^verbatim>\<open>create\<close> returns is locked.\<close>

definition create :: "u8 list \<Rightarrow> u16 \<Rightarrow> u16 \<Rightarrow> u16 \<Rightarrow> 'a fdstate_scheme \<Rightarrow> kerr + nat option \<times> 'a fdstate_scheme" where
  "create pth type major minor s =
     bindE (nameiparent pth s) (\<lambda>(r, s).
       case r of
         None \<Rightarrow> Inr (None, s)
       | Some (dp, name) \<Rightarrow>
           bindE (ilock dp s) (\<lambda>s.
           bindE (dirlookup dp name s) (\<lambda>(r, s).
             case r of
               Some (ip, _) \<Rightarrow>
                 bindE (iunlockput dp s) (\<lambda>s.
                 bindE (ilock ip s) (\<lambda>s.
                   if type = T_FILE \<and> i_type (icache s ! ip) = T_FILE then Inr (Some ip, s)
                   else bindE (iunlockput ip s) (\<lambda>s. Inr (None, s))))
             | None \<Rightarrow>
                 bindE (ialloc (i_dev (icache s ! dp)) type s) (\<lambda>(ip, s).
                 bindE (ilock ip s) (\<lambda>s.
                 bindE (iupdate ip (upd_inode ip (\<lambda>p. p\<lparr>i_major := major, i_minor := minor, i_nlink := 1\<rparr>) s)) (\<lambda>s.
                 bindE (if type = T_DIR then
                          bindE (add_nlink dp 1 s) (\<lambda>s.
                          bindE (dirlink ip dot (i_inum (icache s ! ip)) s) (\<lambda>(a, s).
                            if a < 0 then Inl (Panic ''create dots'')
                            else
                              bindE (dirlink ip dotdot (i_inum (icache s ! dp)) s) (\<lambda>(b, s).
                                if b < 0 then Inl (Panic ''create dots'') else Inr s)))
                        else Inr s) (\<lambda>s.
                 bindE (dirlink dp name (i_inum (icache s ! ip)) s) (\<lambda>(r, s).
                   if r < 0 then Inl (Panic ''create: dirlink'')
                   else bindE (iunlockput dp s) (\<lambda>s. Inr (Some ip, s))))))))))"

definition open_fail :: "nat \<Rightarrow> 'a fdstate_scheme \<Rightarrow> kerr + int \<times> 'a fdstate_scheme" where
  "open_fail ip s = bindE (iunlockput ip s) (end_with (-1))"

text \<open>From the locked inode on: the file and its descriptor.\<close>

definition open_inode :: "nat \<Rightarrow> u32 \<Rightarrow> 'a fdstate_scheme \<Rightarrow> kerr + int \<times> 'a fdstate_scheme" where
  "open_inode ip omode s =
     bindE (filealloc s) (\<lambda>(r, s).
       case r of
         None \<Rightarrow> open_fail ip s
       | Some f \<Rightarrow>
           bindE (fdalloc f s) (\<lambda>(r, s).
             case r of
               None \<Rightarrow> bindE (fileclose f s) (open_fail ip)
             | Some fd \<Rightarrow>
                 bindE (iunlock ip s) (\<lambda>s.
                 bindE (end_op s) (\<lambda>s.
                   Inr (int fd, upd_file f (\<lambda>ff. ff\<lparr>f_type := FD_INODE, f_ip := ip, f_off := 0,
                     f_readable := omode AND O_WRONLY = 0, f_writable := omode AND O_WRONLY \<noteq> 0 \<or> omode AND O_RDWR \<noteq> 0\<rparr>) s)))))"

definition do_open :: "u8 list \<Rightarrow> u32 \<Rightarrow> 'a fdstate_scheme \<Rightarrow> kerr + int \<times> 'a fdstate_scheme" where
  "do_open pth omode s =
     bindE (begin_op s) (\<lambda>s.
       if omode AND O_CREATE \<noteq> 0 then
         bindE (create pth T_FILE 0 0 s) (\<lambda>(r, s). case r of None \<Rightarrow> end_with (-1) s | Some ip \<Rightarrow> open_inode ip omode s)
       else
         bindE (namei pth s) (\<lambda>(r, s).
           case r of
             None \<Rightarrow> end_with (-1) s
           | Some ip \<Rightarrow>
               bindE (ilock ip s) (\<lambda>s.
                 if i_type (icache s ! ip) = T_DIR \<and> omode \<noteq> O_RDONLY then open_fail ip s else open_inode ip omode s)))"

definition sys_open :: "'a fdstate_scheme \<Rightarrow> kerr + int \<times> 'a fdstate_scheme" where
  "sys_open s = with_arg (argstr 0 s) (\<lambda>pth. with_arg (argint 1 s) (\<lambda>omode. do_open pth omode s) s) s"

definition sys_mkdir :: "'a fdstate_scheme \<Rightarrow> kerr + int \<times> 'a fdstate_scheme" where
  "sys_mkdir s =
     bindE (begin_op s) (\<lambda>s.
     bindE (argstr 0 s) (\<lambda>a.
       case a of
         None \<Rightarrow> end_with (-1) s
       | Some pth \<Rightarrow>
           bindE (create pth T_DIR 0 0 s) (\<lambda>(r, s).
             case r of None \<Rightarrow> end_with (-1) s | Some ip \<Rightarrow> bindE (iunlockput ip s) (end_with 0))))"

definition sys_mknod :: "'a fdstate_scheme \<Rightarrow> kerr + int \<times> 'a fdstate_scheme" where
  "sys_mknod s =
     bindE (begin_op s) (\<lambda>s.
     bindE (argstr 0 s) (\<lambda>a.
       case a of
         None \<Rightarrow> end_with (-1) s
       | Some pth \<Rightarrow>
           bindE (argint 1 s) (\<lambda>a.
             case a of
               None \<Rightarrow> end_with (-1) s
             | Some major \<Rightarrow>
                 bindE (argint 2 s) (\<lambda>a.
                   case a of
                     None \<Rightarrow> end_with (-1) s
                   | Some minor \<Rightarrow>
                       bindE (create pth T_DEV (ucast major) (ucast minor) s) (\<lambda>(r, s).
                         case r of None \<Rightarrow> end_with (-1) s | Some ip \<Rightarrow> bindE (iunlockput ip s) (end_with 0))))))"

definition sys_chdir :: "'a fdstate_scheme \<Rightarrow> kerr + int \<times> 'a fdstate_scheme" where
  "sys_chdir s =
     bindE (cur_proc s) (\<lambda>i.
     bindE (begin_op s) (\<lambda>s.
     bindE (argstr 0 s) (\<lambda>a.
       case a of
         None \<Rightarrow> end_with (-1) s
       | Some pth \<Rightarrow>
           bindE (namei pth s) (\<lambda>(r, s).
             case r of
               None \<Rightarrow> end_with (-1) s
             | Some ip \<Rightarrow>
                 bindE (ilock ip s) (\<lambda>s.
                   if i_type (icache s ! ip) \<noteq> T_DIR then bindE (iunlockput ip s) (end_with (-1))
                   else
                     bindE (iunlock ip s) (\<lambda>s.
                       case p_cwd (procs s ! i) of
                         None \<Rightarrow> Inl NullDeref
                       | Some cwd \<Rightarrow>
                           bindE (iput cwd s) (\<lambda>s.
                           bindE (end_op s) (\<lambda>s. Inr (0, upd_proc i (\<lambda>p. p\<lparr>p_cwd := Some ip\<rparr>) s)))))))))"

section \<open>Pipes\<close>

definition close_both :: "nat \<Rightarrow> nat \<Rightarrow> 'a fdstate_scheme \<Rightarrow> kerr + int \<times> 'a fdstate_scheme" where
  "close_both rd wr s = bindE (fileclose rd s) (\<lambda>s. bindE (fileclose wr s) (\<lambda>s. Inr (-1, s)))"

definition sys_pipe :: "'a fdstate_scheme \<Rightarrow> kerr + int \<times> 'a fdstate_scheme" where
  "sys_pipe s =
     with_arg (argptr 0 8 s) (\<lambda>fd.
       bindE (pipealloc s) (\<lambda>(r, s).
         case r of
           None \<Rightarrow> Inr (-1, s)
         | Some (rd, wr) \<Rightarrow>
             bindE (fdalloc rd s) (\<lambda>(r, s).
               case r of
                 None \<Rightarrow> close_both rd wr s
               | Some fd0 \<Rightarrow>
                   bindE (fdalloc wr s) (\<lambda>(r, s).
                     case r of
                       None \<Rightarrow> bindE (cur_proc s) (\<lambda>i. close_both rd wr (set_ofile i fd0 None s))
                     | Some fd1 \<Rightarrow>
                         bindE (ustore (bytes32 (of_nat fd0) @ bytes32 (of_nat fd1)) fd s) (\<lambda>s. Inr (0, s)))))) s"

end
