(* ===== verification/Sys_Proc.thy ===== *)
theory Sys_Proc
  imports Sys_File
begin

text \<open>
  Creating and ending processes (\<^verbatim>\<open>growproc\<close>, \<^verbatim>\<open>fork\<close>, \<^verbatim>\<open>exit\<close>, \<^verbatim>\<open>userinit\<close>, \<^verbatim>\<open>forkret\<close> of \<^verbatim>\<open>proc.c\<close>) with their effect on open files and the current directory,
  and the system calls of \<^verbatim>\<open>sysproc.c\<close>. A call that goes to sleep or never returns leaves the state at the switch to
  the scheduler; its result is then \<open>None\<close>.
\<close>

section \<open>Processes\<close>

definition growproc :: "int \<Rightarrow> 'a fdstate_scheme \<Rightarrow> kerr + int \<times> 'a fdstate_scheme" where
  "growproc n s =
     bindE (cur_proc s) (\<lambda>i.
       let sz = p_sz (procs s ! i); pgdir = p_pgdir (procs s ! i) in
       bindE (if n > 0 then allocuvm pgdir sz (sz + word_of_int n) s
              else if n < 0 then deallocuvm pgdir sz (sz + word_of_int n) s
              else Inr (sz, s)) (\<lambda>(r, s).
         if n \<noteq> 0 \<and> r = 0 then Inr (-1, s)
         else bindE (switchuvm (Some i) (upd_proc i (\<lambda>p. p\<lparr>p_sz := r\<rparr>) s)) (\<lambda>s. Inr (0, s))))"

text \<open>The copies of the descriptors of process \<open>i\<close> in its child \<open>np\<close>.\<close>

definition dup_fd :: "nat \<Rightarrow> nat \<Rightarrow> nat \<Rightarrow> 'a fdstate_scheme \<Rightarrow> kerr + 'a fdstate_scheme" where
  "dup_fd i np fd s =
     (case p_ofile (procs s ! i) ! fd of
        None \<Rightarrow> Inr s
      | Some f \<Rightarrow> bindE (filedup f s) (\<lambda>s. Inr (set_ofile np fd (Some f) s)))"

text \<open>\<^verbatim>\<open>safestrcpy(np->name, name, sizeof(name))\<close>, with the name as the string before the null.\<close>

definition copy_name :: "u8 list \<Rightarrow> u8 list" where
  "copy_name name = take 15 (takeWhile (\<lambda>c. c \<noteq> 0) name)"

definition fork :: "'a fdstate_scheme \<Rightarrow> kerr + u32 \<times> 'a fdstate_scheme" where
  "fork s =
     bindE (cur_proc s) (\<lambda>i.
     bindE (allocproc s) (\<lambda>(r, s).
       case r of
         None \<Rightarrow> Inr (-1, s)
       | Some np \<Rightarrow>
           bindE (copyuvm (p_pgdir (procs s ! i)) (p_sz (procs s ! i)) s) (\<lambda>(d, s).
             if d = 0 then
               bindE (kfree (p_kstack (procs s ! np)) (upd_proc np (\<lambda>p. p\<lparr>p_pgdir := 0\<rparr>) s)) (\<lambda>s.
                 Inr (-1, upd_proc np (\<lambda>p. p\<lparr>p_kstack := 0, p_state := UNUSED\<rparr>) s))
             else
               (let s = upd_proc np (\<lambda>p. p\<lparr>p_pgdir := d, p_sz := p_sz (procs s ! i), p_parent := Some i\<rparr>) s;
                    s = s\<lparr>mem := memmove (p_tf (procs s ! np)) (p_tf (procs s ! i)) TF_SIZE (mem s)\<rparr>;
                    s = store (p_tf (procs s ! np) + TF_EAX) 0 s in
                bindE (foldE (dup_fd i np) [0..<NOFILE] s) (\<lambda>s.
                  case p_cwd (procs s ! i) of
                    None \<Rightarrow> Inl NullDeref
                  | Some cwd \<Rightarrow>
                      bindE (idup cwd s) (\<lambda>(d, s).
                      let s = upd_proc np (\<lambda>p. p\<lparr>p_cwd := Some d, p_name := copy_name (p_name (procs s ! i))\<rparr>) s;
                          pid = p_pid (procs s ! np) in
                      bindE (publish np s) (\<lambda>s. Inr (pid, s))))))))"

definition close_fd :: "nat \<Rightarrow> nat \<Rightarrow> 'a fdstate_scheme \<Rightarrow> kerr + 'a fdstate_scheme" where
  "close_fd i fd s =
     (case p_ofile (procs s ! i) ! fd of
        None \<Rightarrow> Inr s
      | Some f \<Rightarrow> bindE (fileclose f s) (\<lambda>s. Inr (set_ofile i fd None s)))"

definition exit :: "'a fdstate_scheme \<Rightarrow> kerr + 'a fdstate_scheme" where
  "exit s =
     bindE (cur_proc s) (\<lambda>i.
       if initproc s = Some i then Inl (Panic ''init exiting'')
       else
         bindE (foldE (close_fd i) [0..<NOFILE] (upd_proc i (\<lambda>p. p\<lparr>p_end_time := ticks s\<rparr>) s)) (\<lambda>s.
         bindE (begin_op s) (\<lambda>s.
           case p_cwd (procs s ! i) of
             None \<Rightarrow> Inl NullDeref
           | Some cwd \<Rightarrow>
               bindE (iput cwd s) (\<lambda>s.
               bindE (end_op s) (\<lambda>s.
                 exit_tail i (upd_proc i (\<lambda>p. p\<lparr>p_cwd := None\<rparr>) s))))))"

text \<open>The first process; \<open>code\<close> and \<open>size\<close> are the linker's symbols for the program that it starts with.\<close>

definition SEG_UCODE :: u32 where "SEG_UCODE = 3"
definition SEG_UDATA :: u32 where "SEG_UDATA = 4"
definition DPL_USER :: u32 where "DPL_USER = 3"
definition FL_IF :: u32 where "FL_IF = 0x200"

text \<open>The fields \<^verbatim>\<open>cs\<close>, \<^verbatim>\<open>ds\<close>, \<^verbatim>\<open>es\<close>, \<^verbatim>\<open>ss\<close> are 16 bits wide and followed by padding, which \<^verbatim>\<open>memset\<close> has cleared.\<close>

definition first_tf :: "u32 \<Rightarrow> 'a machine_scheme \<Rightarrow> 'a machine_scheme" where
  "first_tf tf s =
     (let s = s\<lparr>mem := memset tf 0 TF_SIZE (mem s)\<rparr>;
          cs = push_bit 3 SEG_UCODE OR DPL_USER; ds = push_bit 3 SEG_UDATA OR DPL_USER
      in store (tf + 56) 0 (store (tf + 68) PGSIZE (store (tf + 64) FL_IF (store (tf + 72) ds (store (tf + 40) ds
           (store (tf + 44) ds (store (tf + 60) cs s)))))))"

definition userinit :: "u32 \<Rightarrow> u32 \<Rightarrow> 'a fdstate_scheme \<Rightarrow> kerr + 'a fdstate_scheme" where
  "userinit code csize s =
     bindE (allocproc s) (\<lambda>(r, s).
     let s = s\<lparr>initproc := r\<rparr> in
     bindE (setupkvm s) (\<lambda>(d, s).
       case r of
         None \<Rightarrow> Inl NullDeref
       | Some p \<Rightarrow>
           if d = 0 then Inl (Panic ''userinit: out of memory?'')
           else
             bindE (inituvm d code csize (upd_proc p (\<lambda>p. p\<lparr>p_pgdir := d\<rparr>) s)) (\<lambda>s.
             let s = first_tf (p_tf (procs s ! p)) (upd_proc p (\<lambda>p. p\<lparr>p_sz := PGSIZE, p_name := [105, 110, 105, 116, 99, 111, 100, 101]\<rparr>) s) in
             bindE (namei [47] s) (\<lambda>(c, s). publish p (upd_proc p (\<lambda>p. p\<lparr>p_cwd := c\<rparr>) s)))))"

text \<open>\<open>first\<close> is the static variable of \<^verbatim>\<open>forkret\<close>.\<close>

definition forkret :: "bool \<Rightarrow> 'a fdstate_scheme \<Rightarrow> kerr + bool \<times> 'a fdstate_scheme" where
  "forkret first s =
     bindE (release L_ptable s) (\<lambda>s.
       if first then bindE (iinit ROOTDEV s) (\<lambda>s. bindE (initlog ROOTDEV s) (\<lambda>s. Inr (False, s))) else Inr (False, s))"

section \<open>System calls\<close>

definition sys_fork :: "'a fdstate_scheme \<Rightarrow> kerr + u32 option \<times> 'a fdstate_scheme" where
  "sys_fork s = bindE (fork s) (\<lambda>(r, s). Inr (Some r, s))"

definition sys_exit :: "'a fdstate_scheme \<Rightarrow> kerr + u32 option \<times> 'a fdstate_scheme" where
  "sys_exit s = bindE (exit s) (\<lambda>s. Inr (None, s))"

definition sys_wait :: "'a fdstate_scheme \<Rightarrow> kerr + u32 option \<times> 'a fdstate_scheme" where
  "sys_wait s = wait s"

text \<open>\<^verbatim>\<open>waitx\<close> stores the two times through the pointers while it reaps the child.\<close>

definition sys_waitx :: "'a fdstate_scheme \<Rightarrow> kerr + u32 option \<times> 'a fdstate_scheme" where
  "sys_waitx s =
     bindE (argptr 0 4 s) (\<lambda>a.
       case a of
         None \<Rightarrow> Inr (Some (-1), s)
       | Some wt \<Rightarrow>
           bindE (argptr 1 4 s) (\<lambda>b.
             case b of
               None \<Rightarrow> Inr (Some (-1), s)
             | Some rt \<Rightarrow>
                 bindE (waitx s) (\<lambda>(r, s).
                   case r of
                     None \<Rightarrow> Inr (None, s)
                   | Some (pid, None) \<Rightarrow> Inr (Some pid, s)
                   | Some (pid, Some w) \<Rightarrow>
                       bindE (ustore (bytes32 (wtime w)) wt s) (\<lambda>s.
                       bindE (ustore (bytes32 (rtime w)) rt s) (\<lambda>s. Inr (Some pid, s))))))"

definition sys_set_priority :: "'a fdstate_scheme \<Rightarrow> kerr + u32 option \<times> 'a fdstate_scheme" where
  "sys_set_priority s =
     bindE (argint 0 s) (\<lambda>a.
       case a of None \<Rightarrow> Inr (Some (-1), s) | Some n \<Rightarrow> bindE (set_priority (sint n) s) (\<lambda>(r, s). Inr (Some (word_of_int r), s)))"

definition enc_stat :: "proc_stat \<Rightarrow> u8 list" where
  "enc_stat ps = bytes32 (ps_pid ps) @ bytes32 (ps_runtime ps) @ bytes32 (ps_num_run ps) @ bytes32 (word_of_int (ps_current_queue ps)) @
     concat (map bytes32 (ps_ticks ps))"

text \<open>The argument is checked for the size of a pointer, not for that of the structure.\<close>

definition sys_getpinfo :: "'a fdstate_scheme \<Rightarrow> kerr + u32 option \<times> 'a fdstate_scheme" where
  "sys_getpinfo s =
     bindE (argint 0 s) (\<lambda>a.
       case a of
         None \<Rightarrow> Inr (Some (-1), s)
       | Some pid \<Rightarrow>
           bindE (argptr 1 4 s) (\<lambda>b.
             case b of
               None \<Rightarrow> Inr (Some (-1), s)
             | Some p \<Rightarrow>
                 bindE (getpinfo pid s) (\<lambda>(r, s).
                   case r of
                     None \<Rightarrow> Inr (Some (-1), s)
                   | Some ps \<Rightarrow> bindE (ustore (enc_stat ps) p s) (\<lambda>s. Inr (Some 0, s)))))"

definition sys_kill :: "'a fdstate_scheme \<Rightarrow> kerr + u32 option \<times> 'a fdstate_scheme" where
  "sys_kill s =
     bindE (argint 0 s) (\<lambda>a.
       case a of None \<Rightarrow> Inr (Some (-1), s) | Some pid \<Rightarrow> bindE (kill pid s) (\<lambda>(r, s). Inr (Some (word_of_int r), s)))"

definition sys_getpid :: "'a fdstate_scheme \<Rightarrow> kerr + u32 option \<times> 'a fdstate_scheme" where
  "sys_getpid s = bindE (cur_proc s) (\<lambda>i. Inr (Some (p_pid (procs s ! i)), s))"

definition sys_sbrk :: "'a fdstate_scheme \<Rightarrow> kerr + u32 option \<times> 'a fdstate_scheme" where
  "sys_sbrk s =
     bindE (argint 0 s) (\<lambda>a.
       case a of
         None \<Rightarrow> Inr (Some (-1), s)
       | Some n \<Rightarrow>
           bindE (cur_proc s) (\<lambda>i.
           let addr = p_sz (procs s ! i) in
           bindE (growproc (sint n) s) (\<lambda>(r, s). Inr (Some (if r < 0 then -1 else addr), s))))"

text \<open>One iteration of the loop of \<^verbatim>\<open>sys_sleep\<close>; \<open>ticks0\<close> is the time at which the call began.\<close>

definition sleep_ticks :: "u32 \<Rightarrow> u32 \<Rightarrow> 'a fdstate_scheme \<Rightarrow> kerr + u32 option \<times> 'a fdstate_scheme" where
  "sleep_ticks ticks0 n s =
     (if ticks s - ticks0 < n then
        bindE (cur_proc s) (\<lambda>i.
          if p_killed (procs s ! i) then bindE (release L_tickslock s) (\<lambda>s. Inr (Some (-1), s))
          else bindE (sleep Ch_ticks (Some L_tickslock) s) (\<lambda>s. Inr (None, s)))
      else bindE (release L_tickslock s) (\<lambda>s. Inr (Some 0, s)))"

definition sys_sleep :: "'a fdstate_scheme \<Rightarrow> kerr + u32 option \<times> 'a fdstate_scheme" where
  "sys_sleep s =
     bindE (argint 0 s) (\<lambda>a.
       case a of
         None \<Rightarrow> Inr (Some (-1), s)
       | Some n \<Rightarrow> bindE (acquire L_tickslock s) (\<lambda>s. sleep_ticks (ticks s) n s))"

definition sys_sleep_resume :: "nat \<Rightarrow> u32 \<Rightarrow> u32 \<Rightarrow> 'a fdstate_scheme \<Rightarrow> kerr + u32 option \<times> 'a fdstate_scheme" where
  "sys_sleep_resume i ticks0 n s = bindE (sleep_exit i L_tickslock s) (sleep_ticks ticks0 n)"

definition sys_uptime :: "'a fdstate_scheme \<Rightarrow> kerr + u32 option \<times> 'a fdstate_scheme" where
  "sys_uptime s =
     bindE (acquire L_tickslock s) (\<lambda>s.
     let xticks = ticks s in
     bindE (release L_tickslock s) (\<lambda>s. Inr (Some xticks, s)))"

end
