(* ===== verification/Exec.thy ===== *)
theory Exec
  imports Sys_Proc
begin

text \<open>
  Loading a program: \<^verbatim>\<open>exec.c\<close>, with \<^verbatim>\<open>loaduvm\<close> of \<^verbatim>\<open>vm.c\<close> and \<^verbatim>\<open>sys_exec\<close> of \<^verbatim>\<open>sysfile.c\<close>. The headers of an ELF file are read as bytes; a
  \<^verbatim>\<open>goto bad\<close> is the result \<open>None\<close> of the part of the function that it leaves. The argument strings are lists of bytes without the
  null, and \<^verbatim>\<open>copyout\<close> of data whose bytes are known is \<open>copyout_bytes\<close>. The message on a path that does not exist is not modelled.
\<close>

definition ELF_MAGIC :: u32 where "ELF_MAGIC = 0x464C457F"
definition ELF_PROG_LOAD :: u32 where "ELF_PROG_LOAD = 1"
definition MAXARG :: nat where "MAXARG = 32"

section \<open>The format of a program\<close>

record elfhdr =
  e_magic :: u32
  e_entry :: u32
  e_phoff :: u32
  e_phnum :: u16

record proghdr =
  ph_type :: u32
  ph_off :: u32
  ph_vaddr :: u32
  ph_filesz :: u32
  ph_memsz :: u32

definition ELFHDR_SIZE :: nat where "ELFHDR_SIZE = 52"
definition PROGHDR_SIZE :: nat where "PROGHDR_SIZE = 32"

definition get_elfhdr :: "u8 list \<Rightarrow> elfhdr" where
  "get_elfhdr d = \<lparr>e_magic = get32 0 d, e_entry = get32 24 d, e_phoff = get32 28 d, e_phnum = get16 44 d\<rparr>"

definition get_proghdr :: "u8 list \<Rightarrow> proghdr" where
  "get_proghdr d = \<lparr>ph_type = get32 0 d, ph_off = get32 4 d, ph_vaddr = get32 8 d, ph_filesz = get32 16 d, ph_memsz = get32 20 d\<rparr>"

section \<open>Memory of the new program\<close>

text \<open>The bytes \<open>xs\<close> at address \<open>a\<close>.\<close>

definition poke :: "u8 list \<Rightarrow> u32 \<Rightarrow> memory \<Rightarrow> memory" where
  "poke xs a m = (\<lambda>x. if unat (x - a) < length xs then xs ! unat (x - a) else m x)"

function copyout_bytes :: "u32 \<Rightarrow> u32 \<Rightarrow> u8 list \<Rightarrow> 'a kmem_scheme \<Rightarrow> kerr + int \<times> 'a kmem_scheme" where
  "copyout_bytes pgdir va xs s =
     (if xs = [] then Inr (0, s)
      else
       (let va0 = PGROUNDDOWN va in
        bindE (uva2ka pgdir va0 s) (\<lambda>pa0.
          if pa0 = 0 then Inr (-1, s)
          else
           (let n = min (4096 - unat (va - va0)) (length xs) in
            copyout_bytes pgdir (va0 + PGSIZE) (drop n xs) (s\<lparr>mem := poke (take n xs) (pa0 + (va - va0)) (mem s)\<rparr>)))))"
  by pat_completeness auto
termination
proof (relation "measure (\<lambda>(_, _, xs, _). length xs)", simp)
  fix va :: u32
  have "unat (va - PGROUNDDOWN va) < 4096" using page_offset_less [of va] by (simp add: va_minus_rounddown)
  then show "((pgdir, x + PGSIZE, drop y xs, t), pgdir, va, xs, s) \<in> measure (\<lambda>(_, _, xs, _). length xs)"
    if "xs \<noteq> []" "x = PGROUNDDOWN va" "y = min (4096 - unat (va - x)) (length xs)" for pgdir x y xs and t s :: "'a kmem_scheme"
    using that by (cases xs) auto
qed

declare copyout_bytes.simps [simp del]

text \<open>The loop of \<^verbatim>\<open>loaduvm\<close> from page \<open>i\<close> on, \<open>n\<close> bytes before the end.\<close>

function loaduvm_loop :: "u32 \<Rightarrow> u32 \<Rightarrow> nat \<Rightarrow> u32 \<Rightarrow> nat \<Rightarrow> 'a fdstate_scheme \<Rightarrow> kerr + int \<times> 'a fdstate_scheme" where
  "loaduvm_loop pgdir a ip offset n s =
     (if n = 0 then Inr (0, s)
      else
        bindE (walkpgdir pgdir a False s) (\<lambda>(pte, s).
          if pte = 0 then Inl (Panic ''loaduvm: address should exist'')
          else
            (let pa = PTE_ADDR (load pte s); k = min n 4096 in
             bindE (readi ip offset (of_nat k) s) (\<lambda>(r, s).
               case r of
                 None \<Rightarrow> Inr (-1, s)
               | Some xs \<Rightarrow>
                   (let s = s\<lparr>mem := poke xs (P2V pa) (mem s)\<rparr> in
                    if length xs \<noteq> k then Inr (-1, s) else loaduvm_loop pgdir (a + PGSIZE) ip (offset + PGSIZE) (n - k) s)))))"
  by pat_completeness auto
termination
  by (relation "measure (\<lambda>(_, _, _, _, n, _). n)") auto

declare loaduvm_loop.simps [simp del]

text \<open>In the last page of the address space the counter of the loop wraps around and the loop starts again.\<close>

definition loaduvm :: "u32 \<Rightarrow> u32 \<Rightarrow> nat \<Rightarrow> u32 \<Rightarrow> u32 \<Rightarrow> 'a fdstate_scheme \<Rightarrow> kerr + int \<times> 'a fdstate_scheme" where
  "loaduvm pgdir a ip offset sz s =
     (if a mod PGSIZE \<noteq> 0 then Inl (Panic ''loaduvm: addr must be page aligned'') else
        bindE (loaduvm_loop pgdir a ip offset (unat sz) s) (\<lambda>(r, s). if r = 0 \<and> sz > 0xFFFFF000 then Inl Loops else Inr (r, s)))"

section \<open>exec\<close>

text \<open>The loop over the \<open>n\<close> program headers that are left, from offset \<open>off\<close> of the file on: the size of the image.\<close>

fun load_segments :: "nat \<Rightarrow> u32 \<Rightarrow> nat \<Rightarrow> u32 \<Rightarrow> u32 \<Rightarrow> 'a fdstate_scheme \<Rightarrow> kerr + u32 option \<times> 'a fdstate_scheme" where
  "load_segments 0 off ip pgdir sz s = Inr (Some sz, s)"
| "load_segments (Suc n) off ip pgdir sz s =
     bindE (readi ip off (of_nat PROGHDR_SIZE) s) (\<lambda>(r, s).
       case r of
         None \<Rightarrow> Inr (None, s)
       | Some xs \<Rightarrow>
           (let ph = get_proghdr xs; off' = off + of_nat PROGHDR_SIZE in
            if length xs \<noteq> PROGHDR_SIZE then Inr (None, s)
            else if ph_type ph \<noteq> ELF_PROG_LOAD then load_segments n off' ip pgdir sz s
            else if ph_memsz ph < ph_filesz ph then Inr (None, s)
            else if ph_vaddr ph + ph_memsz ph < ph_vaddr ph then Inr (None, s)
            else
              bindE (allocuvm pgdir sz (ph_vaddr ph + ph_memsz ph) s) (\<lambda>(sz, s).
                if sz = 0 then Inr (None, s)
                else if ph_vaddr ph mod PGSIZE \<noteq> 0 then Inr (None, s)
                else
                  bindE (loaduvm pgdir (ph_vaddr ph) ip (ph_off ph) (ph_filesz ph) s) (\<lambda>(r, s).
                    if r < 0 then Inr (None, s) else load_segments n off' ip pgdir sz s))))"

text \<open>Pushing the argument strings: the addresses in the order of the arguments, and the stack pointer.\<close>

fun push_args :: "u8 list list \<Rightarrow> nat \<Rightarrow> u32 \<Rightarrow> u32 list \<Rightarrow> u32 \<Rightarrow> 'a fdstate_scheme \<Rightarrow> kerr + (u32 list \<times> u32) option \<times> 'a fdstate_scheme" where
  "push_args [] argc pgdir ustack sp s = Inr (Some (ustack, sp), s)"
| "push_args (x # xs) argc pgdir ustack sp s =
     (if argc \<ge> MAXARG then Inr (None, s)
      else
        (let sp = (sp - (of_nat (length x) + 1)) AND NOT 3 in
         bindE (copyout_bytes pgdir sp (x @ [0]) s) (\<lambda>(r, s).
           if r < 0 then Inr (None, s) else push_args xs (Suc argc) pgdir (ustack @ [sp]) sp s)))"

text \<open>The part after \<^verbatim>\<open>iunlockput(ip); end_op()\<close> up to the point where nothing can fail any more: size and stack pointer.\<close>

definition exec_stack :: "u8 list list \<Rightarrow> u32 \<Rightarrow> u32 \<Rightarrow> 'a fdstate_scheme \<Rightarrow> kerr + (u32 \<times> u32) option \<times> 'a fdstate_scheme" where
  "exec_stack argv pgdir sz s =
     (let sz = PGROUNDUP sz in
      bindE (allocuvm pgdir sz (sz + 2 * PGSIZE) s) (\<lambda>(sz, s).
        if sz = 0 then Inr (None, s)
        else
          bindE (clearpteu pgdir (sz - 2 * PGSIZE) s) (\<lambda>s.
          bindE (push_args argv 0 pgdir [] sz s) (\<lambda>(r, s).
            case r of
              None \<Rightarrow> Inr (None, s)
            | Some (args, sp) \<Rightarrow>
                (let argc = length args;
                     ustack = [0xFFFFFFFF, of_nat argc, sp - of_nat ((argc + 1) * 4)] @ args @ [0];
                     sp = sp - of_nat ((3 + argc + 1) * 4) in
                 bindE (copyout_bytes pgdir sp (concat (map bytes32 ustack)) s) (\<lambda>(r, s).
                   if r < 0 then Inr (None, s) else Inr (Some (sz, sp), s)))))))"

text \<open>\<^verbatim>\<open>bad\<close> with the inode still locked, and after it was given up.\<close>

definition exec_bad :: "u32 \<Rightarrow> nat option \<Rightarrow> 'a fdstate_scheme \<Rightarrow> kerr + int \<times> 'a fdstate_scheme" where
  "exec_bad pgdir ip s =
     bindE (if pgdir \<noteq> 0 then freevm pgdir s else Inr s) (\<lambda>s.
       case ip of
         None \<Rightarrow> Inr (-1, s)
       | Some i \<Rightarrow> bindE (iunlockput i s) (\<lambda>s. bindE (end_op s) (\<lambda>s. Inr (-1, s))))"

text \<open>The part of the path after the last slash.\<close>

definition last_elem :: "u8 list \<Rightarrow> u8 list" where
  "last_elem pth = rev (takeWhile (Not \<circ> slash) (rev pth))"

definition commit_image :: "nat \<Rightarrow> u8 list \<Rightarrow> u32 \<Rightarrow> u32 \<Rightarrow> u32 \<Rightarrow> u32 \<Rightarrow> 'a fdstate_scheme \<Rightarrow> kerr + int \<times> 'a fdstate_scheme" where
  "commit_image i pth pgdir sz entry sp s =
     (let oldpgdir = p_pgdir (procs s ! i); tf = p_tf (procs s ! i);
          s = upd_proc i (\<lambda>p. p\<lparr>p_name := copy_name (last_elem pth), p_pgdir := pgdir, p_sz := sz\<rparr>) s;
          s = store (tf + TF_ESP) sp (store (tf + TF_EIP) entry s) in
      bindE (switchuvm (Some i) s) (\<lambda>s. bindE (freevm oldpgdir s) (\<lambda>s. Inr (0, s))))"

definition exec :: "u8 list \<Rightarrow> u8 list list \<Rightarrow> 'a fdstate_scheme \<Rightarrow> kerr + int \<times> 'a fdstate_scheme" where
  "exec pth argv s =
     bindE (cur_proc s) (\<lambda>i.
     bindE (begin_op s) (\<lambda>s.
     bindE (namei pth s) (\<lambda>(r, s).
       case r of
         None \<Rightarrow> bindE (end_op s) (\<lambda>s. Inr (-1, s))
       | Some ip \<Rightarrow>
           bindE (ilock ip s) (\<lambda>s.
           bindE (readi ip 0 (of_nat ELFHDR_SIZE) s) (\<lambda>(r, s).
             case r of
               None \<Rightarrow> exec_bad 0 (Some ip) s
             | Some xs \<Rightarrow>
                 (let elf = get_elfhdr xs in
                  if length xs \<noteq> ELFHDR_SIZE \<or> e_magic elf \<noteq> ELF_MAGIC then exec_bad 0 (Some ip) s
                  else
                    bindE (setupkvm s) (\<lambda>(pgdir, s).
                      if pgdir = 0 then exec_bad 0 (Some ip) s
                      else
                        bindE (load_segments (unat (e_phnum elf)) (e_phoff elf) ip pgdir 0 s) (\<lambda>(r, s).
                          case r of
                            None \<Rightarrow> exec_bad pgdir (Some ip) s
                          | Some sz \<Rightarrow>
                              bindE (iunlockput ip s) (\<lambda>s.
                              bindE (end_op s) (\<lambda>s.
                              bindE (exec_stack argv pgdir sz s) (\<lambda>(r, s).
                                case r of
                                  None \<Rightarrow> exec_bad pgdir None s
                                | Some (sz, sp) \<Rightarrow> commit_image i pth pgdir sz (e_entry elf) sp s)))))))))))"

text \<open>The strings that the vector at user address \<open>a\<close> points to, at most \<open>n\<close>.\<close>

fun fetch_argv :: "nat \<Rightarrow> u32 \<Rightarrow> 'a fdstate_scheme \<Rightarrow> kerr + u8 list list option" where
  "fetch_argv 0 a s = Inr None"
| "fetch_argv (Suc n) a s =
     bindE (fetchint a s) (\<lambda>r.
       case r of
         None \<Rightarrow> Inr None
       | Some u \<Rightarrow>
           if u = 0 then Inr (Some [])
           else
             bindE (fetchstr u s) (\<lambda>r.
               case r of
                 None \<Rightarrow> Inr None
               | Some x \<Rightarrow> bindE (fetch_argv n (a + 4) s) (\<lambda>r. Inr (map_option (\<lambda>xs. x # xs) r))))"

definition sys_exec :: "'a fdstate_scheme \<Rightarrow> kerr + int \<times> 'a fdstate_scheme" where
  "sys_exec s =
     with_arg (argstr 0 s) (\<lambda>pth. with_arg (argint 1 s) (\<lambda>uargv.
       with_arg (fetch_argv MAXARG uargv s) (\<lambda>argv. exec pth argv s) s) s) s"

end
