(* ===== verification/Kbd.thy ===== *)
theory Kbd
  imports Console
begin

text \<open>
  The keyboard driver (\<^verbatim>\<open>kbd.c\<close>, \<^verbatim>\<open>kbd.h\<close>): the state of the modifier keys and the translation of scan codes. What the
  controller's ports deliver is the list of scan codes that are waiting; \<^verbatim>\<open>kbdgetc\<close> returns \<^verbatim>\<open>-1\<close> when there is none.
  \<^verbatim>\<open>kbdintr\<close> gives the characters to the console.
\<close>

definition SHIFT :: u8 where "SHIFT = 1"
definition CTL :: u8 where "CTL = 2"
definition ALT :: u8 where "ALT = 4"
definition CAPSLOCK :: u8 where "CAPSLOCK = 8"
definition NUMLOCK :: u8 where "NUMLOCK = 16"
definition SCROLLLOCK :: u8 where "SCROLLLOCK = 32"
definition E0ESC :: u8 where "E0ESC = 64"

text \<open>A table given by its first entries and by designated ones; the others are 0.\<close>

definition key_table :: "u8 list \<Rightarrow> (u8 \<times> u8) list \<Rightarrow> u8 \<Rightarrow> u8" where
  "key_table xs ds k = (case map_of ds k of Some v \<Rightarrow> v | None \<Rightarrow> if unat k < length xs then xs ! unat k else 0)"

definition shiftcode :: "u8 \<Rightarrow> u8" where
  "shiftcode = key_table [] [(0x1D, CTL), (0x2A, SHIFT), (0x36, SHIFT), (0x38, ALT), (0x9D, CTL), (0xB8, ALT)]"

definition togglecode :: "u8 \<Rightarrow> u8" where
  "togglecode = key_table [] [(0x3A, CAPSLOCK), (0x45, NUMLOCK), (0x46, SCROLLLOCK)]"

definition normalmap :: "u8 \<Rightarrow> u8" where
  "normalmap = key_table
    [0, 27, 49, 50, 51, 52, 53, 54, 55, 56, 57, 48, 45, 61, 8, 9,
     113, 119, 101, 114, 116, 121, 117, 105, 111, 112, 91, 93, 10, 0, 97, 115,
     100, 102, 103, 104, 106, 107, 108, 59, 39, 96, 0, 92, 122, 120, 99, 118,
     98, 110, 109, 44, 46, 47, 0, 42, 0, 32, 0, 0, 0, 0, 0, 0,
     0, 0, 0, 0, 0, 0, 0, 55, 56, 57, 45, 52, 53, 54, 43, 49,
     50, 51, 48, 46, 0, 0, 0, 0]
    [(0x9C, 10), (0xB5, 47), (0xC8, 226), (0xD0, 227), (0xC9, 230), (0xD1, 231), (0xCB, 228), (0xCD, 229), (0x97, 224), (0xCF, 225), (0xD2, 232), (0xD3, 233)]"

definition shiftmap :: "u8 \<Rightarrow> u8" where
  "shiftmap = key_table
    [0, 27, 33, 64, 35, 36, 37, 94, 38, 42, 40, 41, 95, 43, 8, 9,
     81, 87, 69, 82, 84, 89, 85, 73, 79, 80, 123, 125, 10, 0, 65, 83,
     68, 70, 71, 72, 74, 75, 76, 58, 34, 126, 0, 124, 90, 88, 67, 86,
     66, 78, 77, 60, 62, 63, 0, 42, 0, 32, 0, 0, 0, 0, 0, 0,
     0, 0, 0, 0, 0, 0, 0, 55, 56, 57, 45, 52, 53, 54, 43, 49,
     50, 51, 48, 46, 0, 0, 0, 0]
    [(0x9C, 10), (0xB5, 47), (0xC8, 226), (0xD0, 227), (0xC9, 230), (0xD1, 231), (0xCB, 228), (0xCD, 229), (0x97, 224), (0xCF, 225), (0xD2, 232), (0xD3, 233)]"

definition ctlmap :: "u8 \<Rightarrow> u8" where
  "ctlmap = key_table
    [0, 0, 0, 0, 0, 0, 0, 0, 0, 0, 0, 0, 0, 0, 0, 0,
     17, 23, 5, 18, 20, 25, 21, 9, 15, 16, 0, 0, 13, 0, 1, 19,
     4, 6, 7, 8, 10, 11, 12, 0, 0, 0, 0, 28, 26, 24, 3, 22,
     2, 14, 13, 0, 0, 239, 0, 0]
    [(0x9C, 13), (0xB5, 239), (0xC8, 226), (0xD0, 227), (0xC9, 230), (0xD1, 231), (0xCB, 228), (0xCD, 229), (0x97, 224), (0xCF, 225), (0xD2, 232), (0xD3, 233)]"

definition charcode :: "u8 \<Rightarrow> u8 \<Rightarrow> u8" where
  "charcode i = (if i = 0 then normalmap else if i = 1 then shiftmap else ctlmap)"

text \<open>One scan code: the character (0 for none) and the new state of the modifiers.\<close>

definition kbd_code :: "u8 \<Rightarrow> u8 \<Rightarrow> u8 \<times> u8" where
  "kbd_code data shift =
     (if data = 0xE0 then (0, shift OR E0ESC)
      else if data AND 0x80 \<noteq> 0 then
        (let data = (if shift AND E0ESC \<noteq> 0 then data else data AND 0x7F)
         in (0, shift AND NOT (shiftcode data OR E0ESC)))
      else
        (let (data, shift) = (if shift AND E0ESC \<noteq> 0 then (data OR 0x80, shift AND NOT E0ESC) else (data, shift));
             shift = shift OR shiftcode data;
             shift = shift XOR togglecode data;
             c = charcode (shift AND (CTL OR SHIFT)) data
         in (if shift AND CAPSLOCK \<noteq> 0 then
               if 97 \<le> c \<and> c \<le> 122 then c - 32 else if 65 \<le> c \<and> c \<le> 90 then c + 32 else c
             else c, shift)))"

text \<open>The calls of \<^verbatim>\<open>kbdgetc\<close> until it returns \<^verbatim>\<open>-1\<close>.\<close>

fun kbd_chars :: "u8 list \<Rightarrow> u8 \<Rightarrow> u32 list \<times> u8" where
  "kbd_chars [] shift = ([], shift)"
| "kbd_chars (d # ds) shift =
     (let (c, shift) = kbd_code d shift; (cs, shift) = kbd_chars ds shift in (ucast c # cs, shift))"

definition kbdintr :: "u8 list \<Rightarrow> u8 \<Rightarrow> 'a fstate_scheme \<Rightarrow> kerr + u8 \<times> 'a fstate_scheme" where
  "kbdintr ds shift s =
     (let (cs, shift) = kbd_chars ds shift in bindE (consoleintr cs s) (\<lambda>(_, s). Inr (shift, s)))"

section \<open>Letters\<close>

text \<open>The scan codes of the three rows of letters.\<close>

definition letter_keys :: "u8 list" where
  "letter_keys = [0x10, 0x11, 0x12, 0x13, 0x14, 0x15, 0x16, 0x17, 0x18, 0x19,
    0x1E, 0x1F, 0x20, 0x21, 0x22, 0x23, 0x24, 0x25, 0x26, 0x2C, 0x2D, 0x2E, 0x2F, 0x30, 0x31, 0x32]"

definition letter_key :: "u8 \<Rightarrow> bool" where
  "letter_key d \<longleftrightarrow> 97 \<le> normalmap d \<and> normalmap d \<le> 122 \<and> shiftmap d = normalmap d - 32 \<and>
     shiftcode d = 0 \<and> togglecode d = 0 \<and> d AND 0x80 = 0 \<and> (d OR 0x80) AND 0x7F = d \<and> (d OR 0x80) AND 0x80 \<noteq> 0 \<and> d OR 0x80 \<noteq> 0xE0 \<and> d \<noteq> 0xE0"

lemma letter_keys_ok: "list_all letter_key letter_keys"
  by code_simp

lemma letter_keyD:
  assumes "d \<in> set letter_keys"
  shows "letter_key d"
  using letter_keys_ok assms by (simp add: list_all_iff)

lemma upper_range: "97 \<le> (c :: u8) \<Longrightarrow> c \<le> 122 \<Longrightarrow> 65 \<le> c - 32 \<and> c - 32 \<le> 90 \<and> \<not> 97 \<le> c - 32 \<and> c - 32 + 32 = c"
  by (simp add: word_le_nat_alt unat_sub; linarith)

lemma byte_cases: "n < 8 \<Longrightarrow> n \<in> {0, 1, 2, 3, 4, 5, 6, 7 :: nat}"
  by auto

lemma shift_bits:
  assumes "(shift :: u8) AND (CTL OR E0ESC) = 0"
  shows "shift AND E0ESC = 0" "shift AND (CTL OR SHIFT) = (if shift AND SHIFT = 0 then 0 else 1)" "shift AND NOT E0ESC = shift"
proof -
  have b: "\<not> bit shift 1" "\<not> bit shift 6"
    using arg_cong [OF assms, of "\<lambda>w. bit w 1"] arg_cong [OF assms, of "\<lambda>w. bit w 6"] by (simp_all add: bit_simps CTL_def E0ESC_def)
  show "shift AND E0ESC = 0"
    by (rule bit_word_eqI) (use b byte_cases in \<open>fastforce simp: bit_simps E0ESC_def\<close>)
  show "shift AND NOT E0ESC = shift"
    by (rule bit_word_eqI) (use b byte_cases in \<open>fastforce simp: bit_simps E0ESC_def\<close>)
  have e: "shift AND SHIFT = (if odd shift then 1 else 0)"
    by (simp add: SHIFT_def and_one_eq odd_iff_mod_2_eq_one)
  have "shift AND (CTL OR SHIFT) = (if odd shift then 1 else 0)"
  proof (rule bit_word_eqI)
    fix n assume "n < LENGTH(8)"
    then have "n \<in> {0, 1, 2, 3, 4, 5, 6, 7}" by (intro byte_cases) simp
    then show "bit (shift AND (CTL OR SHIFT)) n = bit (if odd shift then 1 else 0 :: u8) n"
      using b by (auto simp: bit_simps CTL_def SHIFT_def bit_0)
  qed
  then show "shift AND (CTL OR SHIFT) = (if shift AND SHIFT = 0 then 0 else 1)" unfolding e by simp
qed

lemma letter_code:
  assumes "d \<in> set letter_keys" "shift AND (CTL OR E0ESC) = 0"
  shows "kbd_code d shift = (if (shift AND SHIFT \<noteq> 0) \<noteq> (shift AND CAPSLOCK \<noteq> 0) then normalmap d - 32 else normalmap d, shift)"
    "kbd_code (d OR 0x80) shift = (0, shift)"
proof -
  note k = letter_keyD [OF assms(1), unfolded letter_key_def]
  note b = shift_bits [OF assms(2)]
  show "kbd_code d shift = (if (shift AND SHIFT \<noteq> 0) \<noteq> (shift AND CAPSLOCK \<noteq> 0) then normalmap d - 32 else normalmap d, shift)"
    using k b upper_range [of "normalmap d"] by (simp add: kbd_code_def charcode_def)
  show "kbd_code (d OR 0x80) shift = (0, shift)"
    using k b by (simp add: kbd_code_def)
qed

text \<open>A word that is typed: each key is pressed and released.\<close>

definition typed :: "u8 list \<Rightarrow> u8 list" where
  "typed ks = concat (map (\<lambda>d. [d, d OR 0x80]) ks)"

lemma kbd_chars_append:
  "kbd_chars (xs @ ys) sh = (let (cs, sh) = kbd_chars xs sh; (ds, sh) = kbd_chars ys sh in (cs @ ds, sh))"
  by (induction xs arbitrary: sh) (auto simp: Let_def split: prod.splits)

lemma kbd_typed:
  assumes "set ks \<subseteq> set letter_keys"
  shows "kbd_chars (typed ks) 0 = (concat (map (\<lambda>d. [ucast (normalmap d), 0]) ks), 0)"
  using assms by (induction ks) (auto simp: typed_def letter_code [of _ 0])

lemma letter_char:
  assumes "97 \<le> (b :: u8)" "b \<le> 122"
  shows "(ucast b :: u32) < 256 \<and> (ucast b :: u32) \<notin> {0, 4, 8, 10, 13, 16, 21, 127}" "b \<noteq> 10" "b \<noteq> 4"
proof -
  have "unat b < 2 ^ 32" using assms(2) by (simp add: word_le_nat_alt)
  then have u: "unat (ucast b :: u32) = unat b" by (simp add: unsigned_ucast_eq take_bit_nat_eq_self)
  show "(ucast b :: u32) < 256 \<and> (ucast b :: u32) \<notin> {0, 4, 8, 10, 13, 16, 21, 127}" "b \<noteq> 10" "b \<noteq> 4"
    using assms by (auto simp: word_less_nat_alt word_le_nat_alt word_unat_eq_iff u)
qed

lemma ucast_back: "ucast (ucast (b :: u8) :: u32) = b"
  by (rule bit_word_eqI) (simp add: bit_simps)

lemma line_char_0: "line_char 0 p = p"
  by (cases p) (simp add: line_char_def)

lemma fold_typed:
  "fold line_char (filter (\<lambda>c. c \<noteq> 16) (concat (map (\<lambda>c. [c, 0]) cs))) p = fold line_char (filter (\<lambda>c. c \<noteq> 16) cs) p"
  by (induction cs arbitrary: p) (simp_all add: line_char_0)

section \<open>Properties\<close>

text \<open>
  C35: A letter key gives the small letter of its cap, or the capital when exactly one of shift and caps lock is on (so that
  shift under caps lock gives small letters again), and neither pressing nor releasing it changes the state of the modifiers.
\<close>

theorem kbd_letter:
  assumes "d \<in> set letter_keys" "shift AND (CTL OR E0ESC) = 0"
  shows "kbd_code d shift = (if (shift AND SHIFT \<noteq> 0) \<noteq> (shift AND CAPSLOCK \<noteq> 0) then normalmap d - 32 else normalmap d, shift)
    \<and> kbd_code (d OR 0x80) shift = (0, shift)"
  using letter_code [OF assms] by simp

theorem kbd_letter_witness: "kbd_code 0x1E 9 = (97, 9) \<and> kbd_code 0x1E 1 = (65, 1)"
proof -
  have n: "normalmap 0x1E = 97" by code_simp
  have l: "0x1E \<in> set letter_keys" by (simp add: letter_keys_def)
  show ?thesis
    using kbd_letter [OF l, of 9] kbd_letter [OF l, of 1] by (simp add: n CTL_def E0ESC_def SHIFT_def CAPSLOCK_def)
qed



end
