(* ===== verification/Trap.thy ===== *)
theory Trap
  imports Exec Kbd
begin

text \<open>
  Traps and the system call dispatch: \<^verbatim>\<open>trap.c\<close>, \<^verbatim>\<open>syscall\<close> of \<^verbatim>\<open>syscall.c\<close> and \<^verbatim>\<open>uartintr\<close>. A trap ends by returning to where it came from, or the
  process has left the CPU: it has exited, given up the CPU or gone to sleep in a system call. What the devices deliver is an argument. The
  acknowledgement to the interrupt controller (\<^verbatim>\<open>lapiceoi\<close>) and the messages on the console are not modelled.
\<close>

definition T_SYSCALL :: u32 where "T_SYSCALL = 64"
definition T_IRQ0 :: u32 where "T_IRQ0 = 32"
definition IRQ_TIMER :: u32 where "IRQ_TIMER = 0"
definition IRQ_KBD :: u32 where "IRQ_KBD = 1"
definition IRQ_COM1 :: u32 where "IRQ_COM1 = 4"
definition IRQ_IDE :: u32 where "IRQ_IDE = 14"
definition IRQ_SPURIOUS :: u32 where "IRQ_SPURIOUS = 31"

section \<open>System calls\<close>

text \<open>The calls of \<^verbatim>\<open>sysfile.c\<close> return integers; those that may leave the CPU return nothing then.\<close>

definition int_call :: "('a fdstate_scheme \<Rightarrow> kerr + int \<times> 'a fdstate_scheme) \<Rightarrow> 'a fdstate_scheme \<Rightarrow> kerr + u32 option \<times> 'a fdstate_scheme" where
  "int_call f s = bindE (f s) (\<lambda>(r, s). Inr (Some (word_of_int r), s))"

definition syscalls :: "('a fdstate_scheme \<Rightarrow> kerr + u32 option \<times> 'a fdstate_scheme) list" where
  "syscalls = [sys_fork, sys_exit, sys_wait, int_call sys_pipe, int_call sys_read, sys_kill, int_call sys_exec, int_call sys_fstat, int_call sys_chdir,
     int_call sys_dup, sys_getpid, sys_sbrk, sys_sleep, sys_uptime, int_call sys_open, int_call sys_write, int_call sys_mknod, int_call sys_unlink,
     int_call sys_link, int_call sys_mkdir, int_call sys_close, sys_waitx, sys_set_priority, sys_getpinfo]"

text \<open>Entry 0 of the array is a null pointer. The result says whether the call has returned.\<close>

definition syscall :: "'a fdstate_scheme \<Rightarrow> kerr + bool \<times> 'a fdstate_scheme" where
  "syscall s =
     bindE (cur_proc s) (\<lambda>i.
     let num = sint (load (p_tf (procs s ! i) + TF_EAX) s) in
     if num > 0 \<and> num < int (length (syscalls :: ('a fdstate_scheme \<Rightarrow> kerr + u32 option \<times> 'a fdstate_scheme) list)) + 1 then
       bindE ((syscalls ! (nat num - 1)) s) (\<lambda>(r, s).
         case r of None \<Rightarrow> Inr (False, s) | Some v \<Rightarrow> Inr (True, store (p_tf (procs s ! i) + TF_EAX) v s))
     else Inr (True, store (p_tf (procs s ! i) + TF_EAX) (-1) s))"

section \<open>Interrupts\<close>

datatype trap_end = Returned | Left_Cpu

record devices =
  kbd_bytes :: "u8 list"
  kbd_shift :: u8
  uart_chars :: "u32 list"

definition uartintr :: "u32 list \<Rightarrow> 'a fstate_scheme \<Rightarrow> kerr + 'a fstate_scheme" where
  "uartintr cs s = bindE (consoleintr cs s) (\<lambda>(_, s). Inr s)"

definition timer_tick :: "'a pstate_scheme \<Rightarrow> kerr + 'a pstate_scheme" where
  "timer_tick s =
     (if cpu_id s = 0 then
        bindE (acquire L_tickslock s) (\<lambda>s.
        bindE (inc_runtime (s\<lparr>ticks := ticks s + 1\<rparr>)) (\<lambda>s.
        bindE (wakeup (Some Ch_ticks) s) (release L_tickslock)))
      else Inr s)"

text \<open>The \<^verbatim>\<open>switch\<close>, for the interrupt \<open>no\<close> that came from code segment \<open>cs\<close>; also the new state of the keyboard.\<close>

definition trap_irq :: "u32 \<Rightarrow> u32 \<Rightarrow> devices \<Rightarrow> 'a fdstate_scheme \<Rightarrow> kerr + u8 \<times> 'a fdstate_scheme" where
  "trap_irq no cs d s =
     (if no = T_IRQ0 + IRQ_TIMER then bindE (timer_tick s) (\<lambda>s. Inr (kbd_shift d, s))
      else if no = T_IRQ0 + IRQ_IDE then Inr (kbd_shift d, ideintr s)
      else if no = T_IRQ0 + IRQ_IDE + 1 then Inr (kbd_shift d, s)
      else if no = T_IRQ0 + IRQ_KBD then kbdintr (kbd_bytes d) (kbd_shift d) s
      else if no = T_IRQ0 + IRQ_COM1 then bindE (uartintr (uart_chars d) s) (\<lambda>s. Inr (kbd_shift d, s))
      else if no = T_IRQ0 + 7 \<or> no = T_IRQ0 + IRQ_SPURIOUS then Inr (kbd_shift d, s)
      else
        (case myproc s of
           None \<Rightarrow> Inl (Panic ''trap'')
         | Some i \<Rightarrow>
             if cs AND 3 = 0 then Inl (Panic ''trap'') else Inr (kbd_shift d, upd_proc i (\<lambda>p. p\<lparr>p_killed := True\<rparr>) s)))"

definition leave :: "(kerr + 's) \<Rightarrow> kerr + trap_end \<times> 's" where
  "leave r = bindE r (\<lambda>s. Inr (Left_Cpu, s))"

text \<open>\<^verbatim>\<open>if(myproc() && myproc()->killed && (tf->cs&3) == DPL_USER) exit()\<close>.\<close>

definition killed_exit :: "u32 \<Rightarrow> 'a fdstate_scheme \<Rightarrow> kerr + trap_end \<times> 'a fdstate_scheme" where
  "killed_exit cs s =
     (case myproc s of
        None \<Rightarrow> Inr (Returned, s)
      | Some i \<Rightarrow> if p_killed (procs s ! i) \<and> cs AND 3 = DPL_USER then leave (exit s) else Inr (Returned, s))"

definition timer_running :: "u32 \<Rightarrow> 'a pstate_scheme \<Rightarrow> bool" where
  "timer_running no s \<longleftrightarrow> no = T_IRQ0 + IRQ_TIMER \<and> (case myproc s of None \<Rightarrow> False | Some i \<Rightarrow> p_state (procs s ! i) = RUNNING)"

text \<open>The end of the handler, which depends on the scheduler: FCFS has no code here.\<close>

definition preempt :: "u32 \<Rightarrow> u32 \<Rightarrow> 'a fdstate_scheme \<Rightarrow> kerr + trap_end \<times> 'a fdstate_scheme" where
  "preempt no cs s =
     (case SCHEDULER s of
        SCHED_FCFS \<Rightarrow> Inr (Returned, s)
      | SCHED_MLFQ \<Rightarrow>
          if timer_running no s then
            bindE (inc_pinfo_ticks s) (\<lambda>s.
            bindE (cur_proc s) (\<lambda>i.
              if p_cur_timeslices (procs s ! i) \<ge> TIMESLICE (p_queue (procs s ! i)) then bindE (punisher s) (\<lambda>s. leave (yield s))
              else bindE (inc_timeslice s) (\<lambda>s. Inr (Returned, s))))
          else killed_exit cs s
      | _ \<Rightarrow> if timer_running no s then leave (yield s) else killed_exit cs s)"

text \<open>After a \<^verbatim>\<open>yield\<close> the handler goes on here when the process runs again.\<close>

definition trap_resume :: "u32 \<Rightarrow> 'a fdstate_scheme \<Rightarrow> kerr + trap_end \<times> 'a fdstate_scheme" where
  "trap_resume cs s = bindE (yield_exit s) (killed_exit cs)"

definition trap_syscall :: "u32 \<Rightarrow> 'a fdstate_scheme \<Rightarrow> kerr + trap_end \<times> 'a fdstate_scheme" where
  "trap_syscall tf s =
     bindE (cur_proc s) (\<lambda>i.
       if p_killed (procs s ! i) then leave (exit s)
       else
         bindE (syscall (upd_proc i (\<lambda>p. p\<lparr>p_tf := tf\<rparr>) s)) (\<lambda>(back, s).
           if \<not> back then Inr (Left_Cpu, s)
           else if p_killed (procs s ! i) then leave (exit s) else Inr (Returned, s)))"

definition trap :: "u32 \<Rightarrow> devices \<Rightarrow> 'a fdstate_scheme \<Rightarrow> kerr + (trap_end \<times> u8) \<times> 'a fdstate_scheme" where
  "trap tf d s =
     (let no = load (tf + TF_TRAPNO) s; cs = load (tf + TF_CS) s in
      if no = T_SYSCALL then bindE (trap_syscall tf s) (\<lambda>(e, s). Inr ((e, kbd_shift d), s))
      else
        bindE (trap_irq no cs d s) (\<lambda>(shift, s).
        bindE (killed_exit cs s) (\<lambda>(e, s).
          if e = Left_Cpu then Inr ((e, shift), s) else bindE (preempt no cs s) (\<lambda>(e, s). Inr ((e, shift), s)))))"

end
