(* ===== verification/Trap_Props.thy ===== *)
theory Trap_Props
  imports Trap
begin

text \<open>
  What a timer interrupt does to the process that it interrupts, for each of the schedulers, and how MLFQ moves a process that has
  used up its time one queue down.
\<close>

section \<open>The tick\<close>

text \<open>The fields that the end of the handler looks at.\<close>

definition slice_view :: "proc \<Rightarrow> procstate \<times> int \<times> int \<times> bool \<times> bool" where
  "slice_view p = (p_state p, p_queue p, p_cur_timeslices p, p_killed p, p_punish p)"

lemma timer_tick_ok:
  assumes "sinv {} {} s" "held s = {}" "myproc s = Some i"
  shows "\<exists>t. timer_tick s = Inr t \<and> sinv {} {} t \<and> held t = {} \<and> myproc t = Some i \<and> SCHEDULER t = SCHEDULER s \<and>
    slice_view (procs t ! i) = slice_view (procs s ! i) \<and> ticks t = (if cpu_id s = 0 then ticks s + 1 else ticks s)"
proof (cases "cpu_id s = 0")
  case False
  then show ?thesis using assms by (simp add: timer_tick_def)
next
  case True
  let ?f = "\<lambda>p. if p_state p = RUNNING then p\<lparr>p_run_time := p_run_time p + 1\<rparr> else p"
  let ?a = "s\<lparr>held := {L_tickslock}, ticks := ticks s + 1\<rparr>"
  let ?b = "?a\<lparr>procs := map ?f (procs s)\<rparr>"
  have r: "inc_runtime ?a = Inr ?b" by (simp add: inc_runtime_def)
  have b: "sinv {} {} ?b" using sinv_map_same [of "{}" "{}" ?a ?f] assms(1) by simp
  obtain t where t: "wakeup (Some Ch_ticks) ?b = Inr t" "sinv {} {} t" "pframe ?b t"
    "procs t = map (\<lambda>p. if sleeps_on (Some Ch_ticks) p then woken ?b p else p) (map ?f (procs s))"
    using wakeup_ok [OF b] by auto
  have c: "i < length (procs s)" "p_state (procs s ! i) = RUNNING"
    using cpu_okD(1,2) [OF sinvD(3) [OF assms(1)]] table_okD(2) [OF sinvD(1) [OF assms(1)]] assms(3) by (auto simp: myproc_def)
  have "timer_tick s = Inr (t\<lparr>held := {}\<rparr>)"
    using True assms(2) r t(1) pframeD(3) [OF t(3)] by (simp add: timer_tick_def)
  moreover have "slice_view (procs t ! i) = slice_view (procs s ! i)" using c t(4) by (simp add: slice_view_def sleeps_on_def)
  moreover have "myproc t = Some i" "SCHEDULER t = SCHEDULER s" "ticks t = ticks s + 1" using pframeD [OF t(3)] assms(3) by (simp_all add: myproc_def)
  ultimately show ?thesis using t(2) True by (simp add: myproc_def)
qed

section \<open>Preemption\<close>

text \<open>Whether the interrupt takes the CPU away from a process.\<close>

definition preempts :: "sched_kind \<Rightarrow> proc \<Rightarrow> bool" where
  "preempts k p = (case k of SCHED_FCFS \<Rightarrow> False | SCHED_MLFQ \<Rightarrow> p_cur_timeslices p \<ge> TIMESLICE (p_queue p) | _ \<Rightarrow> True)"

text \<open>The process afterwards, in these fields.\<close>

definition after_tick :: "sched_kind \<Rightarrow> proc \<Rightarrow> procstate \<times> int \<times> int \<times> bool \<times> bool" where
  "after_tick k p =
     (if preempts k p then (RUNNABLE, p_queue p, p_cur_timeslices p, p_killed p, k = SCHED_MLFQ \<or> p_punish p)
      else (RUNNING, p_queue p, p_cur_timeslices p + (if k = SCHED_MLFQ then 1 else 0), p_killed p, p_punish p))"

lemma slice_view_cong: "slice_view p = slice_view q \<Longrightarrow> after_tick k p = after_tick k q \<and> preempts k p = preempts k q"
  by (auto simp: slice_view_def after_tick_def preempts_def split: sched_kind.split)

lemma locked_self_eq:
  assumes "held s = {}" "myproc s = Some i" "f (procs s ! i) = Inr q"
  shows "locked_self f s = Inr (upd_proc i (\<lambda>_. q) s)"
  using assms by (simp add: locked_self_def upd_proc_def)

lemma inc_pinfo_ticks_eq:
  assumes "sinv {} {} s" "held s = {}" "myproc s = Some i"
  shows "\<exists>t. inc_pinfo_ticks s = Inr t \<and> sinv {} {} t \<and> held t = {} \<and> myproc t = Some i \<and> SCHEDULER t = SCHEDULER s \<and> slice_view (procs t ! i) = slice_view (procs s ! i)"
proof -
  have c: "i < length (procs s)" "proc_ok (procs s ! i)"
    using cpu_okD(1) [OF sinvD(3) [OF assms(1)]] table_okD [OF sinvD(1) [OF assms(1)]] assms(3) by (auto simp: myproc_def)
  let ?q = "(procs s ! i)\<lparr>p_ticks := (p_ticks (procs s ! i))[nat (p_queue (procs s ! i)) := p_ticks (procs s ! i) ! nat (p_queue (procs s ! i)) + 1]\<rparr>"
  have "inc_pinfo_ticks s = Inr (upd_proc i (\<lambda>_. ?q) s)"
    unfolding inc_pinfo_ticks_def using c(2) by (intro locked_self_eq [OF assms(2,3)]) (simp add: proc_ok_def)
  moreover from this have "sinv {} {} (upd_proc i (\<lambda>_. ?q) s)" using accounting_ok [OF assms(1)] assms(2) by blast
  ultimately show ?thesis using assms(2,3) c(1) by (simp add: slice_view_def upd_proc_def myproc_def)
qed

lemma yield_leaves:
  assumes "sinv {} {} s" "held s = {}" "myproc s = Some i"
  shows "\<exists>t. yield s = Inr t \<and> leaving i t \<and> SCHEDULER t = SCHEDULER s \<and>
    slice_view (procs t ! i) = (RUNNABLE, p_queue (procs s ! i), p_cur_timeslices (procs s ! i), p_killed (procs s ! i), p_punish (procs s ! i))"
proof -
  have "i < length (procs s)"
    using cpu_okD(1) [OF sinvD(3) [OF assms(1)]] table_okD [OF sinvD(1) [OF assms(1)]] assms(3) by (auto simp: myproc_def)
  then show ?thesis using yield_ok [OF assms] by (auto simp: slice_view_def upd_proc_def)
qed

lemma preempt_ok:
  assumes "sinv {} {} s" "held s = {}" "myproc s = Some i" "\<not> (p_killed (procs s ! i) \<and> cs AND 3 = DPL_USER)"
  shows "\<exists>t. preempt (T_IRQ0 + IRQ_TIMER) cs s = Inr (if preempts (SCHEDULER s) (procs s ! i) then Left_Cpu else Returned, t) \<and> SCHEDULER t = SCHEDULER s \<and>
    slice_view (procs t ! i) = after_tick (SCHEDULER s) (procs s ! i) \<and>
    (if preempts (SCHEDULER s) (procs s ! i) then leaving i t else sinv {} {} t \<and> held t = {} \<and> myproc t = Some i)"
proof -
  have c: "i < length (procs s)" "p_state (procs s ! i) = RUNNING"
    using cpu_okD(1,2) [OF sinvD(3) [OF assms(1)]] table_okD(2) [OF sinvD(1) [OF assms(1)]] assms(3) by (auto simp: myproc_def)
  then have r: "timer_running (T_IRQ0 + IRQ_TIMER) s" using assms(3) by (simp add: timer_running_def)
  consider "SCHEDULER s = SCHED_FCFS" | "SCHEDULER s = SCHED_RR \<or> SCHEDULER s = SCHED_PBS" | "SCHEDULER s = SCHED_MLFQ" by (cases "SCHEDULER s") auto
  then show ?thesis
  proof cases
    case 1
    then show ?thesis using assms c(2) by (simp add: preempt_def preempts_def after_tick_def slice_view_def)
  next
    case 2
    then show ?thesis using yield_leaves [OF assms(1-3)] r by (auto simp: preempt_def preempts_def after_tick_def leave_def)
  next
    case 3
    obtain a where a: "inc_pinfo_ticks s = Inr a" "sinv {} {} a" "held a = {}" "myproc a = Some i" "SCHEDULER a = SCHED_MLFQ" "slice_view (procs a ! i) = slice_view (procs s ! i)"
      using inc_pinfo_ticks_eq [OF assms(1-3)] 3 by auto
    let ?p = "procs a ! i"
    have l: "i < length (procs a)" using cpu_okD(1) [OF sinvD(3) [OF a(2)]] table_okD(2) [OF sinvD(1) [OF a(2)]] a(4) by (auto simp: myproc_def)
    have v: "p_state ?p = RUNNING" "p_queue ?p = p_queue (procs s ! i)" "p_cur_timeslices ?p = p_cur_timeslices (procs s ! i)" "p_killed ?p = p_killed (procs s ! i)" "p_punish ?p = p_punish (procs s ! i)"
      using a(6) c(2) by (simp_all add: slice_view_def)
    have cp: "cur_proc a = Inr i" using a(4) by (simp add: cur_proc_def)
    show ?thesis
    proof (cases "preempts SCHED_MLFQ (procs s ! i)")
      case True
      let ?b = "upd_proc i (\<lambda>_. ?p\<lparr>p_punish := True\<rparr>) a"
      have b: "punisher a = Inr ?b" unfolding punisher_def by (intro locked_self_eq [OF a(3,4)]) simp
      have sb: "sinv {} {} ?b" using accounting_ok [OF a(2)] a(3) b by blast
      obtain t where "yield ?b = Inr t" "leaving i t" "SCHEDULER t = SCHEDULER ?b"
        "slice_view (procs t ! i) = (RUNNABLE, p_queue (procs ?b ! i), p_cur_timeslices (procs ?b ! i), p_killed (procs ?b ! i), p_punish (procs ?b ! i))"
        using yield_leaves [OF sb, of i] a(3,4) by (auto simp: myproc_def)
      then show ?thesis
        using 3 True r a(1,5) b v cp l by (simp add: preempt_def preempts_def after_tick_def leave_def upd_proc_def)
    next
      case False
      let ?b = "upd_proc i (\<lambda>_. ?p\<lparr>p_cur_timeslices := p_cur_timeslices ?p + 1\<rparr>) a"
      have b: "inc_timeslice a = Inr ?b" unfolding inc_timeslice_def by (intro locked_self_eq [OF a(3,4)]) simp
      have "sinv {} {} ?b" using accounting_ok [OF a(2)] a(3) b by blast
      then show ?thesis
        using 3 False r a(1,3,4,5) b v cp l by (simp add: preempt_def preempts_def after_tick_def slice_view_def upd_proc_def myproc_def)
    qed
  qed
qed

lemma trap_timer:
  assumes "sinv {} {} s" "held s = {}" "myproc s = Some i"
    and "load (tf + TF_TRAPNO) s = T_IRQ0 + IRQ_TIMER" "\<not> (p_killed (procs s ! i) \<and> load (tf + TF_CS) s AND 3 = DPL_USER)"
  shows "\<exists>t. trap tf d s = Inr ((if preempts (SCHEDULER s) (procs s ! i) then Left_Cpu else Returned, kbd_shift d), t) \<and> SCHEDULER t = SCHEDULER s \<and>
    slice_view (procs t ! i) = after_tick (SCHEDULER s) (procs s ! i) \<and>
    (if preempts (SCHEDULER s) (procs s ! i) then leaving i t else sinv {} {} t \<and> held t = {} \<and> myproc t = Some i)"
proof -
  let ?cs = "load (tf + TF_CS) s"
  obtain a where a: "timer_tick s = Inr a" "sinv {} {} a" "held a = {}" "myproc a = Some i" "SCHEDULER a = SCHEDULER s" "slice_view (procs a ! i) = slice_view (procs s ! i)"
    using timer_tick_ok [OF assms(1-3)] by blast
  have k: "\<not> (p_killed (procs a ! i) \<and> ?cs AND 3 = DPL_USER)" using a(6) assms(5) by (simp add: slice_view_def)
  then have e: "killed_exit ?cs a = Inr (Returned, a)" using a(4) by (auto simp add: killed_exit_def)
  have i: "trap_irq (T_IRQ0 + IRQ_TIMER) ?cs d s = Inr (kbd_shift d, a)" using a(1) by (simp add: trap_irq_def)
  have n: "T_IRQ0 + IRQ_TIMER \<noteq> T_SYSCALL" by (simp add: T_IRQ0_def IRQ_TIMER_def T_SYSCALL_def)
  note sv = slice_view_cong [OF a(6), of "SCHEDULER s"]
  show ?thesis
    using preempt_ok [OF a(2-4) k] i e n assms(4) unfolding a(5) by (auto simp: trap_def Let_def sv)
qed

text \<open>The scheduler gets the CPU back.\<close>

lemma requeue_punished:
  assumes "leaving i t" "SCHEDULER t = SCHED_MLFQ" "p_state (procs t ! i) = RUNNABLE" "p_punish (procs t ! i)"
  shows "\<exists>u. swtch_back t = Inr (None, u) \<and> p_state (procs u ! i) = RUNNABLE \<and> p_queue (procs u ! i) = min (p_queue (procs t ! i) + 1) (int NUM_QUEUES - 1) \<and>
    p_cur_timeslices (procs u ! i) = 0 \<and> \<not> p_punish (procs u ! i) \<and>
    (\<exists>qs. qbank t qs \<and> i \<notin> set (concat qs) \<and> qbank u (qs[nat (p_queue (procs u ! i)) := qs ! nat (p_queue (procs u ! i)) @ [i]]))"
proof -
  let ?s = "set_myproc None (switchkvm t)"
  have l: "i < length (procs t)" "proc_ok (procs t ! i)" "myproc t = Some i"
    using assms(1) table_okD [OF sinvD(1), of "{i}" "{i}" t] by (simp_all add: leaving_def)
  obtain r u where u: "swtch_back t = Inr (r, u)" using swtch_back_ok [OF assms(1)] by blast
  then obtain v where v: "mlfq_requeue i ?s = Inr v" "release_none v = Inr (r, u)"
    using assms(2) l(3) by (auto simp: swtch_back_def scheduler_back_def Let_def switchkvm_def elim!: bindE_InrE)
  have q: "p_queue (procs t ! i) < int NUM_QUEUES" using l(2) by (simp add: proc_ok_def)
  have f: "p_state (procs v ! i) = RUNNABLE \<and> p_queue (procs v ! i) = min (p_queue (procs t ! i) + 1) (int NUM_QUEUES - 1) \<and> p_cur_timeslices (procs v ! i) = 0 \<and> \<not> p_punish (procs v ! i)"
    using v(1) assms(3,4) l(1) q
    by (auto simp: mlfq_requeue_def enqueue_def upd_proc_def switchkvm_def Let_def split: if_splits elim!: bindE_InrE)
  have e: "r = None" "u = v\<lparr>held := held v - {L_ptable}\<rparr>" using v(2) by (auto simp: release_none_def release_Inr_iff elim!: bindE_InrE)
  obtain qs where qs: "queue_ok {i} t qs" using assms(1,2) by (auto simp: leaving_def sinv_def mlfq_ok_def)
  have "sinv {i} {} ?s" using assms(1,3) by (intro sinv_set_none) (simp_all add: leaving_def switchkvm_def myproc_def)
  moreover have "queue_ok {i} ?s qs" using qs by (simp add: queue_ok_def qbank_def runnables_def switchkvm_def)
  ultimately have "qbank v (qs[nat (p_queue (procs v ! i)) := qs ! nat (p_queue (procs v ! i)) @ [i]])"
    using mlfq_requeue_queue [OF _ _ _ _ v(1)] assms(1,3) by (simp add: leaving_def switchkvm_def)
  then have "qbank u (qs[nat (p_queue (procs u ! i)) := qs ! nat (p_queue (procs u ! i)) @ [i]])" by (simp add: e(2) qbank_def)
  moreover have "qbank t qs" "i \<notin> set (concat qs)" using qs by (simp_all add: queue_ok_def)
  ultimately show ?thesis using u f e by (intro exI [of _ u]) auto
qed

section \<open>Properties\<close>

text \<open>An example: a process of the MLFQ scheduler that has used up its time is interrupted by the timer while it is in the kernel.\<close>

definition timer_image :: "nat \<Rightarrow> pstate \<Rightarrow> fdstate" where
  "timer_image i p = upd_proc i (\<lambda>q. q\<lparr>p_cur_timeslices := TIMESLICE (p_queue q)\<rparr>)
     ((fd_image (fs_image p [] (get_superblock []) []) [] (\<lambda>_. None))\<lparr>mem := (\<lambda>a. if a = 48 then 32 else 0)\<rparr>)"

lemma timer_image_loads: "load (0 + TF_TRAPNO) (timer_image i p) = T_IRQ0 + IRQ_TIMER" "load (0 + TF_CS) (timer_image i p) AND 3 \<noteq> DPL_USER"
  by (simp_all add: timer_image_def upd_proc_def load32_def TF_TRAPNO_def TF_CS_def T_IRQ0_def IRQ_TIMER_def DPL_USER_def)

lemma example_timer:
  "\<exists>(s :: fdstate) i. sinv {} {} s \<and> held s = {} \<and> myproc s = Some i \<and> SCHEDULER s = SCHED_MLFQ \<and> load (0 + TF_TRAPNO) s = T_IRQ0 + IRQ_TIMER \<and>
     load (0 + TF_CS) s AND 3 \<noteq> DPL_USER \<and> p_cur_timeslices (procs s ! i) = TIMESLICE (p_queue (procs s ! i))"
proof -
  obtain p :: pstate and i where p: "reach sched_init sched_step p" "held p = {}" "myproc p = Some i" "SCHEDULER p = SCHED_MLFQ" using example_running by blast
  let ?f = "fd_image (fs_image p [] (get_superblock []) []) [] (\<lambda>_. None)"
  let ?a = "?f\<lparr>mem := (\<lambda>a. if a = 48 then 32 else 0)\<rparr>"
  have "in_proc p" using p sched_sys.reach_inv by (auto simp: in_proc_def)
  then have "in_proc ?f" by (simp add: fs_image_proc fd_image_simps)
  then have f: "sinv {} {} ?f" by (simp add: in_proc_def)
  have a: "sinv {} {} ?a" using f by (subst sinv_cong [where s = ?f]) simp_all
  have e: "procs ?a = procs p" "cpu_proc ?a = cpu_proc p" "cpu_id ?a = cpu_id p" "held ?a = {}" "SCHEDULER ?a = SCHED_MLFQ"
    using p by (simp_all add: fd_image_def fs_image_def disk_image_def fstate.defs fdstate.defs bstate.defs pstate.defs lstate.defs)
  have ok: "list_all proc_ok (procs ?a)" "length (procs ?a) = NPROC" using a by (simp_all add: sinv_def table_ok_def)
  have "sinv {} {} (timer_image i p)"
    unfolding timer_image_def using ok by (intro sinv_upd_same [OF a]) (auto simp: list_all_length proc_ok_def live_def)
  moreover have "i < length (procs p)" using cpu_okD(1) [OF sinvD(3) [OF sched_sys.reach_inv [OF p(1)]]] table_okD(2) [OF sinvD(1) [OF sched_sys.reach_inv [OF p(1)]]] p(3) by (auto simp: myproc_def)
  ultimately show ?thesis
    using e p(3) timer_image_loads [of i p] by (intro exI [of _ "timer_image i p"] exI [of _ i]) (simp add: timer_image_def upd_proc_def myproc_def)
qed

text \<open>
  C12: A timer interrupt in a process that is not to be killed never fails, and takes the CPU away exactly as the scheduler demands: always under round robin and PBS, never under
  FCFS, and under MLFQ when the process has used the time of its queue, in which case it is marked for the next queue; otherwise the time that it has used grows by one.
\<close>

theorem timer_interrupt_policy:
  assumes "sinv {} {} s" "held s = {}" "myproc s = Some i"
    and "load (tf + TF_TRAPNO) s = T_IRQ0 + IRQ_TIMER" "\<not> (p_killed (procs s ! i) \<and> load (tf + TF_CS) s AND 3 = DPL_USER)"
  shows "\<exists>t. trap tf d s = Inr ((if preempts (SCHEDULER s) (procs s ! i) then Left_Cpu else Returned, kbd_shift d), t) \<and>
    slice_view (procs t ! i) = after_tick (SCHEDULER s) (procs s ! i) \<and> (preempts (SCHEDULER s) (procs s ! i) \<longleftrightarrow> L_ptable \<in> held t)"
  using trap_timer [OF assms, of d] by (auto simp: leaving_def split: if_splits)

theorem timer_interrupt_policy_witness:
  "\<exists>(s :: fdstate) i t. SCHEDULER s = SCHED_MLFQ \<and> trap 0 \<lparr>kbd_bytes = [], kbd_shift = 0, uart_chars = []\<rparr> s = Inr ((Left_Cpu, 0), t) \<and>
     slice_view (procs t ! i) = (RUNNABLE, p_queue (procs s ! i), TIMESLICE (p_queue (procs s ! i)), p_killed (procs s ! i), True)"
proof -
  obtain s :: fdstate and i where s: "sinv {} {} s" "held s = {}" "myproc s = Some i" "SCHEDULER s = SCHED_MLFQ" "load (0 + TF_TRAPNO) s = T_IRQ0 + IRQ_TIMER"
    "load (0 + TF_CS) s AND 3 \<noteq> DPL_USER" "p_cur_timeslices (procs s ! i) = TIMESLICE (p_queue (procs s ! i))" using example_timer by blast
  have k: "\<not> (p_killed (procs s ! i) \<and> load (0 + TF_CS) s AND 3 = DPL_USER)" using s(6) by blast
  show ?thesis
    using timer_interrupt_policy [OF s(1-3,5) k, of "\<lparr>kbd_bytes = [], kbd_shift = 0, uart_chars = []\<rparr>"] s(4,7)
    by (auto simp: preempts_def after_tick_def)
qed

text \<open>
  C6: Under MLFQ a process that is interrupted by the timer when its time is used up, and that is not to be killed, leaves the CPU outside of all queues. Once the scheduler has
  the CPU again, it is at the end of the next lower queue, or of the last one if it was there already, with a new time slice and no mark, and the queues are otherwise
  what they were.
\<close>

theorem mlfq_demotes:
  assumes "sinv {} {} s" "held s = {}" "myproc s = Some i" "SCHEDULER s = SCHED_MLFQ"
    and "load (tf + TF_TRAPNO) s = T_IRQ0 + IRQ_TIMER" "\<not> (p_killed (procs s ! i) \<and> load (tf + TF_CS) s AND 3 = DPL_USER)"
    and "TIMESLICE (p_queue (procs s ! i)) \<le> p_cur_timeslices (procs s ! i)" and "k = min (p_queue (procs s ! i) + 1) (int NUM_QUEUES - 1)"
  shows "\<exists>t u qs. trap tf d s = Inr ((Left_Cpu, kbd_shift d), t) \<and> swtch_back t = Inr (None, u) \<and>
    qbank t qs \<and> i \<notin> set (concat qs) \<and> qbank u (qs[nat k := qs ! nat k @ [i]]) \<and>
    p_state (procs u ! i) = RUNNABLE \<and> p_queue (procs u ! i) = k \<and> p_cur_timeslices (procs u ! i) = 0 \<and> \<not> p_punish (procs u ! i)"
proof -
  have p: "preempts (SCHEDULER s) (procs s ! i)" using assms(4,7) by (simp add: preempts_def)
  obtain t where t: "trap tf d s = Inr ((Left_Cpu, kbd_shift d), t)" "SCHEDULER t = SCHED_MLFQ" "slice_view (procs t ! i) = after_tick SCHED_MLFQ (procs s ! i)" "leaving i t"
    using trap_timer [OF assms(1-3,5,6), of d] p assms(4) by auto
  then have "p_state (procs t ! i) = RUNNABLE" "p_punish (procs t ! i)" "p_queue (procs t ! i) = p_queue (procs s ! i)"
    using p assms(4) by (simp_all add: slice_view_def after_tick_def)
  then show ?thesis using requeue_punished [OF t(4,2)] t(1) unfolding assms(8) by metis
qed

theorem mlfq_demotes_witness:
  "\<exists>(s :: fdstate) i t u qs k. trap 0 \<lparr>kbd_bytes = [], kbd_shift = 0, uart_chars = []\<rparr> s = Inr ((Left_Cpu, 0), t) \<and> swtch_back t = Inr (None, u) \<and>
     k = min (p_queue (procs s ! i) + 1) (int NUM_QUEUES - 1) \<and> qbank t qs \<and> qbank u (qs[nat k := qs ! nat k @ [i]]) \<and>
     p_queue (procs u ! i) = k \<and> p_cur_timeslices (procs u ! i) = 0"
proof -
  obtain s :: fdstate and i where s: "sinv {} {} s" "held s = {}" "myproc s = Some i" "SCHEDULER s = SCHED_MLFQ" "load (0 + TF_TRAPNO) s = T_IRQ0 + IRQ_TIMER"
    "load (0 + TF_CS) s AND 3 \<noteq> DPL_USER" "p_cur_timeslices (procs s ! i) = TIMESLICE (p_queue (procs s ! i))" using example_timer by blast
  have k: "\<not> (p_killed (procs s ! i) \<and> load (0 + TF_CS) s AND 3 = DPL_USER)" and l: "TIMESLICE (p_queue (procs s ! i)) \<le> p_cur_timeslices (procs s ! i)" using s(6,7) by simp_all
  show ?thesis
    using mlfq_demotes [OF s(1-5) k l refl, of "\<lparr>kbd_bytes = [], kbd_shift = 0, uart_chars = []\<rparr>"] by (simp only: devices.simps) blast
qed

end
