(* ===== verification/Spec2Isabelle.thy ===== *)
theory Spec2Isabelle
  imports Spinlock Sched_Props Log_Props Printf Grep File_Props Path_Elems Trap_Props
begin

text \<open>
  A verification library for a variant of xv6, a small Unix-like kernel for x86 multiprocessors, which adds to the original kernel
  a choice of four schedulers (round robin, first come first served, by priority, and a multilevel feedback queue), the system
  calls \<^verbatim>\<open>waitx\<close>, \<^verbatim>\<open>set_priority\<close> and \<^verbatim>\<open>getpinfo\<close>, and accounting of the time that processes use. All file names below are relative to \<^verbatim>\<open>src/\<close>.

  \<^bold>\<open>The parts of the program.\<close> A trap (\<^verbatim>\<open>trap.c\<close>) is an interrupt of a device or a system call (\<^verbatim>\<open>syscall.c\<close>, \<^verbatim>\<open>sysfile.c\<close>, \<^verbatim>\<open>sysproc.c\<close>, \<^verbatim>\<open>exec.c\<close>). System calls work on
  processes (\<^verbatim>\<open>proc.c\<close>, with the ready queues of \<^verbatim>\<open>queue.c\<close>), on their memory (\<^verbatim>\<open>vm.c\<close> over the page allocator \<^verbatim>\<open>kalloc.c\<close>), and on open files (\<^verbatim>\<open>file.c\<close>): pipes
  (\<^verbatim>\<open>pipe.c\<close>), the console (\<^verbatim>\<open>console.c\<close>, \<^verbatim>\<open>kbd.c\<close>) and inodes (\<^verbatim>\<open>fs.c\<close>). Inodes live in disk blocks, which are changed in transactions (\<^verbatim>\<open>log.c\<close>) through a cache of buffers (\<^verbatim>\<open>bio.c\<close>) over
  the disk (\<^verbatim>\<open>memide.c\<close>). Everything is protected by spin locks (\<^verbatim>\<open>spinlock.c\<close>) and, across disk accesses, by sleep locks (\<^verbatim>\<open>sleeplock.c\<close>). In user space there are a library (\<^verbatim>\<open>ulib.c\<close>,
  \<^verbatim>\<open>printf.c\<close>), the shell (\<^verbatim>\<open>sh.c\<close>) and small programs, of which \<^verbatim>\<open>grep.c\<close> and \<^verbatim>\<open>wc.c\<close> are modelled.

  \<^bold>\<open>State and effects.\<close> The globals of the kernel are one record, extended component by component: \<open>machine\<close> (memory, locks held, CPU number), \<open>kmem\<close>, \<open>vm\<close>, \<open>pstate\<close>, \<open>bstate\<close>, \<open>lstate\<close>, \<open>fstate\<close>, \<open>fdstate\<close>.
  An operation is a function from the state to an outcome of type \<open>kerr + 'a\<close>: a result with the new state, or the way in which the kernel stops (\<open>Panic\<close> with its message, a
  null pointer, an access outside an array, a loop without end, a wait). C integers are words of their width where the code relies on it, and integers or natural numbers where the
  conditions of the code bound them. Pointers into tables are indices; page tables, the free list of pages and user memory are bytes of memory. A routine that gives up
  the CPU is modelled up to the switch to the scheduler, and what it does when it runs again is a definition of its own (\<open>yield_exit\<close>, \<open>sleep_exit\<close>, \<open>wait_resume\<close>, \<open>pipewrite_resume\<close>, \<open>trap_resume\<close>).

  \<^bold>\<open>The theories.\<close>
  \<^item> \<open>Xv6_Prelude\<close>: words, outcomes and their sequencing, \<^verbatim>\<open>param.h\<close>, scanning of tables, reachability and the locale \<open>invariant_system\<close>. \<open>Ring_Buf\<close> and \<open>Ring_List\<close>: ring
    buffers with wrapping indices (locale \<open>ring_buffer\<close>) and circular doubly linked lists.
  \<^item> \<open>Mem_String\<close> (\<^verbatim>\<open>string.c\<close>, string instructions of \<^verbatim>\<open>x86.h\<close>) with \<open>memmove_overlap\<close>; \<open>Machine\<close>; \<open>Spinlock\<close> (\<^verbatim>\<open>spinlock.c\<close>): the atomic steps of any number of CPUs, mutual exclusion
    and that interrupts are off in a critical section. The other theories take a lock as one atomic operation, which that theory justifies.
  \<^item> \<open>Kalloc\<close> (\<^verbatim>\<open>kalloc.c\<close>), with the locale \<open>page_allocator\<close>: a page is never handed out twice; \<open>VM\<close> (\<^verbatim>\<open>vm.c\<close>).
  \<^item> \<open>Proc_State\<close>, \<open>Sched_Queue\<close> (\<^verbatim>\<open>queue.c\<close>, locale \<open>multi_queue\<close>), \<open>Proc_Table\<close>, \<open>Scheduler\<close> (\<^verbatim>\<open>proc.c\<close>); \<open>Sched_Inv\<close> has the invariant \<open>sinv\<close> of table, CPUs and queues and that every critical
    section keeps it, \<open>Sched_System\<close> the step relation \<open>sched_step\<close> of all CPUs, and \<open>Sched_Props\<close> what holds in all its reachable states and which process each policy runs.
  \<^item> \<open>Sleeplock\<close> (locale \<open>sleeplock_ref\<close>), \<open>Bio\<close> (\<^verbatim>\<open>bio.c\<close>, \<^verbatim>\<open>memide.c\<close>), \<open>Block_Store\<close> (the locale \<open>block_store\<close>: what the cache promises to the log) and \<open>Bio_Inv\<close>, where the cache with its linked list is shown to be
    such a store.
  \<^item> \<open>Disk_Format\<close> (\<^verbatim>\<open>fs.h\<close>), \<open>Log\<close> (\<^verbatim>\<open>log.c\<close>), \<open>Log_Inv\<close>, \<open>Log_Tx\<close> (the locale \<open>transaction\<close>: what the log promises to the file system) and \<open>Log_Props\<close>: a transaction survives a crash as a whole or not at all.
  \<^item> \<open>Inode\<close>, \<open>Inode_Io\<close> (\<^verbatim>\<open>fs.c\<close>); \<open>Block_Alloc\<close>: the free map as a set of blocks; \<open>File_Map\<close>: the block map of an inode; \<open>File_Data\<close>: the contents of an inode as a list of bytes; \<open>Byte_File\<close> (locale
    \<open>byte_file\<close>) and \<open>File_Props\<close>: \<^verbatim>\<open>readi\<close> and \<^verbatim>\<open>writei\<close> implement reading and writing such a list. \<open>Path_Elems\<close>: path names.
  \<^item> \<open>Console\<close> (\<^verbatim>\<open>console.c\<close>) and \<open>Kbd\<close> (\<^verbatim>\<open>kbd.c\<close>, \<^verbatim>\<open>kbd.h\<close>): line editing implements list operations, and what is typed is read. \<open>Pipe\<close>, \<open>Pipe_Props\<close> (\<^verbatim>\<open>pipe.c\<close>): first in, first out under every interleaving.
  \<^item> \<open>File_Table\<close> (\<^verbatim>\<open>file.c\<close>), \<open>Syscall_Args\<close> (\<^verbatim>\<open>syscall.c\<close>), \<open>Sys_File\<close> (\<^verbatim>\<open>sysfile.c\<close>), \<open>Sys_Proc\<close> (\<^verbatim>\<open>sysproc.c\<close> and the rest of \<^verbatim>\<open>proc.c\<close>), \<open>Exec\<close> (\<^verbatim>\<open>exec.c\<close>, \<^verbatim>\<open>elf.h\<close>), \<open>Trap\<close> (\<^verbatim>\<open>trap.c\<close>): from the interrupt or the system call down to the operations above;
    \<open>Trap_Props\<close>: preemption by the timer under each scheduler and the demotion of the feedback queue.
  \<^item> \<open>Ulib\<close>, \<open>Printf\<close>, \<open>Grep\<close> (also \<^verbatim>\<open>wc.c\<close>) and \<open>Sh_Parse\<close>: the user programs, with the language that \<^verbatim>\<open>grep\<close> matches, the round trip of numbers, and the termination of the parser.

  \<^bold>\<open>Interfaces.\<close> Every locale is interpreted on the definitions of the model: \<open>spin\<close>, \<open>sched_sys\<close> and \<open>pipe_sys\<close> (invariant systems), \<open>kalloc\<close>, \<open>mlq\<close>, \<open>buf_lock\<close>, \<open>bio\<close>, \<open>tx\<close>, \<open>input\<close> and \<open>pipe_buf\<close> (ring buffers), \<open>ibytes\<close>. A component uses
  the one below it through the lemmas of its interface: the log never looks into the linked list of the cache, and the file system never at the log.

  \<^bold>\<open>Loops.\<close> Loops over the list of a queue or of the cache are partial functions whose lack of a result is the outcome \<open>Loops\<close>; the invariants exclude it. Loops over addresses give \<open>Loops\<close> where the
  counter of the code would wrap around. The parser of the shell has fuel, four units for each byte of the line and four more, because no more than four of its routines are entered without taking a byte; \<open>parsecmd_terminates\<close> shows that it
  is enough. All other loops are total functions.

  \<^bold>\<open>Limits.\<close> The file system runs one system call at a time: a wait for a sleep lock or for the log stops the run with \<open>Blocked\<close>, and the properties of files are about runs without such a wait, in a transaction with room in the log. Pipes, processes and
  spin locks are interleaved. Not modelled are the start of the machine and its assembly code (\<^verbatim>\<open>bootmain.c\<close>, \<^verbatim>\<open>main.c\<close>, \<^verbatim>\<open>swtch.S\<close>), the registers of devices (\<^verbatim>\<open>lapic.c\<close>, \<^verbatim>\<open>ioapic.c\<close>, \<^verbatim>\<open>mp.c\<close>, \<^verbatim>\<open>ide.c\<close>, most of \<^verbatim>\<open>uart.c\<close>), segment and
  interrupt descriptors, messages on the console from inside the kernel, the program \<^verbatim>\<open>mkfs.c\<close> of the host, and the user programs and tests that only call the system. The linker's symbols, the disk image and what devices deliver are arguments or fields of the state.
\<close>

end
